(* ===== verification/Prelude.thy ===== *)
theory Prelude
  imports Main "HOL-Library.Word"
begin

text \<open>
  Shared vocabulary of the development: the machine integers and byte strings of the
  source, slices and \<^verbatim>\<open>copy_from_slice\<close>, little-endian conversion
  (\<^verbatim>\<open>to_le_bytes\<close> / \<^verbatim>\<open>from_le_bytes\<close>), number formatting for error messages, and
  stateful computations that may fail (\<^verbatim>\<open>Result\<close> with \<^verbatim>\<open>?\<close>).
  The collections \<open>slice_simps\<close> and \<open>prog_simps\<close> carry most component proofs.
\<close>

unbundle bit_operations_syntax

named_theorems slice_simps \<open>reading a subslice after a write to another or the same range\<close>
named_theorems prog_simps \<open>running a computation\<close>

section \<open>Machine integers and byte strings\<close>

type_synonym u8 = "8 word"
type_synonym u32 = "32 word"
type_synonym u64 = "64 word"
type_synonym bytes = "u8 list"

section \<open>Slices\<close>

text \<open>\<^verbatim>\<open>bytes[a..b]\<close> and \<^verbatim>\<open>bytes[off..off + n].copy_from_slice(src)\<close> with
  \<^verbatim>\<open>src.len() = n\<close>. The source uses both only within bounds; each use here has the
  length of the buffer at hand.\<close>

definition subslice :: "nat \<Rightarrow> nat \<Rightarrow> 'a list \<Rightarrow> 'a list" where
  "subslice a b xs = take (b - a) (drop a xs)"

definition copy_at :: "nat \<Rightarrow> 'a list \<Rightarrow> 'a list \<Rightarrow> 'a list" where
  "copy_at off src xs = take off xs @ src @ drop (off + length src) xs"

lemma length_slice [simp]: "length (subslice a b xs) = min (b - a) (length xs - a)"
  by (simp add: subslice_def)

lemma nth_slice: "i < b - a \<Longrightarrow> a + i < length xs \<Longrightarrow> subslice a b xs ! i = xs ! (a + i)"
  by (simp add: subslice_def)

lemma slice_full [simp]: "subslice 0 (length xs) xs = xs"
  by (simp add: subslice_def)

lemma slice_to_end: "length xs = n \<Longrightarrow> subslice a n xs = drop a xs"
  by (simp add: subslice_def)

lemma slice_empty [simp]: "b \<le> a \<Longrightarrow> subslice a b xs = []"
  by (simp add: subslice_def)

lemma slice_append_left: "b \<le> length xs \<Longrightarrow> subslice a b (xs @ ys) = subslice a b xs"
  by (cases "a \<le> length xs") (auto simp: subslice_def)

lemma slice_append_right: "length xs \<le> a \<Longrightarrow> subslice a b (xs @ ys) = subslice (a - length xs) (b - length xs) ys"
  by (simp add: subslice_def)

lemma slice_slice: "a \<le> b \<Longrightarrow> subslice c d (subslice a b xs) = subslice (a + c) (min (a + d) b) xs"
  by (simp add: subslice_def drop_take min_def add.commute)

lemma drop_slice: "drop n (subslice a b xs) = subslice (a + n) b xs"
  by (simp add: subslice_def drop_take add.commute)

lemma take_slice: "take n (subslice a b xs) = subslice a (min b (a + n)) xs"
  by (auto simp: subslice_def min_def intro!: arg_cong [where f = "\<lambda>k. take k (drop a xs)"])

lemma slice_drop: "subslice a b (drop n xs) = subslice (a + n) (b + n) xs"
  by (simp add: subslice_def)

lemma slice_take: "b \<le> n \<Longrightarrow> subslice a b (take n xs) = subslice a b xs"
  by (cases "a \<le> b") (simp_all add: subslice_def drop_take)

lemma length_copy_at [simp]:
  "off + length src \<le> length xs \<Longrightarrow> length (copy_at off src xs) = length xs"
  by (simp add: copy_at_def)

lemma nth_copy_at:
  "off + length src \<le> length xs \<Longrightarrow> i < length xs \<Longrightarrow>
   copy_at off src xs ! i =
     (if off \<le> i \<and> i < off + length src then src ! (i - off) else xs ! i)"
  by (auto simp: copy_at_def nth_append)

lemma slice_copy_same [slice_simps]:
  "off + length src \<le> length xs \<Longrightarrow> b = off + length src \<Longrightarrow> subslice off b (copy_at off src xs) = src"
  by (simp add: subslice_def copy_at_def)

lemma slice_copy_below [slice_simps]:
  assumes "b \<le> off" and "off + length src \<le> length xs"
  shows "subslice a b (copy_at off src xs) = subslice a b xs"
  using assms by (intro nth_equalityI) (auto simp: nth_slice nth_copy_at)

lemma slice_copy_above [slice_simps]:
  assumes "off + length src \<le> a" and "off + length src \<le> length xs"
  shows "subslice a b (copy_at off src xs) = subslice a b xs"
  using assms by (intro nth_equalityI) (auto simp: nth_slice nth_copy_at)

lemma drop_copy_at [slice_simps]:
  "off + length src \<le> n \<Longrightarrow> off + length src \<le> length xs \<Longrightarrow> drop n (copy_at off src xs) = drop n xs"
  by (intro nth_equalityI) (auto simp: nth_copy_at)

lemma nth_copy_other [slice_simps]:
  "off + length src \<le> length xs \<Longrightarrow> i < length xs \<Longrightarrow> i < off \<or> off + length src \<le> i \<Longrightarrow>
   copy_at off src xs ! i = xs ! i"
  by (auto simp: nth_copy_at)

lemma copy_at_id: "off + n \<le> length xs \<Longrightarrow> copy_at off (subslice off (off + n) xs) xs = xs"
  by (intro nth_equalityI) (auto simp: nth_copy_at nth_slice)

lemma copy_at_twice:
  "length src = length src' \<Longrightarrow> off + length src \<le> length xs \<Longrightarrow>
   copy_at off src (copy_at off src' xs) = copy_at off src xs"
  by (intro nth_equalityI) (auto simp: nth_copy_at)

lemma copy_at_0: "copy_at 0 src xs = src @ drop (length src) xs"
  by (simp add: copy_at_def)

lemma slice_update_other [slice_simps]:
  "i < a \<or> b \<le> i \<Longrightarrow> subslice a b (xs[i := x]) = subslice a b xs"
  by (intro nth_equalityI) (auto simp: nth_slice)

lemma slice_replicate [slice_simps]: "b \<le> n \<Longrightarrow> subslice a b (replicate n x) = replicate (b - a) x"
  by (simp add: subslice_def)

section \<open>Little-endian integers\<close>

text \<open>\<^verbatim>\<open>to_le n w\<close> is \<^verbatim>\<open>w.to_le_bytes()\<close> for an integer of \<open>n\<close> bytes.\<close>

primrec to_le :: "nat \<Rightarrow> 'a::len word \<Rightarrow> bytes" where
  "to_le 0 w = []"
| "to_le (Suc n) w = ucast w # to_le n (drop_bit 8 w)"

primrec from_le :: "bytes \<Rightarrow> 'a::len word" where
  "from_le [] = 0"
| "from_le (b # bs) = ucast b OR push_bit 8 (from_le bs)"

lemma length_to_le [simp]: "length (to_le n w) = n"
  by (induction n arbitrary: w) simp_all

lemma bit_from_le:
  "bit (from_le bs :: 'a::len word) i \<longleftrightarrow>
     i < LENGTH('a) \<and> i div 8 < length bs \<and> bit (bs ! (i div 8)) (i mod 8)"
proof (induction bs arbitrary: i)
  case (Cons b bs)
  show ?case
  proof (cases "i < 8")
    case True
    then show ?thesis
      by (auto simp: bit_simps)
  next
    case False
    then obtain j where i: "i = j + 8"
      by (metis add.commute le_Suc_ex not_less)
    have "\<not> bit b (j + 8)"
      by (simp add: bit_simps bit_word.rep_eq not_le)
    moreover have "(j + 8) div 8 = Suc (j div 8)" "(j + 8) mod 8 = j mod 8"
      by simp_all
    ultimately show ?thesis
      unfolding i using Cons.IH [of j] by (auto simp: bit_simps)
  qed
qed simp

lemma nth_to_le: "i < n \<Longrightarrow> to_le n w ! i = ucast (drop_bit (8 * i) w)"
  by (induction n arbitrary: w i) (auto simp: nth_Cons drop_bit_drop_bit ac_simps split: nat.splits)

lemma from_le_to_le [simp]:
  fixes w :: "'a::len word"
  assumes "LENGTH('a) \<le> 8 * n"
  shows "from_le (to_le n w) = w"
proof (rule bit_word_eqI)
  fix i assume i: "i < LENGTH('a)"
  with assms have "i div 8 < n" by auto
  moreover have "8 * (i div 8) + i mod 8 = i" by simp
  ultimately show "bit (from_le (to_le n w) :: 'a word) i = bit w i"
    using i by (simp add: bit_from_le nth_to_le bit_simps)
qed

lemma to_le_from_le [simp]:
  assumes "length bs = n" and "LENGTH('a) = 8 * n"
  shows "to_le n (from_le bs :: 'a::len word) = bs"
proof (rule nth_equalityI)
  fix i assume "i < length (to_le n (from_le bs :: 'a word))"
  then have i: "i < n" by simp
  show "to_le n (from_le bs :: 'a word) ! i = bs ! i"
  proof (rule bit_word_eqI)
    fix j assume "j < LENGTH(8)"
    then have j: "j < 8" by simp
    then have "(8 * i + j) div 8 = i" "(8 * i + j) mod 8 = j" "8 * i + j < 8 * n"
      using i by simp_all
    then show "bit (to_le n (from_le bs :: 'a word) ! i) j = bit (bs ! i) j"
      using i j assms by (simp add: nth_to_le bit_simps bit_from_le)
  qed
qed (simp add: assms)

lemma from_le_eq_iff:
  "length bs = n \<Longrightarrow> LENGTH('a) = 8 * n \<Longrightarrow> from_le bs = (w :: 'a::len word) \<longleftrightarrow> bs = to_le n w"
  by (metis from_le_to_le order_refl to_le_from_le)

lemma to_le_inj:
  fixes v w :: "'a::len word"
  shows "LENGTH('a) \<le> 8 * n \<Longrightarrow> to_le n v = to_le n w \<longleftrightarrow> v = w"
  by (metis from_le_to_le)

lemma from_le_inj:
  assumes "length xs = length ys" and "8 * length xs \<le> LENGTH('a)"
    and eq: "(from_le xs :: 'a::len word) = from_le ys"
  shows "xs = ys"
proof (rule nth_equalityI)
  fix i assume i: "i < length xs"
  show "xs ! i = ys ! i"
  proof (rule bit_word_eqI)
    fix j assume "j < LENGTH(8)"
    then have "(8 * i + j) div 8 = i" "(8 * i + j) mod 8 = j" "8 * i + j < LENGTH('a)"
      using i assms(2) by simp_all
    moreover have "bit (from_le xs :: 'a word) (8 * i + j) = bit (from_le ys :: 'a word) (8 * i + j)"
      by (simp only: eq)
    ultimately show "bit (xs ! i) j = bit (ys ! i) j"
      using i assms(1) by (simp add: bit_from_le)
  qed
qed (simp add: assms)

section \<open>Formatting\<close>

text \<open>Decimal \<^verbatim>\<open>{n}\<close> and zero-padded hexadecimal \<^verbatim>\<open>{n:#010x}\<close>.\<close>

definition digit_char :: "nat \<Rightarrow> char" where
  "digit_char d = ''0123456789abcdef'' ! (d mod 16)"

fun show_nat :: "nat \<Rightarrow> string" where
  "show_nat n = (if n < 10 then [digit_char n] else show_nat (n div 10) @ [digit_char (n mod 10)])"

declare show_nat.simps [simp del]

definition show_word :: "'a::len word \<Rightarrow> string" where
  "show_word w = show_nat (unat w)"

definition show_hex32 :: "u32 \<Rightarrow> string" where
  "show_hex32 w = ''0x'' @ map (\<lambda>i. digit_char (unat w div 16 ^ i)) [7, 6, 5, 4, 3, 2, 1, 0]"

section \<open>Computations that may fail\<close>

text \<open>
  A computation over a state \<open>'s\<close> returns \<^verbatim>\<open>Ok\<close> (\<open>Inr\<close>) or \<^verbatim>\<open>Err\<close> (\<open>Inl\<close>)
  together with the state it leaves behind, since an error does not undo what the code
  has done before it. \<open>and_then m k\<close> is \<^verbatim>\<open>let x = m?; k(x)\<close>.
\<close>

type_synonym ('s, 'e, 'a) prog = "'s \<Rightarrow> ('e + 'a) \<times> 's"

definition ok :: "'a \<Rightarrow> ('s, 'e, 'a) prog" where
  "ok x s = (Inr x, s)"

definition throw :: "'e \<Rightarrow> ('s, 'e, 'a) prog" where
  "throw e s = (Inl e, s)"

definition and_then :: "('s, 'e, 'a) prog \<Rightarrow> ('a \<Rightarrow> ('s, 'e, 'b) prog) \<Rightarrow> ('s, 'e, 'b) prog" where
  "and_then m k s = (case m s of (Inl e, s') \<Rightarrow> (Inl e, s') | (Inr x, s') \<Rightarrow> k x s')"

text \<open>\<^verbatim>\<open>r?\<close> for a result that needs no state.\<close>

definition lift_res :: "'e + 'a \<Rightarrow> ('s, 'e, 'a) prog" where
  "lift_res r s = (r, s)"

lemma ok_run [prog_simps]: "ok x s = (Inr x, s)"
  by (simp add: ok_def)

lemma throw_run [prog_simps]: "throw e s = (Inl e, s)"
  by (simp add: throw_def)

lemma lift_res_run [prog_simps]: "lift_res r s = (r, s)"
  by (simp add: lift_res_def)

lemma and_then_Inr [prog_simps]: "m s = (Inr x, s') \<Longrightarrow> and_then m k s = k x s'"
  by (simp add: and_then_def)

lemma and_then_Inl [prog_simps]: "m s = (Inl e, s') \<Longrightarrow> and_then m k s = (Inl e, s')"
  by (simp add: and_then_def)

lemma and_then_eq_Inr:
  "and_then m k s = (Inr y, s'') \<longleftrightarrow> (\<exists>x s'. m s = (Inr x, s') \<and> k x s' = (Inr y, s''))"
  by (auto simp: and_then_def split: prod.splits sum.splits)

lemma and_then_eq_Inl:
  "and_then m k s = (Inl e, s'') \<longleftrightarrow>
     m s = (Inl e, s'') \<or> (\<exists>x s'. m s = (Inr x, s') \<and> k x s' = (Inl e, s''))"
  by (auto simp: and_then_def split: prod.splits sum.splits)

text \<open>A computation on one part of a pair.\<close>

definition on_fst :: "('s, 'e, 'a) prog \<Rightarrow> ('s \<times> 't, 'e, 'a) prog" where
  "on_fst m st = (case m (fst st) of (r, s') \<Rightarrow> (r, (s', snd st)))"

definition on_snd :: "('t, 'e, 'a) prog \<Rightarrow> ('s \<times> 't, 'e, 'a) prog" where
  "on_snd m st = (case m (snd st) of (r, t') \<Rightarrow> (r, (fst st, t')))"

lemma on_fst_run [prog_simps]: "m s = (r, s') \<Longrightarrow> on_fst m (s, t) = (r, (s', t))"
  by (simp add: on_fst_def)

lemma on_snd_run [prog_simps]: "m t = (r, t') \<Longrightarrow> on_snd m (s, t) = (r, (s, t'))"
  by (simp add: on_snd_def)

text \<open>\<^verbatim>\<open>for x in xs { f(x)?; }\<close>\<close>

fun for_each :: "('x \<Rightarrow> ('s, 'e, 'a) prog) \<Rightarrow> 'x list \<Rightarrow> ('s, 'e, unit) prog" where
  "for_each f [] = ok ()"
| "for_each f (x # xs) = and_then (f x) (\<lambda>_. for_each f xs)"

definition is_ok :: "'e + 'a \<Rightarrow> bool" where
  "is_ok r \<longleftrightarrow> (case r of Inl _ \<Rightarrow> False | Inr _ \<Rightarrow> True)"

lemma is_ok_simps [simp]: "is_ok (Inr x)" "\<not> is_ok (Inl e)"
  by (simp_all add: is_ok_def)

lemma is_ok_iff: "is_ok r \<longleftrightarrow> (\<exists>x. r = Inr x)"
  by (cases r) simp_all

lemma for_each_append:
  "for_each f (xs @ ys) = and_then (for_each f xs) (\<lambda>_. for_each f ys)"
  by (induction xs) (auto simp: fun_eq_iff and_then_def ok_def split: prod.splits sum.splits)

section \<open>One of many threads moves\<close>

lemma card_without: "finite A \<Longrightarrow> card A = card (A - {t}) + of_bool (t \<in> A)"
proof (cases "t \<in> A")
  case True
  assume "finite A"
  from card_Suc_Diff1 [OF this True] True show ?thesis by (simp del: card_Diff_insert)
qed simp

text \<open>A sum over the indices that count, when one term changes.\<close>

lemma sum_support_change:
  fixes g g' :: "'a \<Rightarrow> nat"
  assumes fin: "finite {i. g i \<noteq> 0}" and same: "\<And>i. i \<noteq> t \<Longrightarrow> g' i = g i"
  shows "(\<Sum>i | g' i \<noteq> 0. g' i) + g t = (\<Sum>i | g i \<noteq> 0. g i) + g' t"
proof -
  let ?A = "insert t {i. g i \<noteq> 0}"
  have A: "finite ?A" using fin by simp
  have "(\<Sum>i | g' i \<noteq> 0. g' i) = (\<Sum>i \<in> ?A. g' i)" using same by (intro sum.mono_neutral_left [OF A]) auto
  moreover have "(\<Sum>i | g i \<noteq> 0. g i) = (\<Sum>i \<in> ?A. g i)" by (intro sum.mono_neutral_left [OF A]) auto
  moreover have "(\<Sum>i \<in> ?A - {t}. g' i) = (\<Sum>i \<in> ?A - {t}. g i)" using same by (intro sum.cong) auto
  ultimately show ?thesis using sum.remove [OF A, of t g] sum.remove [OF A, of t g'] by simp
qed

section \<open>Ordered maps\<close>

text \<open>\<^verbatim>\<open>BTreeMap\<close>: the entries in the order in which the map is iterated.\<close>

type_synonym ('k, 'v) btree_map = "('k \<times> 'v) list"

fun bt_insert :: "'k::linorder \<Rightarrow> 'v \<Rightarrow> ('k, 'v) btree_map \<Rightarrow> ('k, 'v) btree_map" where
  "bt_insert k v [] = [(k, v)]"
| "bt_insert k v ((k', v') # m) =
     (if k < k' then (k, v) # (k', v') # m
      else if k = k' then (k, v) # m
      else (k', v') # bt_insert k v m)"

definition bt_ordered :: "('k::linorder, 'v) btree_map \<Rightarrow> bool" where
  "bt_ordered m \<longleftrightarrow> sorted_wrt (<) (map fst m)"

lemma map_of_bt_insert [simp]: "map_of (bt_insert k v m) = (map_of m)(k \<mapsto> v)"
  by (induction k v m rule: bt_insert.induct) (auto simp: fun_eq_iff)

lemma keys_bt_insert [simp]: "fst ` set (bt_insert k v m) = insert k (fst ` set m)"
  by (induction k v m rule: bt_insert.induct) auto

lemma set_bt_insert: "set (bt_insert k v m) \<subseteq> insert (k, v) (set m)"
  by (induction k v m rule: bt_insert.induct) auto

lemma bt_ordered_Nil [simp]: "bt_ordered []"
  by (simp add: bt_ordered_def)

lemma bt_ordered_insert [simp]: "bt_ordered m \<Longrightarrow> bt_ordered (bt_insert k v m)"
proof (induction k v m rule: bt_insert.induct)
  case (2 k v k' v' m)
  have "set (map fst (bt_insert k v m)) = insert k (fst ` set m)" by simp
  with 2 show ?case by (auto simp: bt_ordered_def)
qed (simp add: bt_ordered_def)

lemma bt_ordered_distinct: "bt_ordered m \<Longrightarrow> distinct (map fst m)"
  by (simp add: bt_ordered_def strict_sorted_iff)

lemma bt_insert_not_Nil [simp]: "bt_insert k v m \<noteq> []"
  by (induction k v m rule: bt_insert.induct) simp_all

end
