(* ===== verification/Checksum.thy ===== *)
theory Checksum
  imports Prelude
begin

text \<open>
  CRC32C (\<^verbatim>\<open>storage/checksum/mod.rs\<close>, \<^verbatim>\<open>storage/checksum/hw.rs\<close>): the lookup tables, the
  byte-at-a-time and slicing-by-8 updates, the two hardware paths, and the incremental
  hasher. All of them are shown to compute the bit-serial CRC, whichever CPU runs them, and
  the checksum to change with every change of up to four consecutive bytes. The locale
  \<open>burst_checksum\<close> is what the page and log formats rely on.
\<close>

section \<open>Definitions\<close>

definition POLY :: u32 where
  "POLY = 0x82F63B78"

definition crc_step :: "u32 \<Rightarrow> u32" where
  "crc_step crc = (if crc AND 1 \<noteq> 0 then drop_bit 1 crc XOR POLY else drop_bit 1 crc)"

text \<open>The inner loop of \<^verbatim>\<open>build_tables\<close>, \<open>n\<close> rounds.\<close>

primrec crc_bits :: "nat \<Rightarrow> u32 \<Rightarrow> u32" where
  "crc_bits 0 crc = crc"
| "crc_bits (Suc n) crc = crc_bits n (crc_step crc)"

definition table0 :: "u32 list" where
  "table0 = map (\<lambda>i. crc_bits 8 (of_nat i)) [0..<256]"

definition next_table :: "u32 list \<Rightarrow> u32 list \<Rightarrow> u32 list" where
  "next_table t0 prev = map (\<lambda>p. drop_bit 8 p XOR t0 ! unat (p AND 0xFF)) prev"

primrec tables_from :: "nat \<Rightarrow> u32 list \<Rightarrow> u32 list \<Rightarrow> u32 list list" where
  "tables_from 0 t0 t = [t]"
| "tables_from (Suc n) t0 t = t # tables_from n t0 (next_table t0 t)"

definition build_tables :: "u32 list list" where
  "build_tables = tables_from 7 table0 table0"

definition TABLES :: "u32 list list" where
  "TABLES = build_tables"

primrec update_bytewise :: "u32 \<Rightarrow> bytes \<Rightarrow> u32" where
  "update_bytewise crc [] = crc"
| "update_bytewise crc (byte # bytes) =
     update_bytewise (TABLES ! 0 ! unat ((crc XOR ucast byte) AND 0xFF) XOR drop_bit 8 crc) bytes"

fun update_slice8 :: "u32 \<Rightarrow> bytes \<Rightarrow> u32" where
  "update_slice8 crc (c0 # c1 # c2 # c3 # c4 # c5 # c6 # c7 # rest) =
     (let lo = (from_le [c0, c1, c2, c3] :: u32) XOR crc;
          hi = (from_le [c4, c5, c6, c7] :: u32)
      in update_slice8
          (TABLES ! 7 ! unat (lo AND 0xFF)
           XOR TABLES ! 6 ! unat (drop_bit 8 lo AND 0xFF)
           XOR TABLES ! 5 ! unat (drop_bit 16 lo AND 0xFF)
           XOR TABLES ! 4 ! unat (drop_bit 24 lo)
           XOR TABLES ! 3 ! unat (hi AND 0xFF)
           XOR TABLES ! 2 ! unat (drop_bit 8 hi AND 0xFF)
           XOR TABLES ! 1 ! unat (drop_bit 16 hi AND 0xFF)
           XOR TABLES ! 0 ! unat (drop_bit 24 hi)) rest)"
| "update_slice8 crc bytes = update_bytewise crc bytes"

text \<open>
  The CRC instructions of \<^verbatim>\<open>std::arch\<close>, as the architecture manuals define them: division
  by the polynomial, one data bit per round, over the operand's width.
\<close>

definition crc_step64 :: "u64 \<Rightarrow> u64" where
  "crc_step64 x = (if x AND 1 \<noteq> 0 then drop_bit 1 x XOR ucast POLY else drop_bit 1 x)"

primrec crc_bits64 :: "nat \<Rightarrow> u64 \<Rightarrow> u64" where
  "crc_bits64 0 x = x"
| "crc_bits64 (Suc n) x = crc_bits64 n (crc_step64 x)"

definition crc32cb :: "u32 \<Rightarrow> u8 \<Rightarrow> u32" where
  "crc32cb crc b = crc_bits 8 (crc XOR ucast b)"

definition crc32cd :: "u32 \<Rightarrow> u64 \<Rightarrow> u32" where
  "crc32cd crc w = ucast (crc_bits64 64 (ucast crc XOR w))"

definition mm_crc32_u64 :: "u64 \<Rightarrow> u64 \<Rightarrow> u64" where
  "mm_crc32_u64 crc w = ucast (crc32cd (ucast crc) w)"

fun update_aarch64 :: "u32 \<Rightarrow> bytes \<Rightarrow> u32" where
  "update_aarch64 crc (c0 # c1 # c2 # c3 # c4 # c5 # c6 # c7 # rest) =
     update_aarch64 (crc32cd crc (from_le [c0, c1, c2, c3, c4, c5, c6, c7])) rest"
| "update_aarch64 crc remainder = foldl crc32cb crc remainder"

fun x86_64_chunks :: "u64 \<Rightarrow> bytes \<Rightarrow> u64 \<times> bytes" where
  "x86_64_chunks crc (c0 # c1 # c2 # c3 # c4 # c5 # c6 # c7 # rest) =
     x86_64_chunks (mm_crc32_u64 crc (from_le [c0, c1, c2, c3, c4, c5, c6, c7])) rest"
| "x86_64_chunks crc remainder = (crc, remainder)"

definition update_x86_64 :: "u32 \<Rightarrow> bytes \<Rightarrow> u32" where
  "update_x86_64 crc bytes =
     (case x86_64_chunks (ucast crc) bytes of (crc', remainder) \<Rightarrow> foldl crc32cb (ucast crc') remainder)"

text \<open>The CPU the program runs on, as far as \<^verbatim>\<open>hw::update\<close> asks.\<close>

datatype cpu = Portable | Aarch64_crc | X86_64_sse42

fun hw_update :: "cpu \<Rightarrow> u32 \<Rightarrow> bytes \<Rightarrow> u32 option" where
  "hw_update Aarch64_crc crc bytes = Some (update_aarch64 crc bytes)"
| "hw_update X86_64_sse42 crc bytes = Some (update_x86_64 crc bytes)"
| "hw_update Portable crc bytes = None"

record crc32c_hasher =
  crc_state :: u32

definition crc_new :: crc32c_hasher where
  "crc_new = \<lparr>crc_state = NOT 0\<rparr>"

definition crc_update :: "cpu \<Rightarrow> bytes \<Rightarrow> crc32c_hasher \<Rightarrow> crc32c_hasher" where
  "crc_update cpu bytes h =
     h\<lparr>crc_state := (case hw_update cpu (crc_state h) bytes of
                   Some crc \<Rightarrow> crc
                 | None \<Rightarrow> update_slice8 (crc_state h) bytes)\<rparr>"

definition crc_finalize :: "crc32c_hasher \<Rightarrow> u32" where
  "crc_finalize h = NOT (crc_state h)"

definition crc32c_on :: "cpu \<Rightarrow> bytes \<Rightarrow> u32" where
  "crc32c_on cpu bytes = crc_finalize (crc_update cpu bytes crc_new)"

definition crc32c :: "bytes \<Rightarrow> u32" where
  "crc32c bytes = crc32c_on Portable bytes"

text \<open>The reference: one bit at a time.\<close>

primrec crc_serial :: "u32 \<Rightarrow> bytes \<Rightarrow> u32" where
  "crc_serial crc [] = crc"
| "crc_serial crc (b # bs) = crc_serial (crc_bits 8 (crc XOR ucast b)) bs"

section \<open>The bit step is linear and injective\<close>

lemma and_one_zero: "(x::'a::len word) AND 1 \<noteq> 0 \<longleftrightarrow> bit x 0"
  by (simp add: and_one_eq mod_2_eq_odd bit_0)

lemma crc_step_alt: "crc_step c = drop_bit 1 c XOR (if bit c 0 then POLY else 0)"
  by (simp add: crc_step_def and_one_zero)

lemma word_xor_cancel [simp]: "(a::'a::len word) XOR p = b XOR p \<longleftrightarrow> a = b"
  by (metis xor.assoc xor.right_neutral xor_self_eq)

lemma not_bit_beyond: "LENGTH('a) \<le> n \<Longrightarrow> \<not> bit (w::'a::len word) n"
  using bit_imp_le_length not_less by blast

lemma and_FF: "(x::u32) AND 0xFF = take_bit 8 x"
  by (simp add: take_bit_eq_mask mask_numeral)

lemma and_FF_less: "unat ((x::u32) AND 0xFF) < 256"
  using take_bit_nat_less_exp [of 8 "unat x"] by (simp add: and_FF unsigned_take_bit_eq)

lemma crc_step_xor: "crc_step (a XOR b) = crc_step a XOR crc_step b"
  by (auto simp: crc_step_alt bit_xor_iff drop_bit_xor ac_simps intro!: bit_word_eqI)

lemma crc_bits_xor: "crc_bits n (a XOR b) = crc_bits n a XOR crc_bits n b"
  by (induction n arbitrary: a b) (simp_all add: crc_step_xor)

lemma crc_bits_add: "crc_bits (m + n) c = crc_bits n (crc_bits m c)"
  by (induction m arbitrary: c) simp_all

lemma bit_crc_step_31: "bit (crc_step c) 31 = bit c 0"
proof -
  have "bit (drop_bit 1 c) 31 = False" "bit POLY 31"
    by (simp_all add: bit_drop_bit_eq not_bit_beyond POLY_def)
  then show ?thesis by (simp add: crc_step_alt bit_simps)
qed

lemma crc_step_inj: "crc_step a = crc_step b \<longleftrightarrow> a = b"
proof
  assume eq: "crc_step a = crc_step b"
  then have low: "bit a 0 = bit b 0" by (metis bit_crc_step_31)
  with eq have "drop_bit 1 a = drop_bit 1 b"
    by (auto simp: crc_step_alt split: if_splits)
  then have "bit a (Suc i) = bit b (Suc i)" for i
    by (metis bit_drop_bit_eq comp_apply plus_1_eq_Suc)
  with low show "a = b"
    by (auto intro!: bit_word_eqI) (metis not0_implies_Suc)+
qed simp

lemma crc_bits_inj: "crc_bits n a = crc_bits n b \<longleftrightarrow> a = b"
  by (induction n arbitrary: a b) (simp_all add: crc_step_inj)

section \<open>Shifting whole bytes through the register\<close>

lemma crc_bits_shift: "n \<le> m \<Longrightarrow> crc_bits n (push_bit n (drop_bit m c)) = drop_bit m c"
proof (induction n)
  case (Suc n)
  have "drop_bit 1 (push_bit (Suc n) (drop_bit m c)) = push_bit n (drop_bit m c)"
  proof (rule bit_word_eqI)
    fix i assume "i < LENGTH(32)"
    then show "bit (drop_bit 1 (push_bit (Suc n) (drop_bit m c))) i = bit (push_bit n (drop_bit m c)) i"
      using Suc.prems by (cases "i = 31") (auto simp: bit_simps not_bit_beyond simp del: push_bit_Suc)
  qed
  then have "crc_step (push_bit (Suc n) (drop_bit m c)) = push_bit n (drop_bit m c)"
    by (simp add: crc_step_alt bit_simps del: push_bit_Suc)
  with Suc show ?case by simp
qed simp

lemma word_split_low: "(x::'a::len word) = take_bit n x XOR push_bit n (drop_bit n x)"
  by (auto intro!: bit_word_eqI simp: bit_simps)

lemma crc_bits_split: "crc_bits (8 + n) x = crc_bits (8 + n) (x AND 0xFF) XOR crc_bits n (drop_bit 8 x)"
proof -
  have "crc_bits (8 + n) (push_bit 8 (drop_bit 8 x)) = crc_bits n (drop_bit 8 x)"
    by (simp add: crc_bits_add crc_bits_shift)
  then show ?thesis
    by (metis and_FF crc_bits_xor word_split_low)
qed

lemma length_tables_from: "length (tables_from n t0 t) = Suc n"
  by (induction n arbitrary: t) simp_all

lemma nth_tables_from: "k \<le> n \<Longrightarrow> tables_from n t0 t ! k = (next_table t0 ^^ k) t"
proof (induction n arbitrary: t k)
  case (Suc n)
  then show ?case by (cases k) (simp_all add: funpow_swap1)
qed simp

lemma nth_table0: "i < 256 \<Longrightarrow> table0 ! i = crc_bits 8 (of_nat i)"
  unfolding table0_def by (subst nth_map) (simp_all del: upt_rec_numeral)

lemma length_table0: "length table0 = 256"
  unfolding table0_def by (simp del: upt_rec_numeral)

lemma iterate_next_table:
  "i < 256 \<Longrightarrow> length ((next_table table0 ^^ k) table0) = 256 \<and>
     (next_table table0 ^^ k) table0 ! i = crc_bits (8 * Suc k) (of_nat i)"
proof (induction k)
  case (Suc k)
  let ?p = "crc_bits (8 * Suc k) (of_nat i)"
  have "crc_bits (8 * Suc (Suc k)) (of_nat i) = crc_bits 8 ?p"
    by (simp flip: crc_bits_add add: ac_simps)
  also have "\<dots> = drop_bit 8 ?p XOR crc_bits 8 (?p AND 0xFF)"
    using crc_bits_split [of 0 ?p] by (simp add: ac_simps)
  also have "\<dots> = drop_bit 8 ?p XOR table0 ! unat (?p AND 0xFF)"
    by (simp add: nth_table0 and_FF_less)
  finally show ?case
    using Suc by (simp add: next_table_def)
qed (simp add: nth_table0 length_table0)

lemma TABLES_nth: "k < 8 \<Longrightarrow> i < 256 \<Longrightarrow> TABLES ! k ! i = crc_bits (8 * Suc k) (of_nat i)"
  using iterate_next_table [of i k] by (simp add: TABLES_def build_tables_def nth_tables_from)

section \<open>Every implementation computes the bit-serial CRC\<close>

lemma update_bytewise_serial: "update_bytewise c bs = crc_serial c bs"
proof (induction bs arbitrary: c)
  case (Cons b bs)
  let ?x = "c XOR ucast b"
  have "drop_bit 8 ?x = drop_bit 8 c"
    by (auto intro!: bit_word_eqI simp: bit_simps not_bit_beyond)
  then have "TABLES ! 0 ! unat (?x AND 0xFF) XOR drop_bit 8 c = crc_bits 8 ?x"
    using crc_bits_split [of 0 ?x] by (simp add: TABLES_nth and_FF_less)
  then show ?case by (simp add: Cons.IH)
qed simp

lemma crc_serial_append: "crc_serial c (xs @ ys) = crc_serial (crc_serial c xs) ys"
  by (induction xs arbitrary: c) simp_all

lemma crc_serial_foldl: "foldl crc32cb c bs = crc_serial c bs"
  by (induction bs arbitrary: c) (simp_all add: crc32cb_def)

lemma ucast_or_push: "(ucast (b::u8) :: 'a::len word) OR push_bit 8 y = ucast b XOR push_bit 8 y"
  by (auto intro!: bit_word_eqI simp: bit_simps not_bit_beyond)

lemma crc_serial_word:
  "length bs \<le> 4 \<Longrightarrow> crc_serial c bs = crc_bits (8 * length bs) (c XOR from_le bs)"
proof (induction bs arbitrary: c)
  case (Cons b bs)
  let ?w = "from_le bs :: u32"
  have "?w = drop_bit 8 (push_bit 8 ?w)"
    using Cons.prems by (auto intro!: bit_word_eqI simp: bit_simps bit_from_le)
  then have shift: "crc_bits 8 (push_bit 8 ?w) = ?w"
    by (metis crc_bits_shift order_refl)
  have "crc_bits (8 * length (b # bs)) (c XOR from_le (b # bs)) =
      crc_bits (8 * length bs) (crc_bits 8 ((c XOR ucast b) XOR push_bit 8 ?w))"
    by (simp add: crc_bits_add ucast_or_push xor.assoc)
  also have "\<dots> = crc_serial c (b # bs)"
    using Cons by (simp add: crc_bits_xor [of 8] shift)
  finally show ?case by simp
qed simp

lemma crc_bits_bytes:
  "crc_bits (32 + n) x = crc_bits (32 + n) (x AND 0xFF) XOR crc_bits (24 + n) (drop_bit 8 x AND 0xFF)
     XOR crc_bits (16 + n) (drop_bit 16 x AND 0xFF) XOR crc_bits (8 + n) (drop_bit 24 x)"
  using crc_bits_split [of "24 + n" x] crc_bits_split [of "16 + n" "drop_bit 8 x"]
    crc_bits_split [of "8 + n" "drop_bit 16 x"]
  by (simp add: drop_bit_drop_bit ac_simps)

lemma drop24_less: "unat (drop_bit 24 (x::u32)) < 256"
proof -
  have "unat x < 2 ^ 32" using unsigned_less [of x] by simp
  then show ?thesis by (subst unat_drop_bit_eq) (simp add: drop_bit_eq_div)
qed

lemma crc_serial_8:
  "crc_serial c [c0, c1, c2, c3, c4, c5, c6, c7] =
     crc_bits 64 (from_le [c0, c1, c2, c3] XOR c) XOR crc_bits 32 (from_le [c4, c5, c6, c7])"
proof -
  have "crc_serial c ([c0, c1, c2, c3] @ [c4, c5, c6, c7]) =
      crc_bits 32 (crc_bits 32 (c XOR from_le [c0, c1, c2, c3]) XOR from_le [c4, c5, c6, c7])"
    by (simp only: crc_serial_append) (simp add: crc_serial_word del: crc_serial.simps from_le.simps)
  then show ?thesis
    by (simp add: crc_bits_xor crc_bits_add [of 32 32, simplified] xor.commute [of "crc_bits 32 (crc_bits 32 c)"]
        del: crc_serial.simps from_le.simps)
qed

lemma TABLES_FF: "k < 8 \<Longrightarrow> TABLES ! k ! unat (x AND 0xFF) = crc_bits (8 * Suc k) (x AND 0xFF)"
  by (simp add: TABLES_nth and_FF_less)

lemma TABLES_24: "k < 8 \<Longrightarrow> TABLES ! k ! unat (drop_bit 24 x) = crc_bits (8 * Suc k) (drop_bit 24 x)"
  by (simp add: TABLES_nth drop24_less)

lemma slice8_lookup:
  "TABLES ! 7 ! unat (lo AND 0xFF) XOR TABLES ! 6 ! unat (drop_bit 8 lo AND 0xFF)
   XOR TABLES ! 5 ! unat (drop_bit 16 lo AND 0xFF) XOR TABLES ! 4 ! unat (drop_bit 24 lo)
   XOR TABLES ! 3 ! unat (hi AND 0xFF) XOR TABLES ! 2 ! unat (drop_bit 8 hi AND 0xFF)
   XOR TABLES ! 1 ! unat (drop_bit 16 hi AND 0xFF) XOR TABLES ! 0 ! unat (drop_bit 24 hi) =
   crc_bits 64 lo XOR crc_bits 32 hi"
proof -
  have "crc_bits 64 lo = crc_bits 64 (lo AND 0xFF) XOR crc_bits 56 (drop_bit 8 lo AND 0xFF)
      XOR crc_bits 48 (drop_bit 16 lo AND 0xFF) XOR crc_bits 40 (drop_bit 24 lo)"
    using crc_bits_bytes [of 32 lo] by simp
  moreover have "crc_bits 32 hi = crc_bits 32 (hi AND 0xFF) XOR crc_bits 24 (drop_bit 8 hi AND 0xFF)
      XOR crc_bits 16 (drop_bit 16 hi AND 0xFF) XOR crc_bits 8 (drop_bit 24 hi)"
    using crc_bits_bytes [of 0 hi] by simp
  ultimately show ?thesis
    by (simp add: TABLES_FF TABLES_24 xor.assoc)
qed

lemma update_slice8_serial: "update_slice8 c bs = crc_serial c bs"
proof (induction c bs rule: update_slice8.induct)
  case (1 crc c0 c1 c2 c3 c4 c5 c6 c7 rest)
  let ?lo = "(from_le [c0, c1, c2, c3] :: u32) XOR crc" and ?hi = "from_le [c4, c5, c6, c7] :: u32"
  have "crc_bits 64 ?lo XOR crc_bits 32 ?hi = crc_serial crc [c0, c1, c2, c3, c4, c5, c6, c7]"
    by (simp only: crc_serial_8)
  then show ?case
    using 1 [OF refl refl] crc_serial_append [of crc "[c0, c1, c2, c3, c4, c5, c6, c7]" rest]
    by (simp only: update_slice8.simps Let_def slice8_lookup append_Cons append_Nil)
qed (simp_all add: update_bytewise_serial)

section \<open>The hardware paths\<close>

lemma crc_step64_alt: "crc_step64 x = drop_bit 1 x XOR (if bit x 0 then ucast POLY else 0)"
  by (simp add: crc_step64_def and_one_zero)

lemma crc_step64_xor: "crc_step64 (a XOR b) = crc_step64 a XOR crc_step64 b"
  by (auto simp: crc_step64_alt bit_xor_iff drop_bit_xor ac_simps intro!: bit_word_eqI)

lemma crc_bits64_xor: "crc_bits64 n (a XOR b) = crc_bits64 n a XOR crc_bits64 n b"
  by (induction n arbitrary: a b) (simp_all add: crc_step64_xor)

lemma crc_bits64_add: "crc_bits64 (m + n) c = crc_bits64 n (crc_bits64 m c)"
  by (induction m arbitrary: c) simp_all

lemma crc_step64_ucast: "crc_step64 (ucast (c::u32)) = ucast (crc_step c)"
  by (auto simp: crc_step64_alt crc_step_alt bit_simps not_bit_beyond intro!: bit_word_eqI)
    (drule bit_imp_le_length, simp)+

lemma ucast_u64_u32 [simp]: "ucast (ucast (c::u32) :: u64) = c"
  by (auto intro!: bit_word_eqI simp: bit_simps)

lemma crc_bits64_ucast: "crc_bits64 n (ucast (c::u32)) = ucast (crc_bits n c)"
  by (induction n arbitrary: c) (simp_all add: crc_step64_ucast)

lemma crc_bits64_shift: "n \<le> 32 \<Longrightarrow> crc_bits64 n (push_bit n (ucast (c::u32))) = ucast c"
proof (induction n)
  case (Suc n)
  have "drop_bit 1 (push_bit (Suc n) (ucast c :: u64)) = push_bit n (ucast c)"
  proof (rule bit_word_eqI)
    fix i assume "i < LENGTH(64)"
    then show "bit (drop_bit 1 (push_bit (Suc n) (ucast c :: u64))) i = bit (push_bit n (ucast c :: u64)) i"
      using Suc.prems by (cases "i = 63") (auto simp: bit_simps not_bit_beyond simp del: push_bit_Suc)
  qed
  then have "crc_step64 (push_bit (Suc n) (ucast c)) = push_bit n (ucast c)"
    by (simp add: crc_step64_alt bit_simps del: push_bit_Suc)
  with Suc show ?case by simp
qed simp

lemma from_le_64_halves:
  "(from_le [c0, c1, c2, c3, c4, c5, c6, c7] :: u64) =
     ucast (from_le [c0, c1, c2, c3] :: u32) XOR push_bit 32 (ucast (from_le [c4, c5, c6, c7] :: u32))"
proof (rule bit_word_eqI)
  fix i assume "i < LENGTH(64)"
  then have i: "i < 64" by simp
  show "bit (from_le [c0, c1, c2, c3, c4, c5, c6, c7] :: u64) i =
    bit (ucast (from_le [c0, c1, c2, c3] :: u32) XOR push_bit 32 (ucast (from_le [c4, c5, c6, c7] :: u32)) :: u64) i"
  proof (cases "i < 32")
    case True
    then have "[c0, c1, c2, c3, c4, c5, c6, c7] ! (i div 8) = [c0, c1, c2, c3] ! (i div 8)"
      using nth_append_left [of "i div 8" "[c0, c1, c2, c3]" "[c4, c5, c6, c7]"] by simp
    with True show ?thesis
      by (auto simp: bit_simps bit_from_le simp del: from_le.simps)
  next
    case False
    then obtain j where j: "i = 32 + j" "j < 32"
      using i by (metis add.commute le_Suc_ex less_diff_conv not_less numeral_Bit0 add_diff_cancel_left' add_less_cancel_left)
    have "(32 + j) div 8 = 4 + j div 8" "(32 + j) mod 8 = j mod 8" by presburger+
    with j show ?thesis
      by (auto simp: bit_simps bit_from_le not_bit_beyond simp del: from_le.simps)
  qed
qed

lemma crc32cd_serial:
  "crc32cd c (from_le [c0, c1, c2, c3, c4, c5, c6, c7]) = crc_serial c [c0, c1, c2, c3, c4, c5, c6, c7]"
proof -
  let ?lo = "from_le [c0, c1, c2, c3] :: u32" and ?hi = "from_le [c4, c5, c6, c7] :: u32"
  have "crc_bits64 64 (ucast c XOR from_le [c0, c1, c2, c3, c4, c5, c6, c7]) =
      crc_bits64 32 (crc_bits64 32 (ucast (c XOR ?lo) XOR push_bit 32 (ucast ?hi)))"
    by (simp only: from_le_64_halves flip: crc_bits64_add) (simp add: unsigned_xor_eq xor.assoc)
  also have "\<dots> = ucast (crc_bits 32 (crc_bits 32 (c XOR ?lo) XOR ?hi))"
    by (simp only: crc_bits64_xor [of 32 "ucast (c XOR ?lo)"] crc_bits64_shift order_refl crc_bits64_ucast
        flip: unsigned_xor_eq)
  finally show ?thesis
    by (simp add: crc32cd_def crc_serial_8 crc_bits_xor crc_bits_add [of 32 32, simplified]
        xor.commute [of "crc_bits 32 (crc_bits 32 c)"] del: from_le.simps crc_serial.simps)
qed

lemma update_aarch64_serial: "update_aarch64 c bs = crc_serial c bs"
proof (induction c bs rule: update_aarch64.induct)
  case (1 crc c0 c1 c2 c3 c4 c5 c6 c7 rest)
  then show ?case
    using crc_serial_append [of crc "[c0, c1, c2, c3, c4, c5, c6, c7]" rest]
    by (simp only: update_aarch64.simps crc32cd_serial append_Cons append_Nil)
qed (simp_all add: crc32cb_def)

lemma x86_64_chunks_serial:
  "x86_64_chunks (ucast (c::u32)) bs = (w, r) \<Longrightarrow> foldl crc32cb (ucast w) r = crc_serial c bs"
proof (induction "ucast c :: u64" bs arbitrary: c rule: x86_64_chunks.induct)
  case (1 c0 c1 c2 c3 c4 c5 c6 c7 rest)
  let ?c = "crc_serial c [c0, c1, c2, c3, c4, c5, c6, c7]"
  have step: "mm_crc32_u64 (ucast c) (from_le [c0, c1, c2, c3, c4, c5, c6, c7]) = ucast ?c"
    by (simp add: mm_crc32_u64_def crc32cd_serial del: from_le.simps crc_serial.simps)
  from 1(1) [OF step] 1(2) show ?case
    using crc_serial_append [of c "[c0, c1, c2, c3, c4, c5, c6, c7]" rest]
    by (simp only: x86_64_chunks.simps step append_Cons append_Nil)
qed (auto simp: crc32cb_def)

lemma update_x86_64_serial: "update_x86_64 c bs = crc_serial c bs"
  by (auto simp: update_x86_64_def split: prod.splits dest: x86_64_chunks_serial)

lemma crc_update_serial: "crc_state (crc_update cpu bs h) = crc_serial (crc_state h) bs"
  by (cases cpu)
    (simp_all add: crc_update_def update_slice8_serial update_aarch64_serial update_x86_64_serial)

lemma crc32c_on_serial: "crc32c_on cpu bs = NOT (crc_serial (NOT 0) bs)"
  by (simp add: crc32c_on_def crc_finalize_def crc_update_serial crc_new_def)

lemma crc32c_serial: "crc32c bs = NOT (crc_serial (NOT 0) bs)"
  by (simp add: crc32c_def crc32c_on_serial)

text \<open>The test vectors of the source, evaluated.\<close>

lemma crc_bits_8:
  "crc_bits 8 c = crc_step (crc_step (crc_step (crc_step (crc_step (crc_step (crc_step (crc_step c)))))))"
  by (simp add: numeral_eq_Suc)

lemma crc32c_check_value: "crc32c [0x31, 0x32, 0x33, 0x34, 0x35, 0x36, 0x37, 0x38, 0x39] = 0xE3069283"
  by (simp add: crc32c_serial crc_bits_8 crc_step_def POLY_def)

lemma crc32c_empty: "crc32c [] = 0"
  by (simp add: crc32c_serial)

section \<open>Detection\<close>

lemma crc_serial_state_inj: "crc_serial a bs = crc_serial b bs \<longleftrightarrow> a = b"
  by (induction bs arbitrary: a b) (simp_all add: crc_bits_inj)

lemma crc_serial_burst:
  assumes "length xs = length ys" and "length xs \<le> 4" and "xs \<noteq> ys"
  shows "crc_serial c xs \<noteq> crc_serial c ys"
proof
  assume "crc_serial c xs = crc_serial c ys"
  then have "c XOR (from_le xs :: u32) = c XOR from_le ys"
    using assms by (simp add: crc_serial_word crc_bits_inj)
  then have "(from_le xs :: u32) = from_le ys"
    by (metis word_xor_cancel xor.commute)
  with assms show False
    using from_le_inj [of xs ys, where 'a = 32] by simp
qed

text \<open>
  What the formats need of their checksum: it sees every change confined to four
  consecutive bytes. The facts below are about a \<^emph>\<open>frame\<close>, a byte string that stores at
  offset \<open>p\<close> the checksum of everything after that field.
\<close>

locale burst_checksum =
  fixes ck :: "bytes \<Rightarrow> u32"
  assumes burst: "length xs = length ys \<Longrightarrow> length xs \<le> 4 \<Longrightarrow> xs \<noteq> ys \<Longrightarrow>
    ck (pre @ xs @ post) \<noteq> ck (pre @ ys @ post)"
begin

lemma burst_at:
  assumes "length src \<le> 4" and "off + length src \<le> length bs"
    and "src \<noteq> subslice off (off + length src) bs"
  shows "ck (copy_at off src bs) \<noteq> ck bs"
proof -
  let ?old = "subslice off (off + length src) bs"
  have "bs = take off bs @ ?old @ drop (off + length src) bs"
    using copy_at_id [of off "length src" bs] assms(2) by (simp add: copy_at_def)
  moreover have "ck (take off bs @ src @ drop (off + length src) bs) \<noteq>
      ck (take off bs @ ?old @ drop (off + length src) bs)"
    using assms by (intro burst) auto
  ultimately show ?thesis by (simp add: copy_at_def)
qed

lemma update_as_copy: "i < length bs \<Longrightarrow> bs[i := x] = copy_at i [x] bs"
  by (simp add: copy_at_def upd_conv_take_nth_drop)

lemma detects_byte: "i < length bs \<Longrightarrow> x \<noteq> bs ! i \<Longrightarrow> ck (bs[i := x]) \<noteq> ck bs"
  using burst_at [of "[x]" i bs] by (simp add: update_as_copy subslice_def take_Suc_conv_app_nth)

lemma frame_sealed:
  assumes "p + 4 \<le> length bs"
  shows "from_le (subslice p (p + 4) (copy_at p (to_le 4 (ck (drop (p + 4) bs))) bs)) =
    ck (drop (p + 4) (copy_at p (to_le 4 (ck (drop (p + 4) bs))) bs))"
  using assms by (simp add: slice_simps)

lemma frame_rejects_byte:
  assumes "from_le (subslice p (p + 4) bs) = ck (drop (p + 4) bs)"
    and "p \<le> i" and "i < length bs" and "p + 4 \<le> length bs" and "x \<noteq> bs ! i"
  shows "from_le (subslice p (p + 4) (bs[i := x])) \<noteq> ck (drop (p + 4) (bs[i := x]))"
proof (cases "i < p + 4")
  case True
  have "subslice p (p + 4) (bs[i := x]) ! (i - p) \<noteq> subslice p (p + 4) bs ! (i - p)"
    using assms True by (simp add: nth_slice)
  then have "from_le (subslice p (p + 4) (bs[i := x])) \<noteq> (from_le (subslice p (p + 4) bs) :: u32)"
    using from_le_inj [of "subslice p (p + 4) (bs[i := x])" "subslice p (p + 4) bs", where 'a = 32] by auto
  with True assms(1) show ?thesis by simp
next
  case False
  then have "drop (p + 4) (bs[i := x]) = (drop (p + 4) bs)[i - (p + 4) := x]"
    by (simp add: drop_update_swap)
  moreover have "ck ((drop (p + 4) bs)[i - (p + 4) := x]) \<noteq> ck (drop (p + 4) bs)"
    using False assms by (intro detects_byte) auto
  moreover have "subslice p (p + 4) (bs[i := x]) = subslice p (p + 4) bs"
    using False by (simp add: slice_simps)
  ultimately show ?thesis using assms(1) by metis
qed

end

interpretation crc: burst_checksum crc32c
  by unfold_locales
    (simp add: crc32c_serial crc_serial_append crc_serial_state_inj crc_serial_burst)

section \<open>Properties\<close>

text \<open>
  C27: On every CPU (portable slicing-by-8, ARMv8 or SSE4.2 instructions) the checksum of a
  byte string is the bit-serial CRC32C of the reflected polynomial, so files written on one
  machine verify on any other.
\<close>
theorem crc32c_every_cpu: "crc32c_on cpu bs = NOT (crc_serial (NOT 0) bs)"
  by (rule crc32c_on_serial)

text \<open>
  The optimised slicing-by-8 update agrees with the byte-at-a-time reference from every
  starting state on every input, and so does the hardware update where the CPU has one.
\<close>
theorem updates_agree_with_bytewise:
  "update_slice8 crc bs = update_bytewise crc bs \<and>
   hw_update cpu crc bs \<in> {None, Some (update_bytewise crc bs)}"
  by (cases cpu) (simp_all add: update_slice8_serial update_bytewise_serial update_aarch64_serial
      update_x86_64_serial)

text \<open>
  Feeding a message to the incremental hasher in two pieces gives the checksum of the
  whole message, even if the pieces are hashed by different implementations.
\<close>
theorem crc_update_incremental:
  "crc_finalize (crc_update cpu2 ys (crc_update cpu1 xs crc_new)) = crc32c_on cpu3 (xs @ ys)"
  by (simp add: crc32c_on_serial crc_finalize_def crc_update_serial crc_new_def crc_serial_append)

text \<open>
  C32: Overwriting up to four consecutive bytes of a message with different ones always
  changes its checksum; in particular every single-byte corruption and every burst of at
  most 25 bits is detected.
\<close>
theorem crc32c_detects_bursts:
  assumes "length src \<le> 4" and "off + length src \<le> length bs"
    and "src \<noteq> subslice off (off + length src) bs"
  shows "crc32c_on cpu (copy_at off src bs) \<noteq> crc32c_on cpu bs"
  using crc.burst_at [OF assms] by (simp add: crc32c_on_serial crc32c_serial)

theorem crc32c_detects_bursts_witness:
  "length [0xFF :: u8, 0xFE] \<le> 4 \<and> 1 + length [0xFF :: u8, 0xFE] \<le> length [1 :: u8, 2, 3, 4] \<and>
   [0xFF, 0xFE] \<noteq> subslice 1 (1 + length [0xFF :: u8, 0xFE]) [1 :: u8, 2, 3, 4] \<and>
   crc32c_on Aarch64_crc (copy_at 1 [0xFF, 0xFE] [1, 2, 3, 4]) \<noteq> crc32c_on Aarch64_crc [1, 2, 3, 4]"
  using crc32c_detects_bursts [of "[0xFF, 0xFE]" 1 "[1, 2, 3, 4]" Aarch64_crc]
  by (simp add: subslice_def)

end
