(* ===== verification/Error.thy ===== *)
theory Error
  imports Prelude
begin

text \<open>
  The error values of the engine (\<^verbatim>\<open>error.rs\<close>) and their \<^verbatim>\<open>Display\<close> text. An
  \<^verbatim>\<open>io::Error\<close> is its kind and the message the operating system or the standard library
  attached to it.
\<close>

datatype io_kind = NotFound | AlreadyExists | UnexpectedEof | OtherKind

datatype io_error = Io_Error (io_kind: io_kind) (io_message: string)

datatype error =
    Io io_error
  | Corruption string
  | UnsupportedFormat string
  | InvalidArgument string
  | ResourceExhausted string
  | Poisoned string

type_synonym 'a result = "error + 'a"

definition corruption :: "string \<Rightarrow> error" where
  "corruption msg = Corruption msg"

fun display_error :: "error \<Rightarrow> string" where
  "display_error (Io err) = ''I/O error: '' @ io_message err"
| "display_error (Corruption msg) = ''data corruption detected: '' @ msg"
| "display_error (UnsupportedFormat msg) = ''unsupported file format: '' @ msg"
| "display_error (InvalidArgument msg) = ''invalid argument: '' @ msg"
| "display_error (ResourceExhausted msg) = ''resource exhausted: '' @ msg"
| "display_error (Poisoned msg) = ''unusable after earlier failure: '' @ msg"

text \<open>\<^verbatim>\<open>std::error::Error::source\<close>: only an I/O error has an underlying cause.\<close>

fun error_source :: "error \<Rightarrow> io_error option" where
  "error_source (Io err) = Some err"
| "error_source _ = None"

definition from_io_error :: "io_error \<Rightarrow> error" where
  "from_io_error err = Io err"

lemma error_source_from_io: "error_source (from_io_error err) = Some err"
  by (simp add: from_io_error_def)

definition is_corruption :: "'a result \<Rightarrow> bool" where
  "is_corruption r \<longleftrightarrow> (case r of Inl (Corruption _) \<Rightarrow> True | _ \<Rightarrow> False)"

lemma is_corruption_simps [simp]:
  "is_corruption (Inl (Corruption msg))" "is_corruption (Inl (corruption msg))" "\<not> is_corruption (Inr x)"
  by (simp_all add: is_corruption_def corruption_def)

lemma is_corruption_iff: "is_corruption r \<longleftrightarrow> (\<exists>msg. r = Inl (Corruption msg))"
  by (auto simp: is_corruption_def split: sum.splits error.splits)

end
