(* ===== verification/Page.thy ===== *)
theory Page
  imports Checksum Error
begin

text \<open>
  Fixed-size pages (\<^verbatim>\<open>storage/page.rs\<close>): the page buffer, its 24-byte header, sealing and
  verification. A \<^verbatim>\<open>Box<[u8; PAGE_SIZE]>\<close> is the type \<open>page\<close> of byte lists of that length.
\<close>

section \<open>Definitions\<close>

definition PAGE_SIZE :: nat where
  [simp, code_unfold]: "PAGE_SIZE = 4096"

datatype page_id = PageId (raw: u64)

definition HEADER :: page_id where
  "HEADER = PageId 0"

text \<open>\<^verbatim>\<open>self.0 * PAGE_SIZE as u64\<close>: in a release build the product wraps at 64 bits.\<close>

definition file_offset :: "page_id \<Rightarrow> u64" where
  "file_offset pid = raw pid * of_nat PAGE_SIZE"

definition display_page_id :: "page_id \<Rightarrow> string" where
  "display_page_id pid = ''page '' @ show_word (raw pid)"

text \<open>The derived \<^verbatim>\<open>Ord\<close>, by which a \<^verbatim>\<open>BTreeMap\<close> iterates.\<close>

instantiation page_id :: linorder
begin

definition less_eq_page_id :: "page_id \<Rightarrow> page_id \<Rightarrow> bool" where
  "less_eq_page_id a b \<longleftrightarrow> raw a \<le> raw b"

definition less_page_id :: "page_id \<Rightarrow> page_id \<Rightarrow> bool" where
  "less_page_id a b \<longleftrightarrow> raw a < raw b"

instance
  by standard (auto simp: less_eq_page_id_def less_page_id_def page_id.expand)

end

definition PAGE_HEADER_SIZE :: nat where
  [simp, code_unfold]: "PAGE_HEADER_SIZE = 24"

datatype page_type = Free | Heap

fun page_type_byte :: "page_type \<Rightarrow> u8" where
  "page_type_byte Free = 1"
| "page_type_byte Heap = 2"

definition page_type_try_from :: "u8 \<Rightarrow> u8 + page_type" where
  "page_type_try_from value =
     (if value = 1 then Inr Free else if value = 2 then Inr Heap else Inl value)"

record page_header =
  hdr_page_type :: page_type
  hdr_page_id :: page_id
  hdr_lsn :: u64

typedef page = "{bs :: bytes. length bs = PAGE_SIZE}" morphisms as_bytes Abs_page
  by (rule exI [of _ "replicate PAGE_SIZE 0"]) simp

setup_lifting type_definition_page

definition zeroed :: page where
  "zeroed = Abs_page (replicate PAGE_SIZE 0)"

definition page_new :: "page_id \<Rightarrow> page_type \<Rightarrow> page" where
  "page_new pid ty =
     Abs_page (copy_at 8 (to_le 8 (raw pid)) ((as_bytes zeroed)[4 := page_type_byte ty]))"

definition get_page_id :: "page \<Rightarrow> page_id" where
  "get_page_id p = PageId (from_le (subslice 8 16 (as_bytes p)))"

definition set_lsn :: "u64 \<Rightarrow> page \<Rightarrow> page" where
  "set_lsn l p = Abs_page (copy_at 16 (to_le 8 l) (as_bytes p))"

definition payload :: "page \<Rightarrow> bytes" where
  "payload p = drop PAGE_HEADER_SIZE (as_bytes p)"

text \<open>
  A \<^verbatim>\<open>&mut [u8]\<close> can change the bytes it borrows but not how many there are:
  \<open>payload_mut new\<close> writes \<open>new\<close> through \<^verbatim>\<open>payload_mut()\<close>, \<open>as_bytes_mut new\<close> through
  \<^verbatim>\<open>as_bytes_mut()\<close>, in both cases from the start of the borrowed range and at most its length.
\<close>

definition payload_mut :: "bytes \<Rightarrow> page \<Rightarrow> page" where
  "payload_mut new p =
     Abs_page (copy_at PAGE_HEADER_SIZE (take (PAGE_SIZE - PAGE_HEADER_SIZE) new) (as_bytes p))"

definition as_bytes_mut :: "bytes \<Rightarrow> page \<Rightarrow> page" where
  "as_bytes_mut new p = Abs_page (copy_at 0 (take PAGE_SIZE new) (as_bytes p))"

definition seal :: "page \<Rightarrow> page" where
  "seal p = Abs_page (copy_at 0 (to_le 4 (crc32c (drop 4 (as_bytes p)))) (as_bytes p))"

definition decode_header :: "page \<Rightarrow> page_id \<Rightarrow> page_header result" where
  "decode_header p expected =
     (case page_type_try_from (as_bytes p ! 4) of
        Inl r \<Rightarrow> Inl (corruption (display_page_id expected @ '': unknown page type '' @ show_word r))
      | Inr ty \<Rightarrow>
          if list_ex (\<lambda>b. b \<noteq> 0) (subslice 5 8 (as_bytes p))
          then Inl (corruption (display_page_id expected @ '': reserved header bytes are set''))
          else Inr \<lparr>hdr_page_type = ty,
                    hdr_page_id = PageId (from_le (subslice 8 16 (as_bytes p))),
                    hdr_lsn = from_le (subslice 16 24 (as_bytes p))\<rparr>)"

definition verify :: "page \<Rightarrow> page_id \<Rightarrow> page_header result" where
  "verify p expected =
     (let stored = from_le (subslice 0 4 (as_bytes p)); actual = crc32c (drop 4 (as_bytes p)) in
      if stored \<noteq> actual
      then Inl (corruption (display_page_id expected @ '': checksum mismatch (stored '' @ show_hex32 stored
              @ '', computed '' @ show_hex32 actual @ '')''))
      else (case decode_header p expected of
              Inl e \<Rightarrow> Inl e
            | Inr header \<Rightarrow>
                if hdr_page_id header \<noteq> expected
                then Inl (corruption (display_page_id expected @ '': header says it is ''
                        @ display_page_id (hdr_page_id header)))
                else Inr header))"

section \<open>Basic facts\<close>

lemma length_as_bytes [simp]: "length (as_bytes p) = 4096"
  using as_bytes [of p] by simp

lemma page_eqI: "as_bytes p = as_bytes q \<Longrightarrow> p = q"
  by (simp add: as_bytes_inject)

lemma page_type_round_trip [simp]: "page_type_try_from (page_type_byte ty) = Inr ty"
  by (cases ty) (simp_all add: page_type_try_from_def)

lemma page_type_try_from_iff: "page_type_try_from b = Inr ty \<longleftrightarrow> b = page_type_byte ty"
  by (cases ty) (auto simp: page_type_try_from_def split: if_splits)

lemma as_bytes_Abs: "length bs = 4096 \<Longrightarrow> as_bytes (Abs_page bs) = bs"
  by (simp add: Abs_page_inverse)

lemma as_bytes_zeroed [code abstract]: "as_bytes zeroed = replicate PAGE_SIZE 0"
  by (simp add: zeroed_def as_bytes_Abs)

lemma as_bytes_page_new [code abstract]:
  "as_bytes (page_new pid ty) =
     copy_at 8 (to_le 8 (raw pid)) ((replicate PAGE_SIZE 0)[4 := page_type_byte ty])"
  by (simp add: page_new_def as_bytes_zeroed as_bytes_Abs)

lemma as_bytes_set_lsn [code abstract]: "as_bytes (set_lsn l p) = copy_at 16 (to_le 8 l) (as_bytes p)"
  by (simp add: set_lsn_def as_bytes_Abs)

lemma as_bytes_payload_mut [code abstract]:
  "as_bytes (payload_mut new p) =
     copy_at PAGE_HEADER_SIZE (take (PAGE_SIZE - PAGE_HEADER_SIZE) new) (as_bytes p)"
  by (simp add: payload_mut_def as_bytes_Abs)

lemma as_bytes_as_bytes_mut [code abstract]:
  "as_bytes (as_bytes_mut new p) = copy_at 0 (take PAGE_SIZE new) (as_bytes p)"
  by (simp add: as_bytes_mut_def as_bytes_Abs)

lemma as_bytes_seal [code abstract]:
  "as_bytes (seal p) = copy_at 0 (to_le 4 (crc32c (drop 4 (as_bytes p)))) (as_bytes p)"
  by (simp add: seal_def as_bytes_Abs)

lemmas page_rep_eqs = as_bytes_zeroed as_bytes_page_new as_bytes_set_lsn as_bytes_payload_mut
  as_bytes_as_bytes_mut as_bytes_seal

lemma from_le_zeros [simp]: "from_le (replicate n 0) = 0"
  by (induction n) simp_all

lemma as_bytes_mut_all: "length new = 4096 \<Longrightarrow> as_bytes (as_bytes_mut new p) = new"
  by (simp add: as_bytes_as_bytes_mut copy_at_0)

lemma payload_mut_all: "length new = 4072 \<Longrightarrow> payload (payload_mut new p) = new"
  by (simp add: payload_def as_bytes_payload_mut copy_at_def)

text \<open>Sealing touches the checksum field only.\<close>

lemma seal_slice [simp]: "4 \<le> a \<Longrightarrow> subslice a b (as_bytes (seal p)) = subslice a b (as_bytes p)"
  by (simp add: as_bytes_seal slice_simps)

lemma seal_drop [simp]: "4 \<le> n \<Longrightarrow> drop n (as_bytes (seal p)) = drop n (as_bytes p)"
  by (simp add: as_bytes_seal slice_simps)

lemma seal_nth [simp]: "4 \<le> i \<Longrightarrow> i < 4096 \<Longrightarrow> as_bytes (seal p) ! i = as_bytes p ! i"
  by (simp add: as_bytes_seal slice_simps)

lemma payload_seal [simp]: "payload (seal p) = payload p"
  by (simp add: payload_def)

lemma get_page_id_seal [simp]: "get_page_id (seal p) = get_page_id p"
  by (simp add: get_page_id_def)

lemma decode_header_seal [simp]: "decode_header (seal p) = decode_header p"
  by (simp add: decode_header_def fun_eq_iff split: sum.split)

lemma seal_checksum: "from_le (subslice 0 4 (as_bytes (seal p))) = crc32c (drop 4 (as_bytes (seal p)))"
  using crc.frame_sealed [of 0 "as_bytes p"] by (simp add: as_bytes_seal)

text \<open>A page is sealed when its stored checksum is right; sealing it again changes nothing.\<close>

definition sealed :: "page \<Rightarrow> bool" where
  "sealed p \<longleftrightarrow> from_le (subslice 0 4 (as_bytes p)) = crc32c (drop 4 (as_bytes p))"

lemma sealed_seal [simp]: "sealed (seal p)"
  by (simp add: sealed_def seal_checksum)

lemma seal_sealed: "sealed p \<Longrightarrow> seal p = p"
proof (rule page_eqI)
  assume "sealed p"
  then have "crc32c (drop 4 (as_bytes p)) = from_le (subslice 0 4 (as_bytes p))"
    by (simp add: sealed_def)
  then have "to_le 4 (crc32c (drop 4 (as_bytes p))) = subslice 0 4 (as_bytes p)"
    by (simp only:) simp
  then show "as_bytes (seal p) = as_bytes p"
    using copy_at_id [of 0 4 "as_bytes p"] by (simp add: as_bytes_seal)
qed

section \<open>Verification characterised\<close>

lemma reserved_ok: "\<not> list_ex (\<lambda>b. b \<noteq> 0) xs \<longleftrightarrow> xs = replicate (length xs) (0::u8)"
  by (induction xs) auto

lemma decode_header_iff:
  "decode_header p expected = Inr h \<longleftrightarrow>
     as_bytes p ! 4 = page_type_byte (hdr_page_type h) \<and> subslice 5 8 (as_bytes p) = replicate 3 0 \<and>
     hdr_page_id h = get_page_id p \<and> hdr_lsn h = from_le (subslice 16 24 (as_bytes p))"
  using reserved_ok [of "subslice 5 8 (as_bytes p)"]
  by (cases h) (auto simp: decode_header_def get_page_id_def split: sum.splits if_splits
      dest: page_type_try_from_iff [THEN iffD1])

lemma decode_header_Inl: "decode_header p expected = Inl e \<Longrightarrow> \<exists>msg. e = Corruption msg"
  by (auto simp: decode_header_def corruption_def split: sum.splits if_splits)

lemma verify_iff:
  "verify p expected = Inr h \<longleftrightarrow>
     sealed p \<and> decode_header p expected = Inr h \<and> hdr_page_id h = expected"
  by (auto simp: verify_def sealed_def Let_def split: sum.splits if_splits)

lemma verify_Inl: "verify p expected = Inl e \<Longrightarrow> \<exists>msg. e = Corruption msg"
  by (auto simp: verify_def corruption_def Let_def split: sum.splits if_splits dest: decode_header_Inl)

lemma verify_is_corruption: "is_corruption (verify p expected) \<longleftrightarrow> (\<forall>h. verify p expected \<noteq> Inr h)"
  by (cases "verify p expected") (auto dest: verify_Inl)

lemma verify_sealed: "verify p expected = Inr h \<Longrightarrow> sealed p"
  by (simp add: verify_iff)

lemma verify_page_id: "verify p expected = Inr h \<Longrightarrow> get_page_id p = expected"
  by (auto simp: verify_iff decode_header_iff)

lemma not_sealed_verify: "\<not> sealed p \<Longrightarrow> is_corruption (verify p expected)"
  by (simp add: verify_is_corruption verify_iff)

text \<open>A page that verifies under its own id: what the disk manager hands out.\<close>

definition valid_page :: "page_id \<Rightarrow> page \<Rightarrow> bool" where
  "valid_page pid p \<longleftrightarrow> is_ok (verify p pid)"

lemma valid_page_iff: "valid_page pid p \<longleftrightarrow> (\<exists>h. verify p pid = Inr h)"
  by (simp add: valid_page_def is_ok_iff)

lemma valid_page_sealed: "valid_page pid p \<Longrightarrow> seal p = p"
  by (auto simp: valid_page_iff dest: verify_sealed intro: seal_sealed)

lemma valid_page_id: "valid_page pid p \<Longrightarrow> get_page_id p = pid"
  by (auto simp: valid_page_iff dest: verify_page_id)

text \<open>The fields of a freshly made page, and that writes to the payload and the LSN keep them.\<close>

lemma page_new_fields:
  "as_bytes (page_new pid ty) ! 4 = page_type_byte ty"
  "subslice 5 8 (as_bytes (page_new pid ty)) = replicate 3 0"
  "subslice 8 16 (as_bytes (page_new pid ty)) = to_le 8 (raw pid)"
  "get_page_id (page_new pid ty) = pid"
  by (simp_all add: page_rep_eqs slice_simps get_page_id_def)

lemma set_lsn_fields:
  "as_bytes (set_lsn l p) ! 4 = as_bytes p ! 4"
  "subslice 5 8 (as_bytes (set_lsn l p)) = subslice 5 8 (as_bytes p)"
  "subslice 16 24 (as_bytes (set_lsn l p)) = to_le 8 l"
  "get_page_id (set_lsn l p) = get_page_id p"
  by (simp_all add: page_rep_eqs slice_simps get_page_id_def)

lemma payload_mut_fields:
  "as_bytes (payload_mut d p) ! 4 = as_bytes p ! 4"
  "b \<le> 24 \<Longrightarrow> subslice a b (as_bytes (payload_mut d p)) = subslice a b (as_bytes p)"
  "get_page_id (payload_mut d p) = get_page_id p"
  by (simp_all add: page_rep_eqs slice_simps get_page_id_def)

lemmas page_fields = page_new_fields set_lsn_fields payload_mut_fields

lemma payload_of_new: "payload (set_lsn l (page_new pid ty)) = replicate 4072 0"
  by (simp add: payload_def page_rep_eqs slice_simps)

lemma payload_mut_payload:
  "payload (payload_mut d p) = take 4072 d @ drop (length d) (payload p)"
  by (cases "length d \<le> 4072") (simp_all add: payload_def as_bytes_payload_mut copy_at_def add.commute)

lemma zeroed_type_byte: "as_bytes zeroed ! 4 \<noteq> page_type_byte ty"
  by (cases ty) (simp_all add: as_bytes_zeroed)

lemma zeroed_not_valid: "\<not> valid_page pid zeroed"
  by (simp add: valid_page_iff decode_header_iff verify_iff zeroed_type_byte)

section \<open>Properties\<close>

text \<open>
  C33: A page that is made, given an LSN and a payload, and sealed verifies under its own id and
  returns exactly the header and payload it was given; under any other id the verification
  reports corruption (a misdirected read or write is caught).
\<close>
theorem sealed_page_round_trips:
  "verify (seal (payload_mut d (set_lsn l (page_new pid ty)))) pid =
     Inr \<lparr>hdr_page_type = ty, hdr_page_id = pid, hdr_lsn = l\<rparr> \<and>
   payload (seal (payload_mut d (set_lsn l (page_new pid ty)))) = take 4072 (d @ replicate 4072 0) \<and>
   (other = pid \<or> is_corruption (verify (seal (payload_mut d (set_lsn l (page_new pid ty)))) other))"
  by (auto simp: verify_iff decode_header_iff page_fields payload_mut_payload payload_of_new
      verify_is_corruption)

text \<open>
  C34: Verification accepts a page exactly when its stored checksum is that of its other bytes,
  its type byte is a known type, its reserved bytes are zero and it carries the expected id;
  in every other case the result is a corruption error, never any other error.
\<close>
theorem verify_exactly_well_formed:
  "(verify p pid = Inr h \<longleftrightarrow>
      from_le (subslice 0 4 (as_bytes p)) = crc32c (drop 4 (as_bytes p)) \<and>
      as_bytes p ! 4 = page_type_byte (hdr_page_type h) \<and> subslice 5 8 (as_bytes p) = [0, 0, 0] \<and>
      get_page_id p = pid \<and> hdr_page_id h = pid \<and> hdr_lsn h = from_le (subslice 16 24 (as_bytes p))) \<and>
   (is_ok (verify p pid) \<or> is_corruption (verify p pid))"
  by (auto simp: verify_iff decode_header_iff sealed_def numeral_3_eq_3 verify_is_corruption is_ok_iff)

text \<open>
  Changing any single byte of a page that verifies (its stored checksum included) makes the
  verification report corruption, whichever id is expected.
\<close>
theorem every_byte_change_is_detected:
  assumes "verify p pid = Inr h" and "i < PAGE_SIZE" and "x \<noteq> as_bytes p ! i"
  shows "is_corruption (verify (as_bytes_mut ((as_bytes p)[i := x]) p) expected)"
proof (rule not_sealed_verify)
  have "as_bytes (as_bytes_mut ((as_bytes p)[i := x]) p) = (as_bytes p)[i := x]"
    by (simp add: as_bytes_mut_all)
  moreover from assms(1) have "from_le (subslice 0 4 (as_bytes p)) = crc32c (drop 4 (as_bytes p))"
    by (simp add: verify_iff sealed_def)
  ultimately show "\<not> sealed (as_bytes_mut ((as_bytes p)[i := x]) p)"
    using crc.frame_rejects_byte [of 0 "as_bytes p" i x] assms(2,3) by (simp add: sealed_def)
qed

text \<open>An all-zero page, such as a hole in a sparse file, is never accepted as any page.\<close>

lemma zeroed_page_is_rejected: "is_corruption (verify zeroed pid)"
  by (simp add: verify_is_corruption verify_iff decode_header_iff zeroed_type_byte)



end
