(* ===== verification/Wal_Record.thy ===== *)
theory Wal_Record
  imports Page
begin

text \<open>
  Encoding and decoding of write-ahead log records (\<^verbatim>\<open>storage/wal/record.rs\<close>).
\<close>

section \<open>Definitions\<close>

definition RECORD_HEADER_SIZE :: nat where
  [simp, code_unfold]: "RECORD_HEADER_SIZE = 25"

definition PAGE_IMAGE_LEN :: nat where
  [simp, code_unfold]: "PAGE_IMAGE_LEN = RECORD_HEADER_SIZE + 8 + PAGE_SIZE"

definition COMMIT_LEN :: nat where
  [simp, code_unfold]: "COMMIT_LEN = RECORD_HEADER_SIZE"

definition TYPE_PAGE_IMAGE :: u8 where
  "TYPE_PAGE_IMAGE = 1"

definition TYPE_COMMIT :: u8 where
  "TYPE_COMMIT = 2"

datatype txn_id = TxnId (txn_raw: u64)

datatype wal_record =
    PageImage txn_id page_id page
  | Commit txn_id

record decoded_record =
  dr_seq :: u64
  dr_record :: wal_record
  dr_len :: nat

datatype decode_error = Incomplete | Invalid string

fun record_txn :: "wal_record \<Rightarrow> txn_id" where
  "record_txn (PageImage txn _ _) = txn"
| "record_txn (Commit txn) = txn"

fun record_shape :: "wal_record \<Rightarrow> nat \<times> u8" where
  "record_shape (PageImage _ _ _) = (PAGE_IMAGE_LEN, TYPE_PAGE_IMAGE)"
| "record_shape (Commit _) = (COMMIT_LEN, TYPE_COMMIT)"

fun record_body :: "wal_record \<Rightarrow> bytes" where
  "record_body (PageImage _ pid page) = to_le 8 (raw pid) @ as_bytes page"
| "record_body (Commit _) = []"

definition encode_record :: "wal_record \<Rightarrow> u64 \<Rightarrow> bytes \<Rightarrow> bytes" where
  "encode_record r seq out =
     (let start = length out;
          (len, record_type) = record_shape r;
          out = out @ to_le 4 (of_nat len :: u32);
          out = out @ [0, 0, 0, 0];
          out = out @ to_le 8 seq;
          out = out @ [record_type];
          out = out @ to_le 8 (txn_raw (record_txn r));
          out = out @ record_body r;
          checksum = crc32c (drop (start + 8) out)
      in copy_at (start + 4) (to_le 4 checksum) out)"

definition rec_u32 :: "bytes \<Rightarrow> nat \<Rightarrow> u32" where
  "rec_u32 bytes at = from_le (subslice at (at + 4) bytes)"

definition rec_u64 :: "bytes \<Rightarrow> nat \<Rightarrow> u64" where
  "rec_u64 bytes at = from_le (subslice at (at + 8) bytes)"

definition decode_record :: "bytes \<Rightarrow> decode_error + decoded_record" where
  "decode_record buf =
     (if length buf < 4 then Inl Incomplete
      else let len = unat (rec_u32 buf 0) in
      if len \<noteq> PAGE_IMAGE_LEN \<and> len \<noteq> COMMIT_LEN
      then Inl (Invalid (''impossible record length '' @ show_nat len))
      else if length buf < len then Inl Incomplete
      else let bytes = take len buf; stored = rec_u32 bytes 4; actual = crc32c (drop 8 bytes) in
      if stored \<noteq> actual
      then Inl (Invalid (''checksum mismatch (stored '' @ show_hex32 stored @ '', computed ''
              @ show_hex32 actual @ '')''))
      else let seq = rec_u64 bytes 8; txn = TxnId (rec_u64 bytes 17) in
      if bytes ! 16 = TYPE_PAGE_IMAGE \<and> len = PAGE_IMAGE_LEN
      then Inr \<lparr>dr_seq = seq,
                dr_record = PageImage txn (PageId (rec_u64 bytes RECORD_HEADER_SIZE))
                  (as_bytes_mut (drop (RECORD_HEADER_SIZE + 8) bytes) zeroed),
                dr_len = len\<rparr>
      else if bytes ! 16 = TYPE_COMMIT \<and> len = COMMIT_LEN
      then Inr \<lparr>dr_seq = seq, dr_record = Commit txn, dr_len = len\<rparr>
      else Inl (Invalid (''record type '' @ show_word (bytes ! 16) @ '' with length '' @ show_nat len)))"

section \<open>The encoded form\<close>

abbreviation record_len :: "wal_record \<Rightarrow> nat" where
  "record_len r \<equiv> fst (record_shape r)"

text \<open>The fields after the checksum, and a record as it stands in the log.\<close>

definition record_fields :: "wal_record \<Rightarrow> u64 \<Rightarrow> bytes" where
  "record_fields r seq = to_le 8 seq @ [snd (record_shape r)] @ to_le 8 (txn_raw (record_txn r)) @ record_body r"

definition enc :: "wal_record \<Rightarrow> u64 \<Rightarrow> bytes" where
  "enc r seq = to_le 4 (of_nat (record_len r) :: u32) @ to_le 4 (crc32c (record_fields r seq)) @ record_fields r seq"

lemma length_record_fields [simp]: "length (record_fields r seq) = record_len r - 8"
  by (cases r) (simp_all add: record_fields_def)

lemma record_len_cases: "record_len r = 4129 \<or> record_len r = 25"
  by (cases r) simp_all

lemma record_len_ge: "25 \<le> record_len r"
  by (cases r) simp_all

lemma length_enc [simp]: "length (enc r seq) = record_len r"
  using record_len_ge [of r] by (simp add: enc_def)

lemma encode_record_enc: "encode_record r seq out = out @ enc r seq"
proof -
  have "copy_at (length out + 4) xs (out @ to_le 4 w @ [0, 0, 0, 0] @ ys) = out @ to_le 4 w @ xs @ ys"
    if "length xs = 4" for xs ys and w :: u32
    using that by (simp add: copy_at_def)
  from this [of _ _ "record_fields r seq"] show ?thesis
    by (simp add: encode_record_def enc_def record_fields_def Let_def case_prod_unfold)
qed


lemma enc_length_field: "rec_u32 (enc r seq @ rest) 0 = of_nat (record_len r)"
  by (simp add: rec_u32_def enc_def subslice_def)

lemma enc_checksum_field: "rec_u32 (enc r seq) 4 = crc32c (record_fields r seq)"
  by (simp add: rec_u32_def enc_def subslice_def)

lemma drop_enc: "drop 8 (enc r seq) = record_fields r seq"
  by (simp add: enc_def)

lemma enc_seq_field: "rec_u64 (enc r seq) 8 = seq"
  by (simp add: rec_u64_def enc_def subslice_def record_fields_def)

lemma enc_type_field: "enc r seq ! 16 = snd (record_shape r)"
  by (simp add: enc_def record_fields_def nth_append)

lemma enc_txn_field: "rec_u64 (enc r seq) 17 = txn_raw (record_txn r)"
  by (simp add: rec_u64_def enc_def subslice_def record_fields_def)

lemma drop_enc_body: "drop 25 (enc r seq) = record_body r"
  by (simp add: enc_def record_fields_def)

lemmas enc_field_simps =
  enc_checksum_field drop_enc enc_seq_field enc_type_field enc_txn_field

lemma unat_record_len [simp]: "unat (of_nat (record_len r) :: u32) = record_len r"
  using record_len_cases [of r] by auto

lemma image_body:
  assumes "record_body r = to_le 8 (raw pid) @ as_bytes p"
  shows "rec_u64 (enc r seq) 25 = raw pid" "drop 33 (enc r seq) = as_bytes p"
proof -
  have "rec_u64 (enc r seq) 25 = from_le (take 8 (drop 25 (enc r seq)))"
    by (simp add: rec_u64_def subslice_def)
  then show "rec_u64 (enc r seq) 25 = raw pid" by (simp add: drop_enc_body assms)
  have "drop 33 (enc r seq) = drop 8 (drop 25 (enc r seq))" by simp
  then show "drop 33 (enc r seq) = as_bytes p" by (simp only: drop_enc_body assms) simp
qed

lemma overwrite_page: "as_bytes_mut (as_bytes p) q = p"
  by (rule page_eqI) (simp add: as_bytes_mut_all)

lemma decode_enc:
  "decode_record (enc r seq @ rest) = Inr \<lparr>dr_seq = seq, dr_record = r, dr_len = record_len r\<rparr>"
proof (cases r)
  case (PageImage txn pid p)
  then have "record_body r = to_le 8 (raw pid) @ as_bytes p" by simp
  note body = image_body [OF this]
  show ?thesis
    using enc_length_field [of r seq rest] unat_record_len [of r] PageImage
      enc_field_simps [of r seq] body [of seq] length_enc [of r seq]
    by (simp add: decode_record_def Let_def overwrite_page)
next
  case (Commit txn)
  then show ?thesis
    using enc_length_field [of r seq rest] unat_record_len [of r]
      enc_field_simps [of r seq] length_enc [of r seq]
    by (simp add: decode_record_def Let_def TYPE_PAGE_IMAGE_def TYPE_COMMIT_def)
qed

text \<open>Bytes whose fields read as a record are that record's encoding.\<close>

lemma fields_determine_enc:
  assumes len: "length bytes = record_len r"
    and size: "rec_u32 bytes 0 = of_nat (record_len r)"
    and sum: "rec_u32 bytes 4 = crc32c (drop 8 bytes)"
    and seq: "rec_u64 bytes 8 = seq" and ty: "bytes ! 16 = snd (record_shape r)"
    and txn: "rec_u64 bytes 17 = txn_raw (record_txn r)" and body: "drop 25 bytes = record_body r"
  shows "bytes = enc r seq"
proof -
  have ge: "25 \<le> length bytes" using len record_len_ge [of r] by simp
  have split: "drop a bytes = subslice a b bytes @ drop b bytes" if "a \<le> b" for a b
    using that by (metis drop_drop le_add_diff_inverse2 subslice_def append_take_drop_id)
  have one: "subslice 16 17 bytes = [bytes ! 16]"
    using ge by (simp add: subslice_def take_Suc_conv_app_nth numeral_eq_Suc hd_drop_conv_nth take_Suc)
  have "drop 8 bytes = subslice 8 16 bytes @ subslice 16 17 bytes @ subslice 17 25 bytes @ drop 25 bytes"
    using split [of 8 16] split [of 16 17] split [of 17 25] by simp
  also have "\<dots> = record_fields r seq"
    using ge by (simp add: record_fields_def one ty body rec_u64_def flip: seq txn)
  finally have fields: "drop 8 bytes = record_fields r seq" .
  have "bytes = subslice 0 4 bytes @ subslice 4 8 bytes @ drop 8 bytes"
    using split [of 0 4] split [of 4 8] by simp
  also have "\<dots> = enc r seq"
  proof -
    have "subslice 0 4 bytes = to_le 4 (rec_u32 bytes 0)" "subslice 4 8 bytes = to_le 4 (rec_u32 bytes 4)"
      using ge by (simp_all add: rec_u32_def)
    then show ?thesis by (simp add: fields size sum enc_def)
  qed
  finally show ?thesis .
qed

lemma page_of_bytes: "length bs = 4096 \<Longrightarrow> as_bytes (as_bytes_mut bs q) = bs"
  by (simp add: as_bytes_mut_all)

lemma decode_record_cases:
  assumes "decode_record buf = Inr d"
  defines "bytes \<equiv> take (unat (rec_u32 buf 0)) buf"
  shows "unat (rec_u32 buf 0) \<le> length buf" "rec_u32 bytes 4 = crc32c (drop 8 bytes)"
    "dr_len d = unat (rec_u32 buf 0)" "dr_seq d = rec_u64 bytes 8"
    "dr_len d = PAGE_IMAGE_LEN \<and> bytes ! 16 = TYPE_PAGE_IMAGE
        \<and> dr_record d = PageImage (TxnId (rec_u64 bytes 17)) (PageId (rec_u64 bytes RECORD_HEADER_SIZE))
            (as_bytes_mut (drop (RECORD_HEADER_SIZE + 8) bytes) zeroed)
      \<or> dr_len d = COMMIT_LEN \<and> bytes ! 16 = TYPE_COMMIT \<and> dr_record d = Commit (TxnId (rec_u64 bytes 17))"
  using assms(1) unfolding decode_record_def Let_def bytes_def [symmetric]
  by (auto simp del: PAGE_IMAGE_LEN_def COMMIT_LEN_def RECORD_HEADER_SIZE_def split: if_split_asm)

lemma decode_record_Inr:
  assumes "decode_record buf = Inr d"
  shows "dr_len d = record_len (dr_record d) \<and> dr_len d \<le> length buf
    \<and> take (dr_len d) buf = enc (dr_record d) (dr_seq d)"
proof -
  define bytes where "bytes = take (dr_len d) buf"
  let ?r = "dr_record d"
  note D = decode_record_cases [OF assms, folded decode_record_cases(3) [OF assms], folded bytes_def]
  have len: "dr_len d = record_len ?r" "length bytes = dr_len d" and ty: "bytes ! 16 = snd (record_shape ?r)"
    and txn: "rec_u64 bytes 17 = txn_raw (record_txn ?r)"
    using D(1,5) by (auto simp: bytes_def)
  have body: "drop 25 bytes = record_body ?r"
    using D(5)
  proof (elim disjE conjE)
    assume r: "?r = PageImage (TxnId (rec_u64 bytes 17)) (PageId (rec_u64 bytes RECORD_HEADER_SIZE))
        (as_bytes_mut (drop (RECORD_HEADER_SIZE + 8) bytes) zeroed)"
    with len have "length bytes = 4129" by simp
    then have "to_le 8 (rec_u64 bytes 25) = take 8 (drop 25 bytes)"
      by (simp add: rec_u64_def subslice_def)
    moreover have "drop 33 bytes = drop 8 (drop 25 bytes)" by simp
    ultimately show ?thesis using \<open>length bytes = 4129\<close> append_take_drop_id [of 8 "drop 25 bytes"]
      by (simp add: r page_of_bytes)
  qed (use len in simp)
  have "rec_u32 bytes 0 = rec_u32 buf 0"
    using len record_len_ge [of ?r] by (simp add: bytes_def rec_u32_def slice_take)
  also have "\<dots> = of_nat (record_len ?r)"
    by (simp add: decode_record_cases(3) [OF assms] flip: len(1))
  finally have "bytes = enc ?r (dr_seq d)"
    using len D(2,4) ty txn body by (intro fields_determine_enc) simp_all
  with len show ?thesis by (auto simp: bytes_def)
qed

lemma decode_record_iff:
  "decode_record buf = Inr d \<longleftrightarrow>
     dr_len d = record_len (dr_record d) \<and> (\<exists>rest. buf = enc (dr_record d) (dr_seq d) @ rest)"
proof
  assume "decode_record buf = Inr d"
  from decode_record_Inr [OF this] show
    "dr_len d = record_len (dr_record d) \<and> (\<exists>rest. buf = enc (dr_record d) (dr_seq d) @ rest)"
    by (metis append_take_drop_id)
qed (auto simp: decode_enc)

lemma decode_record_len: "decode_record buf = Inr d \<Longrightarrow> 0 < dr_len d \<and> dr_len d \<le> length buf"
  using decode_record_Inr [of buf d] record_len_ge [of "dr_record d"] by simp

lemma decode_prefix_incomplete:
  assumes "n < record_len r"
  shows "decode_record (take n (enc r seq)) = Inl Incomplete"
proof (cases "n < 4")
  case False
  then have "rec_u32 (take n (enc r seq)) 0 = of_nat (record_len r)"
    using enc_length_field [of r seq "[]"] by (simp add: rec_u32_def slice_take)
  then show ?thesis
    using assms record_len_cases [of r] False by (simp add: decode_record_def Let_def)
qed (use assms in \<open>simp add: decode_record_def\<close>)

lemma length_fields:
  "to_le 4 (25 :: u32) = [0x19, 0, 0, 0]" "to_le 4 (4129 :: u32) = [0x21, 0x10, 0, 0]"
  by code_simp+

lemma length_field_change:
  assumes "n = 25 \<or> n = 4129" and "i < 4" and "x \<noteq> to_le 4 (of_nat n :: u32) ! i"
  defines "m \<equiv> unat (from_le ((to_le 4 (of_nat n :: u32))[i := x]) :: u32)"
  shows "m \<noteq> 4129" and "m \<noteq> 25"
proof -
  let ?bs = "(to_le 4 (of_nat n :: u32))[i := x]"
  have i: "i = 0 \<or> i = 1 \<or> i = 2 \<or> i = 3" using assms(2) by auto
  have fields: "?bs = to_le 4 (of_nat m :: u32)"
    by (simp add: m_def)
  show "m \<noteq> 4129" "m \<noteq> 25"
    using fields i assms(1,3) by (auto simp: length_fields)
qed

lemma decode_bad_length:
  "4 \<le> length buf \<Longrightarrow> unat (rec_u32 buf 0) \<noteq> 4129 \<Longrightarrow> unat (rec_u32 buf 0) \<noteq> 25 \<Longrightarrow>
   \<exists>why. decode_record buf = Inl (Invalid why)"
  by (simp add: decode_record_def Let_def)

lemma decode_bad_checksum:
  assumes "rec_u32 (bs @ rest) 0 = of_nat (record_len r)" and "length bs = record_len r"
    and "rec_u32 bs 4 \<noteq> crc32c (drop 8 bs)"
  shows "\<exists>why. decode_record (bs @ rest) = Inl (Invalid why)"
proof -
  have "take (record_len r) (bs @ rest) = bs" "\<not> length (bs @ rest) < record_len r"
    "\<not> length (bs @ rest) < 4" "record_len r = PAGE_IMAGE_LEN \<or> record_len r = COMMIT_LEN"
    using assms(2) record_len_cases [of r] record_len_ge [of r] by auto
  with assms(1,3) show ?thesis
    by (simp only: decode_record_def Let_def unat_record_len if_False de_Morgan_disj [symmetric] not_True_eq_False simp_thms if_True) blast
qed

lemma decode_byte_change:
  assumes "i < record_len r" and "x \<noteq> enc r seq ! i"
  shows "\<exists>why. decode_record ((enc r seq)[i := x] @ rest) = Inl (Invalid why)"
proof (cases "i < 4")
  case True
  let ?n = "of_nat (record_len r) :: u32"
  have "rec_u32 ((enc r seq)[i := x] @ rest) 0 = from_le ((to_le 4 ?n)[i := x])"
    using True by (simp add: rec_u32_def enc_def subslice_def list_update_append)
  moreover have "x \<noteq> to_le 4 ?n ! i" using assms(2) True by (simp add: enc_def nth_append)
  then have "unat (from_le ((to_le 4 ?n)[i := x]) :: u32) \<noteq> 4129" "unat (from_le ((to_le 4 ?n)[i := x]) :: u32) \<noteq> 25"
    using length_field_change [of "record_len r" i x] record_len_cases [of r] True by blast+
  ultimately show ?thesis using record_len_ge [of r] by (intro decode_bad_length) simp_all
next
  case False
  let ?bs = "(enc r seq)[i := x]"
  have "rec_u32 (?bs @ rest) 0 = of_nat (record_len r)"
    using False enc_length_field [of r seq "[]"] record_len_ge [of r]
    by (simp add: rec_u32_def slice_append_left slice_simps)
  moreover have "rec_u32 ?bs 4 \<noteq> crc32c (drop 8 ?bs)"
    using crc.frame_rejects_byte [of 4 "enc r seq" i x] assms False record_len_ge [of r]
      enc_checksum_field [of r seq] drop_enc [of r seq] by (simp add: rec_u32_def)
  ultimately show ?thesis by (intro decode_bad_checksum) simp_all
qed

section \<open>Properties\<close>

text \<open>
  C31: Decoding accepts exactly the encoder's output: the record at the start of a buffer decodes
  to a sequence number, a record and a length precisely when the buffer begins with the encoding of
  that record under that sequence number and the length is that of the encoding, whatever bytes
  follow. So encoding and decoding are inverse, records can be read one after the other, and
  anything accepted re-encodes to the bytes that were read.
\<close>
theorem decode_accepts_exactly_encodings:
  "decode_record buf = Inr d \<longleftrightarrow>
     dr_len d = length (encode_record (dr_record d) (dr_seq d) [])
     \<and> (\<exists>rest. buf = encode_record (dr_record d) (dr_seq d) [] @ rest)"
  by (simp add: decode_record_iff encode_record_enc)

text \<open>
  Every proper prefix of an encoded record is reported as incomplete, never as a record and
  never as an invalid one: a log cut short inside its last record is recognised as such.
\<close>
theorem truncated_record_is_incomplete:
  assumes "n < length (encode_record r seq [])"
  shows "decode_record (take n (encode_record r seq [])) = Inl Incomplete"
  using assms by (simp add: encode_record_enc decode_prefix_incomplete)

text \<open>
  A record with any one byte changed, its length field and checksum included, is reported as
  invalid, whatever bytes follow it in the log.
\<close>
theorem changed_record_is_invalid:
  assumes "i < length (encode_record r seq [])" and "x \<noteq> encode_record r seq [] ! i"
  shows "\<exists>why. decode_record ((encode_record r seq [])[i := x] @ rest) = Inl (Invalid why)"
  using assms decode_byte_change [of i r x seq rest] by (simp add: encode_record_enc)

end
