(* ===== verification/File_Header.thy ===== *)
theory File_Header
  imports Page
begin

text \<open>
  The database file header in page 0 (\<^verbatim>\<open>storage/file_header.rs\<close>): its encoding as a sealed
  page and its validation, in the order of checks the source makes.
\<close>

section \<open>Definitions\<close>

text \<open>\<^verbatim>\<open>b"oxenDB\0\0"\<close>\<close>

definition MAGIC :: bytes where
  "MAGIC = [0x6F, 0x78, 0x65, 0x6E, 0x44, 0x42, 0, 0]"

definition FORMAT_VERSION :: u32 where
  "FORMAT_VERSION = 1"

record file_header =
  fh_page_count :: u64

definition file_header_new :: file_header where
  "file_header_new = \<lparr>fh_page_count = 1\<rparr>"

text \<open>The header fields, then the checksum over them.\<close>

definition header_bytes :: "file_header \<Rightarrow> bytes" where
  "header_bytes h =
     copy_at 20 (to_le 8 (fh_page_count h))
       (copy_at 16 (to_le 4 (of_nat PAGE_SIZE :: u32))
         (copy_at 12 (to_le 4 FORMAT_VERSION)
           (copy_at 4 MAGIC (as_bytes zeroed))))"

definition encode_file_header :: "file_header \<Rightarrow> page" where
  "encode_file_header h =
     (let bytes = header_bytes h;
          checksum = crc32c (drop 4 bytes)
      in as_bytes_mut (copy_at 0 (to_le 4 checksum) bytes) zeroed)"

definition read_u32_at :: "bytes \<Rightarrow> nat \<Rightarrow> nat \<Rightarrow> u32" where
  "read_u32_at bytes a b = from_le (subslice a b bytes)"

definition decode_file_header :: "page \<Rightarrow> file_header result" where
  "decode_file_header page =
     (let bytes = as_bytes page in
      if subslice 4 12 bytes \<noteq> MAGIC
      then Inl (UnsupportedFormat ''not an oxenDB database file'')
      else let stored = read_u32_at bytes 0 4; actual = crc32c (drop 4 bytes) in
      if stored \<noteq> actual
      then Inl (corruption (''file header checksum mismatch (stored '' @ show_hex32 stored
              @ '', computed '' @ show_hex32 actual @ '')''))
      else let version = read_u32_at bytes 12 16 in
      if version \<noteq> FORMAT_VERSION
      then Inl (UnsupportedFormat (''file format version '' @ show_word version
              @ '', this build supports version '' @ show_word FORMAT_VERSION))
      else let page_size = read_u32_at bytes 16 20 in
      if unat page_size \<noteq> PAGE_SIZE
      then Inl (UnsupportedFormat (''page size '' @ show_word page_size
              @ '', this build supports '' @ show_nat PAGE_SIZE))
      else let page_count = from_le (subslice 20 28 bytes) in
      if page_count = 0
      then Inl (corruption ''file header reports zero pages'')
      else Inr \<lparr>fh_page_count = page_count\<rparr>)"

section \<open>Facts\<close>

lemma length_MAGIC [simp]: "length MAGIC = 8"
  by (simp add: MAGIC_def)

lemma length_header_bytes [simp]: "length (header_bytes h) = 4096"
  by (simp add: header_bytes_def)

lemma as_bytes_encode:
  "as_bytes (encode_file_header h) = copy_at 0 (to_le 4 (crc32c (drop 4 (header_bytes h)))) (header_bytes h)"
  by (simp add: encode_file_header_def as_bytes_mut_all Let_def)

lemma header_bytes_fields:
  "subslice 4 12 (header_bytes h) = MAGIC"
  "subslice 12 16 (header_bytes h) = to_le 4 FORMAT_VERSION"
  "subslice 16 20 (header_bytes h) = to_le 4 (of_nat PAGE_SIZE :: u32)"
  "subslice 20 28 (header_bytes h) = to_le 8 (fh_page_count h)"
  by (simp_all add: header_bytes_def slice_simps)

lemma encode_fields:
  "4 \<le> a \<Longrightarrow> subslice a b (as_bytes (encode_file_header h)) = subslice a b (header_bytes h)"
  by (simp add: as_bytes_encode slice_simps)

lemma encode_checksum:
  "read_u32_at (as_bytes (encode_file_header h)) 0 4 = crc32c (drop 4 (as_bytes (encode_file_header h)))"
  by (simp add: as_bytes_encode read_u32_at_def slice_simps)

lemma decode_file_header_iff:
  "decode_file_header page = Inr h \<longleftrightarrow>
     subslice 4 12 (as_bytes page) = MAGIC \<and> sealed page \<and>
     subslice 12 16 (as_bytes page) = to_le 4 FORMAT_VERSION \<and>
     subslice 16 20 (as_bytes page) = to_le 4 (4096 :: u32) \<and>
     fh_page_count h = from_le (subslice 20 28 (as_bytes page)) \<and> fh_page_count h \<noteq> 0"
proof -
  have version: "read_u32_at (as_bytes page) 12 16 = FORMAT_VERSION \<longleftrightarrow>
      subslice 12 16 (as_bytes page) = to_le 4 FORMAT_VERSION"
    by (simp add: read_u32_at_def from_le_eq_iff)
  have "unat (read_u32_at (as_bytes page) 16 20) = 4096 \<longleftrightarrow> read_u32_at (as_bytes page) 16 20 = 4096"
    by (simp add: word_unat_eq_iff)
  also have "\<dots> \<longleftrightarrow> subslice 16 20 (as_bytes page) = to_le 4 (4096 :: u32)"
    by (simp only: read_u32_at_def) (rule from_le_eq_iff, simp_all)
  finally have size: "unat (read_u32_at (as_bytes page) 16 20) = 4096 \<longleftrightarrow>
      subslice 16 20 (as_bytes page) = to_le 4 (4096 :: u32)" .
  have ck: "read_u32_at (as_bytes page) 0 4 = crc32c (drop 4 (as_bytes page)) \<longleftrightarrow> sealed page"
    by (simp add: sealed_def read_u32_at_def)
  show ?thesis
    by (cases h) (auto simp: decode_file_header_def Let_def version size ck split: if_splits)
qed

lemma decode_not_sealed: "\<not> sealed page \<Longrightarrow> \<not> is_ok (decode_file_header page)"
  by (auto simp: is_ok_iff decode_file_header_iff)

lemma decode_encode:
  "fh_page_count h \<noteq> 0 \<Longrightarrow> decode_file_header (encode_file_header h) = Inr h"
  by (simp add: decode_file_header_iff encode_fields header_bytes_fields sealed_def
      encode_checksum [unfolded read_u32_at_def])

section \<open>Properties\<close>

text \<open>
  C36: Decoding an encoded file header returns the page count it was made with; a header that
  claims zero pages is rejected as corrupt.
\<close>
theorem file_header_round_trips:
  "decode_file_header (encode_file_header \<lparr>fh_page_count = n\<rparr>) =
     (if n = 0 then Inl (Corruption ''file header reports zero pages'') else Inr \<lparr>fh_page_count = n\<rparr>)"
proof (cases "n = 0")
  case True
  then show ?thesis
    by (simp add: decode_file_header_def Let_def encode_checksum read_u32_at_def [of _ 12]
        read_u32_at_def [of _ 16] encode_fields header_bytes_fields corruption_def)
next
  case False
  then show ?thesis using decode_encode [of "\<lparr>fh_page_count = n\<rparr>"] by simp
qed

text \<open>
  No corruption of a single byte of a valid header page is accepted: the result is an error,
  and it is \<^verbatim>\<open>UnsupportedFormat\<close> exactly when the magic was hit and \<^verbatim>\<open>Corruption\<close> otherwise.
\<close>
theorem file_header_byte_change_rejected:
  assumes "decode_file_header page = Inr h" and "i < PAGE_SIZE" and "x \<noteq> as_bytes page ! i"
  shows "if 4 \<le> i \<and> i < 12
    then decode_file_header (as_bytes_mut ((as_bytes page)[i := x]) page) =
      Inl (UnsupportedFormat ''not an oxenDB database file'')
    else is_corruption (decode_file_header (as_bytes_mut ((as_bytes page)[i := x]) page))"
proof -
  let ?q = "as_bytes_mut ((as_bytes page)[i := x]) page"
  have q: "as_bytes ?q = (as_bytes page)[i := x]" by (simp add: as_bytes_mut_all)
  from assms(1) have magic: "subslice 4 12 (as_bytes page) = MAGIC"
    and ck: "from_le (subslice 0 4 (as_bytes page)) = crc32c (drop 4 (as_bytes page))"
    by (simp_all add: decode_file_header_iff sealed_def)
  from ck have bad: "read_u32_at (as_bytes ?q) 0 4 \<noteq> crc32c (drop 4 (as_bytes ?q))"
    using crc.frame_rejects_byte [of 0 "as_bytes page" i x] assms(2,3) by (simp add: q read_u32_at_def)
  show ?thesis
  proof (cases "4 \<le> i \<and> i < 12")
    case True
    have "subslice 4 12 (as_bytes ?q) ! (i - 4) \<noteq> subslice 4 12 (as_bytes page) ! (i - 4)"
      using True assms(3) by (auto simp: q nth_slice)
    then have "subslice 4 12 (as_bytes ?q) \<noteq> MAGIC" using magic by metis
    with True show ?thesis by (simp add: decode_file_header_def Let_def)
  next
    case False
    then have "i < 4 \<or> 12 \<le> i" by auto
    then have "subslice 4 12 (as_bytes ?q) = MAGIC"
      using magic by (simp add: q slice_update_other)
    with False bad show ?thesis
      by (simp only: decode_file_header_def Let_def if_False if_True simp_thms is_corruption_simps not_False_eq_True)
  qed
qed

end
