(* ===== verification/Os.thy ===== *)
theory Os
  imports Error
begin

text \<open>
  The operating system as \<^verbatim>\<open>std::fs\<close> and \<^verbatim>\<open>std::path\<close> show it to the engine. A file has the
  contents that survive a power loss for sure and the list of operations the system has
  accepted since the last successful fsync; what a process reads is the result of applying
  them all. Every call consumes one entry of a script that decides whether it succeeds,
  fails, or is where the machine stops; after that point no call has any effect. The relation
  \<open>crash_os\<close> says what may be found on disk afterwards: any subset of the pending
  operations, torn at sector boundaries.
\<close>

section \<open>Paths\<close>

datatype component = RootDir | ParentDir | Normal string

type_synonym path = "component list"

definition file_name :: "path \<Rightarrow> string option" where
  "file_name p = (case rev p of Normal n # _ \<Rightarrow> Some n | _ \<Rightarrow> None)"

definition with_file_name :: "string \<Rightarrow> path \<Rightarrow> path" where
  "with_file_name n p = (case file_name p of None \<Rightarrow> p | Some _ \<Rightarrow> butlast p) @ [Normal n]"

definition parent :: "path \<Rightarrow> path option" where
  "parent p = (case rev p of [] \<Rightarrow> None | RootDir # _ \<Rightarrow> None | _ # r \<Rightarrow> Some (rev r))"

fun display_path :: "path \<Rightarrow> string" where
  "display_path [] = ''''"
| "display_path [RootDir] = ''/''"
| "display_path (RootDir # p) = ''/'' @ display_path p"
| "display_path [ParentDir] = ''..''"
| "display_path (ParentDir # p) = ''../'' @ display_path p"
| "display_path [Normal n] = n"
| "display_path (Normal n # p) = n @ ''/'' @ display_path p"

section \<open>Files\<close>

datatype file_op = Write nat bytes | Set_Len nat

record os_file =
  f_base :: bytes
  f_ops :: "file_op list"
  f_unsure :: bool

definition write_bytes :: "nat \<Rightarrow> bytes \<Rightarrow> bytes \<Rightarrow> bytes" where
  "write_bytes off data bs =
     (if data = [] then bs else copy_at off data (bs @ replicate (off + length data - length bs) 0))"

definition set_len_bytes :: "nat \<Rightarrow> bytes \<Rightarrow> bytes" where
  "set_len_bytes n bs = take n bs @ replicate (n - length bs) 0"

fun apply_op :: "file_op \<Rightarrow> bytes \<Rightarrow> bytes" where
  "apply_op (Write off data) bs = write_bytes off data bs"
| "apply_op (Set_Len n) bs = set_len_bytes n bs"

definition contents :: "os_file \<Rightarrow> bytes" where
  "contents f = fold apply_op (f_ops f) (f_base f)"

definition add_op :: "file_op \<Rightarrow> os_file \<Rightarrow> os_file" where
  "add_op op f = f\<lparr>f_ops := f_ops f @ [op]\<rparr>"

text \<open>
  After an fsync has failed the kernel may have dropped the dirty data, so a later fsync
  that succeeds promises nothing about it.
\<close>

definition sync_file :: "os_file \<Rightarrow> os_file" where
  "sync_file f = (if f_unsure f then f else f\<lparr>f_base := contents f, f_ops := []\<rparr>)"

definition empty_file :: os_file where
  "empty_file = \<lparr>f_base = [], f_ops = [], f_unsure = False\<rparr>"

section \<open>The system\<close>

text \<open>\<open>Fault e n\<close>: the call fails with \<open>e\<close>, a write after \<open>n\<close> bytes. \<open>Crash\<close>: the machine stops.\<close>

datatype outcome = Done | Fault io_error nat | Crash

record os =
  files :: "path \<Rightarrow> os_file option"
  named :: "path \<Rightarrow> bool"
  script :: "outcome list"
  crashed :: bool

type_synonym 'a io = "(os, io_error, 'a) prog"

definition next_outcome :: "os \<Rightarrow> outcome \<times> os" where
  "next_outcome s =
     (if crashed s then (Crash, s)
      else case script s of
        [] \<Rightarrow> (Done, s)
      | Crash # xs \<Rightarrow> (Crash, s\<lparr>script := xs\<rparr>)
      | x # xs \<Rightarrow> (x, s\<lparr>script := xs\<rparr>))"

definition crash_error :: io_error where
  "crash_error = Io_Error OtherKind ''system stopped''"

definition not_found :: io_error where
  "not_found = Io_Error NotFound ''No such file or directory (os error 2)''"

definition already_exists :: io_error where
  "already_exists = Io_Error AlreadyExists ''File exists (os error 17)''"

definition unexpected_eof :: io_error where
  "unexpected_eof = Io_Error UnexpectedEof ''failed to fill whole buffer''"

text \<open>A call that only looks: it fails as the script says, and otherwise returns \<open>r\<close>.\<close>

definition io_read :: "(os \<Rightarrow> io_error + 'a) \<Rightarrow> 'a io" where
  "io_read r s =
     (case next_outcome s of
        (Done, s1) \<Rightarrow> (r s1, s1)
      | (Fault e _, s1) \<Rightarrow> (Inl e, s1)
      | (Crash, s1) \<Rightarrow> (Inl crash_error, s1\<lparr>crashed := True\<rparr>))"

text \<open>A call that changes one file: what it does when it succeeds, fails after \<open>n\<close> bytes, or
  is cut off by the crash (the operation may then be pending).\<close>

definition io_write :: "path \<Rightarrow> (os_file \<Rightarrow> os_file) \<Rightarrow> (nat \<Rightarrow> os_file \<Rightarrow> os_file) \<Rightarrow> (os_file \<Rightarrow> os_file) \<Rightarrow> unit io" where
  "io_write p on_done on_fault on_crash s =
     (let upd = \<lambda>f s. s\<lparr>files := (files s)(p := map_option f (files s p))\<rparr> in
      if crashed s then (Inl crash_error, s)
      else case next_outcome s of
        (Done, s1) \<Rightarrow> (case files s1 p of
            None \<Rightarrow> (Inl not_found, s1)
          | Some _ \<Rightarrow> (Inr (), upd on_done s1))
      | (Fault e n, s1) \<Rightarrow> (Inl e, upd (on_fault n) s1)
      | (Crash, s1) \<Rightarrow> (Inl crash_error, (upd on_crash s1)\<lparr>crashed := True\<rparr>))"

text \<open>\<^verbatim>\<open>OpenOptions::new().read(true).write(true).open(path)\<close>; no file is ever renamed or
  removed, so a handle is its path.\<close>

definition open_file :: "path \<Rightarrow> unit io" where
  "open_file p = io_read (\<lambda>s. if files s p = None then Inl not_found else Inr ())"

text \<open>\<^verbatim>\<open>...create_new(true).open(path)\<close>\<close>

definition create_new :: "path \<Rightarrow> unit io" where
  "create_new p s =
     (let made = \<lambda>s. s\<lparr>files := (files s)(p \<mapsto> empty_file), named := (named s)(p := False)\<rparr> in
      if crashed s then (Inl crash_error, s)
      else case next_outcome s of
        (Done, s1) \<Rightarrow> if files s1 p \<noteq> None then (Inl already_exists, s1) else (Inr (), made s1)
      | (Fault e _, s1) \<Rightarrow> (Inl e, s1)
      | (Crash, s1) \<Rightarrow>
          (Inl crash_error, (if files s1 p \<noteq> None then s1 else made s1)\<lparr>crashed := True\<rparr>))"

definition metadata_len :: "path \<Rightarrow> nat io" where
  "metadata_len p = io_read (\<lambda>s. case files s p of
     None \<Rightarrow> Inl not_found | Some f \<Rightarrow> Inr (length (contents f)))"

definition read_exact_at :: "path \<Rightarrow> nat \<Rightarrow> nat \<Rightarrow> bytes io" where
  "read_exact_at p off n = io_read (\<lambda>s. case files s p of
     None \<Rightarrow> Inl not_found
   | Some f \<Rightarrow> if off + n \<le> length (contents f) then Inr (subslice off (off + n) (contents f))
               else Inl unexpected_eof)"

definition read_to_end :: "path \<Rightarrow> bytes io" where
  "read_to_end p = io_read (\<lambda>s. case files s p of
     None \<Rightarrow> Inl not_found | Some f \<Rightarrow> Inr (contents f))"

definition write_all_at :: "path \<Rightarrow> bytes \<Rightarrow> nat \<Rightarrow> unit io" where
  "write_all_at p data off =
     io_write p (add_op (Write off data)) (\<lambda>n. add_op (Write off (take n data))) (add_op (Write off data))"

definition set_file_len :: "path \<Rightarrow> nat \<Rightarrow> unit io" where
  "set_file_len p n = io_write p (add_op (Set_Len n)) (\<lambda>_ f. f) (add_op (Set_Len n))"

text \<open>\<^verbatim>\<open>sync_all\<close>, and \<^verbatim>\<open>sync_data\<close>, which also flushes a changed file length.\<close>

definition sync_all :: "path \<Rightarrow> unit io" where
  "sync_all p = io_write p sync_file (\<lambda>_ f. f\<lparr>f_unsure := True\<rparr>) (\<lambda>f. f)"

definition dir_of :: "path \<Rightarrow> path" where
  "dir_of p = (case parent p of None \<Rightarrow> [] | Some d \<Rightarrow> d)"

definition sync_dir :: "path \<Rightarrow> unit io" where
  "sync_dir d s =
     (case next_outcome s of
        (Done, s1) \<Rightarrow> (Inr (), s1\<lparr>named := (\<lambda>p. named s1 p \<or> files s1 p \<noteq> None \<and> dir_of p = d)\<rparr>)
      | (Fault e _, s1) \<Rightarrow> (Inl e, s1)
      | (Crash, s1) \<Rightarrow> (Inl crash_error, s1\<lparr>crashed := True\<rparr>))"

text \<open>\<^verbatim>\<open>Path::exists\<close> answers \<^verbatim>\<open>false\<close> when the system cannot tell.\<close>

definition path_exists :: "path \<Rightarrow> os \<Rightarrow> bool \<times> os" where
  "path_exists p s =
     (case io_read (\<lambda>s. Inr (files s p \<noteq> None)) s of
        (Inl _, s') \<Rightarrow> (False, s')
      | (Inr b, s') \<Rightarrow> (b, s'))"

text \<open>\<^verbatim>\<open>?\<close> on an \<^verbatim>\<open>io::Result\<close>: the error is converted with \<^verbatim>\<open>From<io::Error>\<close>.\<close>

definition try_io :: "'a io \<Rightarrow> (os, error, 'a) prog" where
  "try_io m s = (case m s of (Inl e, s') \<Rightarrow> (Inl (from_io_error e), s') | (Inr x, s') \<Rightarrow> (Inr x, s'))"

section \<open>Power loss\<close>

definition SECTOR :: nat where
  "SECTOR = 512"

text \<open>A write that reached the disk only in the sectors of \<open>hit\<close>, the file having grown to
  \<open>len\<close> bytes.\<close>

definition torn_write :: "(nat \<Rightarrow> bool) \<Rightarrow> nat \<Rightarrow> nat \<Rightarrow> bytes \<Rightarrow> bytes \<Rightarrow> bytes" where
  "torn_write hit len off data bs =
     map (\<lambda>i. if hit (i div SECTOR) then write_bytes off data bs ! i
              else if i < length bs then bs ! i else 0) [0..<len]"

inductive persists :: "bytes \<Rightarrow> file_op list \<Rightarrow> bytes \<Rightarrow> bool" where
  none: "persists bs [] bs"
| torn: "length bs \<le> len \<Longrightarrow> len \<le> length (write_bytes off data bs) \<Longrightarrow>
    persists (torn_write hit len off data bs) ops r \<Longrightarrow> persists bs (Write off data # ops) r"
| resized: "persists (set_len_bytes n bs) ops r \<Longrightarrow> persists bs (Set_Len n # ops) r"
| not_resized: "persists bs ops r \<Longrightarrow> persists bs (Set_Len n # ops) r"

inductive_cases persists_NilE [elim!]: "persists bs [] r"
inductive_cases persists_WriteE [elim]: "persists bs (Write off data # ops) r"
inductive_cases persists_SetLenE [elim]: "persists bs (Set_Len n # ops) r"

definition disk_file :: "bytes \<Rightarrow> os_file" where
  "disk_file bs = \<lparr>f_base = bs, f_ops = [], f_unsure = False\<rparr>"

text \<open>What the next boot may find. A name that was never made durable may be gone with its
  file.\<close>

definition crash_file :: "bool \<Rightarrow> os_file option \<Rightarrow> os_file option \<Rightarrow> bool" where
  "crash_file durable_name f f' \<longleftrightarrow>
     (case f of
        None \<Rightarrow> f' = None
      | Some g \<Rightarrow> (\<exists>bs. persists (f_base g) (f_ops g) bs \<and> f' = Some (disk_file bs)) \<or>
                  \<not> durable_name \<and> f' = None)"

definition crash_os :: "os \<Rightarrow> os \<Rightarrow> bool" where
  "crash_os s s' \<longleftrightarrow> \<not> crashed s' \<and>
     (\<forall>p. crash_file (named s p) (files s p) (files s' p) \<and> (named s' p \<longleftrightarrow> files s' p \<noteq> None))"

section \<open>Facts\<close>

named_theorems os_simps \<open>running a call on a system that does not fail\<close>

lemma length_write_bytes [simp]:
  "length (write_bytes off data bs) = (if data = [] then length bs else max (length bs) (off + length data))"
  by (auto simp: write_bytes_def)

lemma nth_write_bytes:
  "i < length (write_bytes off data bs) \<Longrightarrow> write_bytes off data bs ! i =
     (if off \<le> i \<and> i < off + length data then data ! (i - off) else if i < length bs then bs ! i else 0)"
  by (auto simp: write_bytes_def nth_copy_at nth_append split: if_splits)

lemma subslice_write_same:
  "length data = n \<Longrightarrow> subslice off (off + n) (write_bytes off data bs) = data"
  by (cases "data = []") (auto simp: write_bytes_def slice_copy_same)

lemma subslice_write_other:
  assumes "b \<le> length bs" and "b \<le> off \<or> off + length data \<le> a"
  shows "subslice a b (write_bytes off data bs) = subslice a b bs"
  using assms by (intro nth_equalityI) (auto simp: nth_slice nth_write_bytes)

lemma length_set_len_bytes [simp]: "length (set_len_bytes n bs) = n"
  by (simp add: set_len_bytes_def)

lemma set_len_bytes_truncate: "n \<le> length bs \<Longrightarrow> set_len_bytes n bs = take n bs"
  by (simp add: set_len_bytes_def)

lemma contents_add_op [simp]: "contents (add_op op f) = apply_op op (contents f)"
  by (simp add: contents_def add_op_def)

lemma contents_empty_file [simp]: "contents empty_file = []"
  by (simp add: contents_def empty_file_def)

lemma contents_disk_file [simp]: "contents (disk_file bs) = bs"
  by (simp add: contents_def disk_file_def)

lemma contents_sync_file [simp]: "contents (sync_file f) = contents f"
  by (simp add: contents_def sync_file_def)

lemma sync_file_eq: "\<not> f_unsure f \<Longrightarrow> sync_file f = disk_file (contents f)"
  by (simp add: sync_file_def disk_file_def)

lemma f_unsure_simps [simp]:
  "f_unsure (add_op op f) = f_unsure f" "f_unsure (sync_file f) = f_unsure f"
  "\<not> f_unsure (disk_file bs)" "\<not> f_unsure empty_file"
  by (simp_all add: add_op_def sync_file_def disk_file_def empty_file_def)

text \<open>A system that is up and whose calls succeed.\<close>

definition healthy :: "os \<Rightarrow> bool" where
  "healthy s \<longleftrightarrow> \<not> crashed s \<and> script s = []"

definition with_file :: "path \<Rightarrow> os_file \<Rightarrow> os \<Rightarrow> os" where
  "with_file p f s = s\<lparr>files := (files s)(p \<mapsto> f)\<rparr>"

lemma with_file_simps [simp]:
  "files (with_file p f s) = (files s)(p \<mapsto> f)" "named (with_file p f s) = named s"
  "script (with_file p f s) = script s" "crashed (with_file p f s) = crashed s"
  "healthy (with_file p f s) = healthy s" "with_file p f (with_file p g s) = with_file p f s"
  by (simp_all add: with_file_def healthy_def)

lemma healthy_next: "healthy s \<Longrightarrow> next_outcome s = (Done, s)"
  by (simp add: healthy_def next_outcome_def)

lemma healthy_io_read [os_simps]: "healthy s \<Longrightarrow> io_read r s = (r s, s)"
  by (simp add: io_read_def healthy_next)

lemma healthy_io_write [os_simps]:
  "healthy s \<Longrightarrow> files s p = Some f \<Longrightarrow> io_write p d e c s = (Inr (), with_file p (d f) s)"
  by (simp add: io_write_def healthy_next with_file_def Let_def healthy_def)

lemma healthy_create_new [os_simps]:
  "healthy s \<Longrightarrow> files s p = None \<Longrightarrow>
   create_new p s = (Inr (), (with_file p empty_file s)\<lparr>named := (named s)(p := False)\<rparr>)"
  by (simp add: create_new_def healthy_next Let_def healthy_def with_file_def)

lemma healthy_sync_dir [os_simps]:
  "healthy s \<Longrightarrow> sync_dir d s =
     (Inr (), s\<lparr>named := (\<lambda>p. named s p \<or> files s p \<noteq> None \<and> dir_of p = d)\<rparr>)"
  by (simp add: sync_dir_def healthy_next)

lemma healthy_named [simp]: "healthy (s\<lparr>named := n\<rparr>) = healthy s"
  by (simp add: healthy_def)

lemma try_io_Inr [prog_simps]: "m s = (Inr x, s') \<Longrightarrow> try_io m s = (Inr x, s')"
  by (simp add: try_io_def)

lemma try_io_Inl [prog_simps]: "m s = (Inl e, s') \<Longrightarrow> try_io m s = (Inl (Io e), s')"
  by (simp add: try_io_def from_io_error_def)

lemma try_io_eq_Inr: "try_io m s = (Inr x, s') \<longleftrightarrow> m s = (Inr x, s')"
  by (auto simp: try_io_def split: prod.splits sum.splits)

lemma try_io_eq_Inl: "try_io m s = (Inl e, s') \<longleftrightarrow> (\<exists>err. m s = (Inl err, s') \<and> e = Io err)"
  by (auto simp: try_io_def from_io_error_def split: prod.splits sum.splits)

lemma snd_try_io [simp]: "snd (try_io m s) = snd (m s)"
  by (auto simp: try_io_def split: prod.splits sum.splits)

text \<open>Whatever the script says, looking at the system does not change its files.\<close>

definition same_disk :: "os \<Rightarrow> os \<Rightarrow> bool" where
  "same_disk s s' \<longleftrightarrow> files s' = files s \<and> named s' = named s"

lemma same_disk_refl [simp, intro]: "same_disk s s"
  by (simp add: same_disk_def)

lemma same_disk_trans [trans]: "same_disk s t \<Longrightarrow> same_disk t u \<Longrightarrow> same_disk s u"
  by (simp add: same_disk_def)

lemma next_outcome_same: "next_outcome s = (x, s') \<Longrightarrow> same_disk s s'"
  by (auto simp: next_outcome_def same_disk_def split: if_splits list.splits outcome.splits)

lemma same_disk_crashed [simp]: "same_disk s (s'\<lparr>crashed := c\<rparr>) = same_disk s s'"
  by (simp add: same_disk_def)

lemma io_read_same: "io_read r s = (x, s') \<Longrightarrow> same_disk s s'"
  by (auto simp: io_read_def split: prod.splits outcome.splits dest!: next_outcome_same)

lemma io_read_Inr:
  "io_read r s = (Inr x, s') \<Longrightarrow> \<exists>s1. same_disk s s1 \<and> r s1 = Inr x \<and> s' = s1 \<and> \<not> crashed s'"
  by (auto simp: io_read_def next_outcome_def same_disk_def
      split: prod.splits outcome.splits if_splits list.splits)

text \<open>Whatever the script says, a call that changes a file changes no other.\<close>

lemma next_outcome_script: "next_outcome s = (x, s') \<Longrightarrow> set (script s') \<subseteq> set (script s) \<and> (x = Done \<or> x = Crash \<or> x \<in> set (script s))"
  by (auto simp: next_outcome_def split: if_splits list.splits outcome.splits)

lemma next_outcome_crashed: "next_outcome s = (x, s') \<Longrightarrow> crashed s' = crashed s"
  by (auto simp: next_outcome_def split: if_splits list.splits outcome.splits)

lemma io_read_script:
  assumes "io_read r s = (x, s')"
  shows "set (script s') \<subseteq> set (script s)"
proof -
  obtain y s1 where n: "next_outcome s = (y, s1)" by (cases "next_outcome s")
  from next_outcome_script [OF n] n assms show ?thesis by (cases y) (auto simp: io_read_def)
qed

lemma io_write_cases:
  assumes "io_write p d e c s = (r, s')" and "files s p = Some f"
  obtains g where "files s' = (files s)(p \<mapsto> g)" and "named s' = named s" and "set (script s') \<subseteq> set (script s)"
    and "r = Inr () \<and> g = d f \<or>
      (\<exists>err. r = Inl err) \<and> (g = f \<or> g = c f \<or> (\<exists>err n. Fault err n \<in> set (script s) \<and> g = e n f))"
proof (cases "crashed s")
  case True
  with assms that [of f] show thesis by (auto simp: io_write_def fun_upd_idem)
next
  case False
  obtain x s1 where n: "next_outcome s = (x, s1)" by (cases "next_outcome s")
  note same = next_outcome_same [OF n, unfolded same_disk_def] and scr = next_outcome_script [OF n]
  show thesis
  proof (cases x)
    case Done
    with assms that [of "d f"] n same scr False show thesis by (auto simp: io_write_def Let_def)
  next
    case (Fault err k)
    with scr have "\<exists>err n. Fault err n \<in> set (script s) \<and> e k f = e n f" by auto
    with assms that [of "e k f"] n same scr False Fault show thesis by (auto simp: io_write_def Let_def)
  next
    case Crash
    with assms that [of "c f"] n same scr False show thesis by (auto simp: io_write_def Let_def)
  qed
qed

text \<open>Only the file at \<open>p\<close> may have changed.\<close>

definition touches :: "path \<Rightarrow> os \<Rightarrow> os \<Rightarrow> bool" where
  "touches p s s' \<longleftrightarrow> named s' = named s \<and> set (script s') \<subseteq> set (script s) \<and> (\<forall>q. q \<noteq> p \<longrightarrow> files s' q = files s q)"

lemma touches_refl [simp, intro]: "touches p s s"
  by (simp add: touches_def)

lemma touches_trans [trans]: "touches p s t \<Longrightarrow> touches p t u \<Longrightarrow> touches p s u"
  by (auto simp: touches_def)

section \<open>Power loss on synced files\<close>

lemma crash_file_synced:
  "crash_file True (Some (disk_file bs)) f \<longleftrightarrow> f = Some (disk_file bs)"
  by (auto simp: crash_file_def disk_file_def intro: persists.none)

lemma crash_os_synced:
  "crash_os s s' \<Longrightarrow> named s p \<Longrightarrow> files s p = Some (disk_file bs) \<Longrightarrow>
   files s' p = Some (disk_file bs) \<and> named s' p"
  by (metis crash_file_synced crash_os_def option.distinct(1))

end
