(* ===== verification/Disk.thy ===== *)
theory Disk
  imports File_Header Os
begin

text \<open>
  The disk manager (\<^verbatim>\<open>storage/disk.rs\<close>), the only code that reads and writes pages of the
  database file.
\<close>

section \<open>Definitions\<close>

record disk_manager =
  dk_file :: path
  dk_page_count :: u64

definition sync_parent_dir :: "path \<Rightarrow> (os, error, unit) prog" where
  "sync_parent_dir path =
     (let dir = (case parent path of Some p \<Rightarrow> if p \<noteq> [] then p else [] | None \<Rightarrow> []) in
      and_then (try_io (io_read (\<lambda>_. Inr ()))) (\<lambda>_. try_io (sync_dir dir)))"

definition disk_create :: "path \<Rightarrow> (os, error, disk_manager) prog" where
  "disk_create path =
     and_then (try_io (create_new path)) (\<lambda>_.
     let header = file_header_new in
     and_then (try_io (write_all_at path (as_bytes (encode_file_header header)) (unat (file_offset HEADER)))) (\<lambda>_.
     and_then (try_io (sync_all path)) (\<lambda>_.
     and_then (sync_parent_dir path) (\<lambda>_.
     ok \<lparr>dk_file = path, dk_page_count = fh_page_count header\<rparr>))))"

definition disk_open :: "path \<Rightarrow> (os, error, disk_manager) prog" where
  "disk_open path =
     and_then (try_io (open_file path)) (\<lambda>_.
     and_then (try_io (metadata_len path)) (\<lambda>file_len.
     if file_len < PAGE_SIZE
     then throw (UnsupportedFormat (''file is '' @ show_nat file_len
            @ '' bytes, too small to be an oxenDB database''))
     else
     and_then (try_io (read_exact_at path (unat (file_offset HEADER)) PAGE_SIZE)) (\<lambda>bytes.
     and_then (lift_res (decode_file_header (as_bytes_mut bytes zeroed))) (\<lambda>header.
     let expected_len = fh_page_count header * of_nat PAGE_SIZE :: u64 in
     if file_len < unat expected_len
     then throw (corruption (''file is '' @ show_nat file_len @ '' bytes but header lists ''
            @ show_word (fh_page_count header) @ '' pages ('' @ show_word expected_len @ '' bytes)''))
     else ok \<lparr>dk_file = path, dk_page_count = fh_page_count header\<rparr>))))"

definition disk_page_count :: "disk_manager \<Rightarrow> u64" where
  "disk_page_count d = dk_page_count d"

definition set_page_count :: "u64 \<Rightarrow> (disk_manager, error, unit) prog" where
  "set_page_count page_count d =
     (let current = disk_page_count d in
      if page_count < current
      then (Inl (InvalidArgument (''cannot shrink database from '' @ show_word current @ '' to ''
              @ show_word page_count @ '' pages'')), d)
      else (Inr (), d\<lparr>dk_page_count := page_count\<rparr>))"

definition write_file_header :: "disk_manager \<Rightarrow> (os, error, unit) prog" where
  "write_file_header d =
     (let header = \<lparr>fh_page_count = disk_page_count d\<rparr> in
      try_io (write_all_at (dk_file d) (as_bytes (encode_file_header header)) (unat (file_offset HEADER))))"

definition disk_check_data_page :: "disk_manager \<Rightarrow> page_id \<Rightarrow> unit result" where
  "disk_check_data_page d pid =
     (if pid = HEADER
      then Inl (InvalidArgument ''page 0 is the file header and cannot be accessed as a data page'')
      else let page_count = disk_page_count d in
      if raw pid \<ge> page_count
      then Inl (InvalidArgument (display_page_id pid @ '' is out of bounds (file has ''
              @ show_word page_count @ '' pages)''))
      else Inr ())"

definition disk_read_page :: "disk_manager \<Rightarrow> page_id \<Rightarrow> (os, error, page) prog" where
  "disk_read_page d pid =
     and_then (lift_res (disk_check_data_page d pid)) (\<lambda>_.
     and_then (try_io (read_exact_at (dk_file d) (unat (file_offset pid)) PAGE_SIZE)) (\<lambda>bytes.
     let page = as_bytes_mut bytes zeroed in
     and_then (lift_res (verify page pid)) (\<lambda>_. ok page)))"

text \<open>\<^verbatim>\<open>write_page\<close> seals the caller's page in place, so the page is part of the state.\<close>

definition disk_write_page :: "disk_manager \<Rightarrow> page_id \<Rightarrow> (page \<times> os, error, unit) prog" where
  "disk_write_page d pid ps =
     (case ps of (page, s) \<Rightarrow>
      case disk_check_data_page d pid of
        Inl e \<Rightarrow> (Inl e, (page, s))
      | Inr _ \<Rightarrow>
          if get_page_id page \<noteq> pid
          then (Inl (InvalidArgument (''refusing to write '' @ display_page_id (get_page_id page)
                  @ '' to the location of '' @ display_page_id pid)), (page, s))
          else let sealed_page = seal page in
            case try_io (write_all_at (dk_file d) (as_bytes sealed_page) (unat (file_offset pid))) s of
              (r, s') \<Rightarrow> (r, (sealed_page, s')))"

definition disk_sync :: "disk_manager \<Rightarrow> (os, error, unit) prog" where
  "disk_sync d = try_io (sync_all (dk_file d))"

section \<open>Facts\<close>

text \<open>Pages whose byte offset does not wrap; a file of that many pages is 16 EiB long.\<close>

definition no_wrap :: "page_id \<Rightarrow> bool" where
  "no_wrap pid \<longleftrightarrow> unat (raw pid) < 2 ^ 52"

lemma file_offset_nat: "no_wrap pid \<Longrightarrow> unat (file_offset pid) = unat (raw pid) * 4096"
  by (simp add: no_wrap_def file_offset_def unat_word_ariths)

lemma file_offset_HEADER [simp]: "unat (file_offset HEADER) = 0"
  by (simp add: file_offset_def HEADER_def)

text \<open>The bytes of page \<open>n\<close> in a file.\<close>

definition file_page :: "nat \<Rightarrow> bytes \<Rightarrow> bytes" where
  "file_page n bs = subslice (n * 4096) (n * 4096 + 4096) bs"

lemma file_page_write_same:
  "length data = 4096 \<Longrightarrow> file_page n (write_bytes (n * 4096) data bs) = data"
  by (simp add: file_page_def subslice_write_same)

lemma file_page_write_other:
  assumes "m \<noteq> n" and "length data = 4096" and "n * 4096 + 4096 \<le> length bs"
  shows "file_page n (write_bytes (m * 4096) data bs) = file_page n bs"
proof -
  from assms(1) have "n * 4096 + 4096 \<le> m * 4096 \<or> m * 4096 + 4096 \<le> n * 4096"
    by (cases "n < m") auto
  with assms show ?thesis by (auto simp: file_page_def intro!: subslice_write_other)
qed

lemma page_ids_differ: "a \<noteq> b \<Longrightarrow> unat (raw a) \<noteq> unat (raw b)"
  by (cases a; cases b) (simp add: word_unat_eq_iff)

lemma check_data_page_iff:
  "disk_check_data_page d pid = Inr () \<longleftrightarrow> pid \<noteq> HEADER \<and> raw pid < dk_page_count d"
  by (auto simp: disk_check_data_page_def disk_page_count_def Let_def not_le)

lemma check_data_page_Inl:
  "disk_check_data_page d pid = Inl e \<Longrightarrow> \<exists>msg. e = InvalidArgument msg"
  by (auto simp: disk_check_data_page_def Let_def split: if_splits)

lemma read_page_run:
  assumes "healthy s" and "files s (dk_file d) = Some f" and "no_wrap pid"
    and "pid \<noteq> HEADER" and "raw pid < dk_page_count d"
    and "unat (raw pid) * 4096 + 4096 \<le> length (contents f)"
  shows "disk_read_page d pid s =
    (case verify (as_bytes_mut (file_page (unat (raw pid)) (contents f)) zeroed) pid of
       Inl e \<Rightarrow> Inl e
     | Inr _ \<Rightarrow> Inr (as_bytes_mut (file_page (unat (raw pid)) (contents f)) zeroed), s)"
proof -
  have "disk_check_data_page d pid = Inr ()" using assms(4,5) by (simp add: check_data_page_iff)
  moreover have "read_exact_at (dk_file d) (unat (file_offset pid)) 4096 s =
      (Inr (file_page (unat (raw pid)) (contents f)), s)"
    using assms by (simp add: read_exact_at_def os_simps file_offset_nat file_page_def)
  ultimately show ?thesis
    by (simp add: disk_read_page_def prog_simps split: sum.split)
qed

lemma read_page_valid:
  assumes "healthy s" and "files s (dk_file d) = Some f" and "no_wrap pid"
    and "pid \<noteq> HEADER" and "raw pid < dk_page_count d" and "valid_page pid p"
    and "unat (raw pid) * 4096 + 4096 \<le> length (contents f)"
    and "file_page (unat (raw pid)) (contents f) = as_bytes p"
  shows "disk_read_page d pid s = (Inr p, s)"
proof -
  have "as_bytes_mut (as_bytes p) zeroed = p"
    by (rule page_eqI) (simp add: as_bytes_mut_all)
  with assms show ?thesis
    by (auto simp: read_page_run [OF assms(1-5,7)] valid_page_iff)
qed

lemma write_page_run:
  assumes "healthy s" and "files s (dk_file d) = Some f" and "no_wrap pid"
    and "pid \<noteq> HEADER" and "raw pid < dk_page_count d" and "get_page_id p = pid"
  shows "disk_write_page d pid (p, s) =
    (Inr (), seal p, with_file (dk_file d) (add_op (Write (unat (raw pid) * 4096) (as_bytes (seal p))) f) s)"
proof -
  have "disk_check_data_page d pid = Inr ()" using assms(4,5) by (simp add: check_data_page_iff)
  with assms show ?thesis
    by (simp add: disk_write_page_def write_all_at_def os_simps try_io_def Let_def file_offset_nat)
qed

lemma read_page_Inr:
  assumes "disk_read_page d pid s = (Inr p, s')"
  shows "valid_page pid p \<and> pid \<noteq> HEADER \<and> raw pid < dk_page_count d \<and> same_disk s s'"
proof -
  from assms obtain bs where check: "disk_check_data_page d pid = Inr ()"
    and rd: "read_exact_at (dk_file d) (unat (file_offset pid)) 4096 s = (Inr bs, s')"
    and ver: "is_ok (verify (as_bytes_mut bs zeroed) pid)" and p: "p = as_bytes_mut bs zeroed"
    by (auto simp: disk_read_page_def and_then_eq_Inr lift_res_def ok_def try_io_eq_Inr is_ok_iff Let_def)
  from rd have "same_disk s s'"
    by (auto simp: read_exact_at_def dest: io_read_same)
  with check ver p show ?thesis
    by (simp add: check_data_page_iff valid_page_def)
qed

section \<open>The page store contract\<close>

text \<open>
  What the layers above rely on: a page written to its place is read back, and reading any
  other page that could be read before still gives the same page.
\<close>

locale page_store =
  fixes rd :: "page_id \<Rightarrow> 's \<Rightarrow> error + page"
    and wr :: "page_id \<Rightarrow> page \<Rightarrow> 's \<Rightarrow> 's"
    and ready :: "'s \<Rightarrow> bool"
    and addr :: "page_id \<Rightarrow> bool"
  assumes wr_ready: "ready s \<Longrightarrow> addr a \<Longrightarrow> valid_page a p \<Longrightarrow> ready (wr a p s)"
    and rd_wr_same: "ready s \<Longrightarrow> addr a \<Longrightarrow> valid_page a p \<Longrightarrow> rd a (wr a p s) = Inr p"
    and rd_wr_other: "ready s \<Longrightarrow> addr a \<Longrightarrow> valid_page a p \<Longrightarrow> addr b \<Longrightarrow> a \<noteq> b \<Longrightarrow>
      rd b s = Inr q \<Longrightarrow> rd b (wr a p s) = Inr q"
begin

lemma wr_all_ready:
  "ready s \<Longrightarrow> \<forall>(a, p) \<in> set ws. addr a \<and> valid_page a p \<Longrightarrow> ready (fold (\<lambda>(a, p). wr a p) ws s)"
  by (induction ws arbitrary: s) (auto simp: wr_ready)

lemma wr_all_keeps:
  "ready s \<Longrightarrow> \<forall>(a, p) \<in> set ws. addr a \<and> valid_page a p \<Longrightarrow> addr b \<Longrightarrow> b \<notin> fst ` set ws \<Longrightarrow> rd b s = Inr q \<Longrightarrow>
   rd b (fold (\<lambda>(a, p). wr a p) ws s) = Inr q"
proof (induction ws arbitrary: s)
  case (Cons w ws)
  obtain a p where w: "w = (a, p)" by (cases w)
  with Cons.prems have "rd b (wr a p s) = Inr q" "ready (wr a p s)"
    by (auto intro: rd_wr_other wr_ready)
  with Cons w show ?case by simp
qed simp

lemma rd_wr_all:
  assumes "ready s" and "\<forall>(a, p) \<in> set ws. addr a \<and> valid_page a p"
    and "distinct (map fst ws)" and "(b, q) \<in> set ws"
  shows "rd b (fold (\<lambda>(a, p). wr a p) ws s) = Inr q"
  using assms
proof (induction ws arbitrary: s)
  case (Cons w ws)
  obtain a p where w: "w = (a, p)" by (cases w)
  show ?case
  proof (cases "(b, q) = w")
    case True
    with Cons.prems w show ?thesis
      by (simp add: wr_all_keeps wr_ready rd_wr_same)
  next
    case False
    with Cons w show ?thesis by (auto simp: wr_ready)
  qed
qed simp

end

definition disk_rd :: "disk_manager \<Rightarrow> page_id \<Rightarrow> os \<Rightarrow> page result" where
  "disk_rd d pid s = fst (disk_read_page d pid s)"

definition disk_wr :: "disk_manager \<Rightarrow> page_id \<Rightarrow> page \<Rightarrow> os \<Rightarrow> os" where
  "disk_wr d pid p s = snd (snd (disk_write_page d pid (p, s)))"

definition disk_ready :: "disk_manager \<Rightarrow> os \<Rightarrow> bool" where
  "disk_ready d s \<longleftrightarrow> healthy s \<and> files s (dk_file d) \<noteq> None"

definition disk_addr :: "disk_manager \<Rightarrow> page_id \<Rightarrow> bool" where
  "disk_addr d pid \<longleftrightarrow> pid \<noteq> HEADER \<and> raw pid < dk_page_count d \<and> no_wrap pid"

lemma disk_wr_run:
  assumes "healthy s" and "files s (dk_file d) = Some f" and "disk_addr d pid" and "valid_page pid p"
  shows "disk_wr d pid p s =
    with_file (dk_file d) (add_op (Write (unat (raw pid) * 4096) (as_bytes p)) f) s"
  using assms by (simp add: disk_wr_def disk_addr_def write_page_run valid_page_id valid_page_sealed)

lemma disk_rd_Inr:
  assumes "healthy s" and "files s (dk_file d) = Some f"  and "no_wrap pid"
  shows "disk_rd d pid s = Inr p \<longleftrightarrow> pid \<noteq> HEADER \<and> raw pid < dk_page_count d \<and> valid_page pid p \<and>
    unat (raw pid) * 4096 + 4096 \<le> length (contents f) \<and>
    file_page (unat (raw pid)) (contents f) = as_bytes p"
proof
  assume rd: "disk_rd d pid s = Inr p"
  then obtain s' where run: "disk_read_page d pid s = (Inr p, s')"
    by (cases "disk_read_page d pid s") (simp add: disk_rd_def)
  have v: "valid_page pid p" "pid \<noteq> HEADER" "raw pid < dk_page_count d"
    using read_page_Inr [OF run] by simp_all
  have len: "unat (raw pid) * 4096 + 4096 \<le> length (contents f)"
    using run assms by (auto simp: disk_read_page_def and_then_eq_Inr try_io_eq_Inr read_exact_at_def os_simps
        file_offset_nat lift_res_def split: if_splits)
  have "length (file_page (unat (raw pid)) (contents f)) = 4096"
    using len by (simp add: file_page_def)
  then have "file_page (unat (raw pid)) (contents f) = as_bytes p"
    using run read_page_run [OF assms v(2,3) len]
    by (auto simp: as_bytes_mut_all split: sum.splits)
  with v len show "pid \<noteq> HEADER \<and> raw pid < dk_page_count d \<and> valid_page pid p \<and>
    unat (raw pid) * 4096 + 4096 \<le> length (contents f) \<and>
    file_page (unat (raw pid)) (contents f) = as_bytes p" by simp
next
  assume "pid \<noteq> HEADER \<and> raw pid < dk_page_count d \<and> valid_page pid p \<and>
    unat (raw pid) * 4096 + 4096 \<le> length (contents f) \<and>
    file_page (unat (raw pid)) (contents f) = as_bytes p"
  with assms show "disk_rd d pid s = Inr p"
    by (auto simp: disk_rd_def read_page_valid)
qed

interpretation dk: page_store "disk_rd d" "disk_wr d" "disk_ready d" "disk_addr d" for d
proof unfold_locales
  fix s a p
  assume r: "disk_ready d s" and a: "disk_addr d a" and v: "valid_page a p"
  from r obtain f where s: "healthy s" and f: "files s (dk_file d) = Some f"
    by (auto simp: disk_ready_def)
  note wr = disk_wr_run [OF s f a v]
  have nw: "no_wrap a" and bounds: "a \<noteq> HEADER" "raw a < dk_page_count d"
    using a by (auto simp: disk_addr_def)
  show "disk_ready d (disk_wr d a p s)"
    using s by (simp add: wr disk_ready_def)
  have f': "files (disk_wr d a p s) (dk_file d) =
      Some (add_op (Write (unat (raw a) * 4096) (as_bytes p)) f)"
    by (simp add: wr)
  have s': "healthy (disk_wr d a p s)" using s by (simp add: wr)
  have [simp]: "as_bytes q \<noteq> []" for q
    by (metis length_as_bytes length_0_conv zero_neq_numeral)
  show "disk_rd d a (disk_wr d a p s) = Inr p"
    using bounds v by (simp add: disk_rd_Inr [OF s' f' nw] file_page_write_same)
  fix b q
  assume b: "disk_addr d b" and ab: "a \<noteq> b" and q: "disk_rd d b s = Inr q"
  then have "no_wrap b" by (simp add: disk_addr_def)
  with q ab page_ids_differ [OF ab] show "disk_rd d b (disk_wr d a p s) = Inr q"
    by (auto simp: disk_rd_Inr [OF s f] disk_rd_Inr [OF s' f'] file_page_write_other)
qed

lemma healthy_read_page: "healthy s \<Longrightarrow> snd (disk_read_page d pid s) = s"
  by (auto simp: disk_read_page_def and_then_def lift_res_def try_io_def read_exact_at_def os_simps ok_def Let_def
      split: sum.splits prod.splits)

lemma disk_rd_run: "healthy s \<Longrightarrow> disk_rd d pid s = Inr q \<Longrightarrow> disk_read_page d pid s = (Inr q, s)"
  using healthy_read_page [of s d pid] by (cases "disk_read_page d pid s") (simp add: disk_rd_def)

section \<open>Creating and opening\<close>

lemma sync_parent_dir_run:
  "healthy s \<Longrightarrow> sync_parent_dir path s =
     (Inr (), s\<lparr>named := (\<lambda>p. named s p \<or> files s p \<noteq> None \<and> dir_of p = dir_of path)\<rparr>)"
  by (simp add: sync_parent_dir_def dir_of_def prog_simps os_simps split: option.splits)

definition new_file_image :: bytes where
  "new_file_image = as_bytes (encode_file_header file_header_new)"

lemma length_new_file_image [simp]: "length new_file_image = 4096"
  by (simp add: new_file_image_def)

lemma fh_page_count_new: "fh_page_count file_header_new = 1"
  by (simp add: file_header_new_def)

lemma disk_create_run:
  assumes "healthy s" and "files s path = None"
  shows "\<exists>s'. disk_create path s = (Inr \<lparr>dk_file = path, dk_page_count = 1\<rparr>, s') \<and> healthy s' \<and>
    named s' path \<and> files s' = (files s)(path \<mapsto> disk_file new_file_image)"
proof -
  let ?s1 = "(with_file path empty_file s)\<lparr>named := (named s)(path := False)\<rparr>"
  let ?w = "add_op (Write 0 new_file_image) empty_file"
  have w: "write_all_at path new_file_image 0 ?s1 = (Inr (), with_file path ?w ?s1)"
    using assms by (simp add: write_all_at_def os_simps)
  have img: "write_bytes 0 new_file_image [] = new_file_image"
    by (simp add: write_bytes_def copy_at_0)
  have sy: "sync_all path (with_file path ?w ?s1) = (Inr (), with_file path (disk_file new_file_image) ?s1)"
    using assms by (simp add: sync_all_def os_simps sync_file_eq img)
  show ?thesis
    using assms w sy
    by (simp add: disk_create_def prog_simps os_simps new_file_image_def [symmetric] fh_page_count_new
        sync_parent_dir_run)
qed

lemma disk_open_run:
  assumes "healthy s" and "files s path = Some f" and "4096 \<le> length (contents f)"
    and "decode_file_header (as_bytes_mut (file_page 0 (contents f)) zeroed) = Inr h"
  shows "disk_open path s =
    (if length (contents f) < unat (fh_page_count h * 4096)
     then Inl (corruption (''file is '' @ show_nat (length (contents f)) @ '' bytes but header lists ''
            @ show_word (fh_page_count h) @ '' pages ('' @ show_word (fh_page_count h * 4096 :: u64) @ '' bytes)''))
     else Inr \<lparr>dk_file = path, dk_page_count = fh_page_count h\<rparr>, s)"
  using assms
  by (simp add: disk_open_def open_file_def metadata_len_def read_exact_at_def os_simps prog_simps
      file_page_def Let_def)

lemma disk_open_image:
  assumes "healthy s" and "files s path = Some f" and "file_page 0 (contents f) = as_bytes (encode_file_header h)"
    and "fh_page_count h \<noteq> 0" and "unat (fh_page_count h) < 2 ^ 52"
    and "unat (fh_page_count h) * 4096 \<le> length (contents f)"
  shows "disk_open path s = (Inr \<lparr>dk_file = path, dk_page_count = fh_page_count h\<rparr>, s)"
proof -
  have "as_bytes_mut (as_bytes (encode_file_header h)) zeroed = encode_file_header h"
    by (rule page_eqI) (simp add: as_bytes_mut_all)
  then have d: "decode_file_header (as_bytes_mut (file_page 0 (contents f)) zeroed) = Inr h"
    using assms by (simp add: decode_encode)
  have "unat (fh_page_count h) \<noteq> 0" using assms(4) by (simp add: unat_eq_0)
  then have "4096 \<le> length (contents f)" using assms(6) by linarith
  moreover have "unat (fh_page_count h * 4096) = unat (fh_page_count h) * 4096"
    using assms(5) by (simp add: unat_word_ariths)
  ultimately show ?thesis
    using disk_open_run [OF assms(1,2) _ d] assms(6) by simp
qed

section \<open>Properties\<close>

text \<open>
  C29: A page written to its place is sealed and can be read back; every other page of the
  database that could be read before the write reads the same after it.
\<close>
theorem write_page_then_read_page:
  assumes "healthy s" and "files s (dk_file d) \<noteq> None"
    and "a \<noteq> HEADER" and "raw a < dk_page_count d" and "unat (dk_page_count d) \<le> 2 ^ 52"
    and "valid_page a (seal p)"
  shows "\<exists>s'. disk_write_page d a (p, s) = (Inr (), seal p, s') \<and> disk_read_page d a s' = (Inr (seal p), s') \<and>
    (\<forall>b q. b \<noteq> a \<longrightarrow> disk_read_page d b s = (Inr q, s) \<longrightarrow> disk_read_page d b s' = (Inr q, s'))"
proof -
  have nw: "no_wrap b" if "raw b < dk_page_count d" for b
    using that assms(5) by (simp add: no_wrap_def word_less_nat_alt)
  with assms have addr: "disk_addr d a" and rdy: "disk_ready d s"
    by (simp_all add: disk_addr_def disk_ready_def)
  from assms(2) obtain f where f: "files s (dk_file d) = Some f" by auto
  let ?s' = "with_file (dk_file d) (add_op (Write (unat (raw a) * 4096) (as_bytes (seal p))) f) s"
  have w: "disk_write_page d a (p, s) = (Inr (), seal p, ?s')"
    using write_page_run [OF assms(1) f nw [OF assms(4)] assms(3,4)] valid_page_id [OF assms(6)] by simp
  have wr: "disk_wr d a (seal p) s = ?s'"
    by (rule disk_wr_run [OF assms(1) f addr assms(6)])
  have h: "healthy ?s'" using assms(1) by simp
  have "disk_read_page d b ?s' = (Inr q, ?s')" if "b \<noteq> a" "disk_read_page d b s = (Inr q, s)" for b q
  proof (rule disk_rd_run [OF h])
    have "disk_addr d b" using read_page_Inr [OF that(2)] nw by (simp add: disk_addr_def)
    then show "disk_rd d b ?s' = Inr q"
      using dk.rd_wr_other [OF rdy addr assms(6)] that wr by (auto simp: disk_rd_def)
  qed
  moreover have "disk_read_page d a ?s' = (Inr (seal p), ?s')"
    using dk.rd_wr_same [OF rdy addr assms(6)] wr by (auto intro: disk_rd_run [OF h])
  ultimately show ?thesis using w by blast
qed

definition example_disk :: disk_manager where
  "example_disk = \<lparr>dk_file = [Normal ''t.oxen''], dk_page_count = 3\<rparr>"

definition example_os :: "bytes \<Rightarrow> os" where
  "example_os bs = \<lparr>files = [[Normal ''t.oxen''] \<mapsto> disk_file bs],
     named = (\<lambda>p. p = [Normal ''t.oxen'']), script = [], crashed = False\<rparr>"

lemma example_healthy: "healthy (example_os bs)"
  by (simp add: example_os_def healthy_def)

lemma example_file: "files (example_os bs) (dk_file example_disk) = Some (disk_file bs)"
  by (simp add: example_os_def example_disk_def)

lemma valid_new_page: "valid_page pid (seal (page_new pid ty))"
  by (simp add: valid_page_iff verify_iff decode_header_iff page_fields)
    (metis page_header.select_convs)

theorem write_page_then_read_page_witness:
  "\<exists>s'. disk_write_page example_disk (PageId 2) (page_new (PageId 2) Heap, example_os []) =
      (Inr (), seal (page_new (PageId 2) Heap), s') \<and>
    disk_read_page example_disk (PageId 2) s' = (Inr (seal (page_new (PageId 2) Heap)), s')"
  using write_page_then_read_page [of "example_os []" example_disk "PageId 2" "page_new (PageId 2) Heap"]
    example_file [of "[]"]
  by (auto simp: example_healthy HEADER_def valid_new_page example_disk_def)



text \<open>
  Writing is refused with \<^verbatim>\<open>InvalidArgument\<close>, with neither the caller's page nor the system
  touched, exactly for the header page, pages beyond the end and pages that carry another id;
  reading exactly for the first two.
\<close>
theorem disk_refuses_bad_pages:
  "((\<exists>msg. disk_write_page d pid (p, s) = (Inl (InvalidArgument msg), p, s)) \<longleftrightarrow>
      \<not> (pid \<noteq> HEADER \<and> raw pid < dk_page_count d \<and> get_page_id p = pid)) \<and>
   ((\<exists>msg. disk_read_page d pid s = (Inl (InvalidArgument msg), s)) \<longleftrightarrow>
      \<not> (pid \<noteq> HEADER \<and> raw pid < dk_page_count d))"
proof (intro conjI)
  show "(\<exists>msg. disk_write_page d pid (p, s) = (Inl (InvalidArgument msg), p, s)) \<longleftrightarrow>
      \<not> (pid \<noteq> HEADER \<and> raw pid < dk_page_count d \<and> get_page_id p = pid)"
    by (auto simp: disk_write_page_def disk_check_data_page_def disk_page_count_def Let_def try_io_def
        from_io_error_def not_less split: prod.splits sum.splits)
  show "(\<exists>msg. disk_read_page d pid s = (Inl (InvalidArgument msg), s)) \<longleftrightarrow>
      \<not> (pid \<noteq> HEADER \<and> raw pid < dk_page_count d)"
    by (auto simp: disk_read_page_def disk_check_data_page_def disk_page_count_def Let_def and_then_eq_Inl
        lift_res_def try_io_eq_Inl throw_def ok_def not_less dest: verify_Inl)
qed

text \<open>
  Creating a database where there is none succeeds, and the new file is durable when it
  returns: after any power loss it is there and opens as a database of one page.
\<close>
theorem created_database_survives_power_loss:
  assumes "healthy s" and "files s path = None"
  shows "\<exists>d s'. disk_create path s = (Inr d, s') \<and> disk_page_count d = 1 \<and>
    (\<forall>s''. crash_os s' s'' \<longrightarrow> healthy s'' \<longrightarrow> disk_open path s'' = (Inr d, s''))"
proof -
  from disk_create_run [OF assms] obtain s' where
    c: "disk_create path s = (Inr \<lparr>dk_file = path, dk_page_count = 1\<rparr>, s')" and n: "named s' path"
    and f: "files s' path = Some (disk_file new_file_image)" by auto
  have "disk_open path s'' = (Inr \<lparr>dk_file = path, dk_page_count = 1\<rparr>, s'')"
    if "crash_os s' s''" "healthy s''" for s''
    using disk_open_image [OF that(2), of path "disk_file new_file_image" file_header_new]
      crash_os_synced [OF that(1) n f]
    by (simp add: fh_page_count_new file_page_def slice_to_end) (simp add: new_file_image_def)
  with c show ?thesis by (auto simp: disk_page_count_def)
qed

theorem created_database_survives_power_loss_witness:
  "\<exists>d s'. disk_create [Normal ''new''] (example_os []) = (Inr d, s') \<and> disk_page_count d = 1 \<and>
    (\<forall>s''. crash_os s' s'' \<longrightarrow> healthy s'' \<longrightarrow> disk_open [Normal ''new''] s'' = (Inr d, s''))"
  by (rule created_database_survives_power_loss) (simp_all add: example_healthy, simp add: example_os_def)

text \<open>
  Opening succeeds only on a file whose first page is a valid header with a nonzero page
  count, and, while the count is below 2^52, only if the file holds all the pages the header
  lists: a truncated database is never opened.
\<close>
theorem open_rejects_truncated_files:
  assumes "disk_open path s = (Inr d, s')"
  shows "\<exists>f h. files s path = Some f \<and> dk_file d = path \<and>
    decode_file_header (as_bytes_mut (file_page 0 (contents f)) zeroed) = Inr h \<and>
    disk_page_count d = fh_page_count h \<and> disk_page_count d \<noteq> 0 \<and>
    (unat (disk_page_count d) < 2 ^ 52 \<longrightarrow> unat (disk_page_count d) * PAGE_SIZE \<le> length (contents f))"
proof -
  from assms obtain s1 s2 len bs h where
    len: "metadata_len path s1 = (Inr len, s2)" and d1: "same_disk s s1"
    and rd: "read_exact_at path 0 4096 s2 = (Inr bs, s')"
    and dec: "decode_file_header (as_bytes_mut bs zeroed) = Inr h"
    and fits: "\<not> len < unat (fh_page_count h * 4096)" and d: "d = \<lparr>dk_file = path, dk_page_count = fh_page_count h\<rparr>"
    by (auto simp: disk_open_def and_then_eq_Inr try_io_eq_Inr open_file_def lift_res_def ok_def throw_def Let_def
        split: if_splits dest!: io_read_same)
  from len d1 obtain f where f: "files s path = Some f" and "len = length (contents f)"
    and d2: "same_disk s s2"
    by (auto simp: metadata_len_def same_disk_def dest!: io_read_Inr split: option.splits)
  moreover from rd f d2 have "bs = file_page 0 (contents f)"
    by (auto simp: read_exact_at_def same_disk_def file_page_def dest!: io_read_Inr split: option.splits if_splits)
  moreover have "unat (fh_page_count h * 4096) = unat (fh_page_count h) * 4096"
    if "unat (fh_page_count h) < 2 ^ 52"
    using that by (simp add: unat_word_ariths)
  ultimately show ?thesis
    using dec fits d by (auto simp: disk_page_count_def decode_file_header_iff)
qed

text \<open>The wrap-around itself: a header that lists 2^52 pages in front of nothing else.\<close>

lemma open_accepts_wrapped_page_count:
  "disk_open [Normal ''t.oxen''] (example_os (as_bytes (encode_file_header \<lparr>fh_page_count = 2 ^ 52\<rparr>))) =
     (Inr \<lparr>dk_file = [Normal ''t.oxen''], dk_page_count = 2 ^ 52\<rparr>,
      example_os (as_bytes (encode_file_header \<lparr>fh_page_count = 2 ^ 52\<rparr>)))"
proof -
  let ?h = "\<lparr>fh_page_count = 2 ^ 52\<rparr> :: file_header"
  let ?f = "disk_file (as_bytes (encode_file_header ?h))"
  have "as_bytes_mut (as_bytes (encode_file_header ?h)) zeroed = encode_file_header ?h"
    by (rule page_eqI) (simp add: as_bytes_mut_all)
  then have "decode_file_header (as_bytes_mut (file_page 0 (contents ?f)) zeroed) = Inr ?h"
    by (simp add: file_page_def slice_to_end decode_encode)
  then show ?thesis
    using disk_open_run [OF example_healthy example_file, of "as_bytes (encode_file_header ?h)" ?h]
    by (simp add: example_disk_def)
qed

end
