(* ===== verification/Wal_Log.thy ===== *)
theory Wal_Log
  imports Wal_Record Disk
begin

text \<open>
  The write-ahead log file (\<^verbatim>\<open>storage/wal/log.rs\<close>): a header followed by records. The
  in-memory \<^verbatim>\<open>Wal\<close> is a record; operations that use the file run on the pair of it and the
  system. Byte offsets into the file are natural numbers: they are bounded by the length of a
  file, which the operating system keeps below 2^63.
\<close>

section \<open>Definitions\<close>

text \<open>\<^verbatim>\<open>b"oxenWAL\0"\<close>\<close>

definition WAL_MAGIC :: bytes where
  "WAL_MAGIC = [0x6F, 0x78, 0x65, 0x6E, 0x57, 0x41, 0x4C, 0]"

definition WAL_FORMAT_VERSION :: u32 where
  "WAL_FORMAT_VERSION = 1"

definition WAL_HEADER_SIZE :: nat where
  [simp, code_unfold]: "WAL_HEADER_SIZE = 24"

record discarded_tail =
  dt_bytes :: nat
  dt_reason :: string

record wal =
  wal_file :: path
  wal_durable_len :: nat
  wal_pending :: bytes
  wal_next_seq :: u64
  wal_poisoned :: bool

record opened_wal =
  ow_wal :: wal
  ow_records :: "decoded_record list"
  ow_discarded :: "discarded_tail option"

definition wal_encode_header :: "u64 \<Rightarrow> bytes" where
  "wal_encode_header first_seq =
     (let header = replicate WAL_HEADER_SIZE 0;
          header = copy_at 4 WAL_MAGIC header;
          header = copy_at 12 (to_le 4 WAL_FORMAT_VERSION) header;
          header = copy_at 16 (to_le 8 first_seq) header;
          checksum = crc32c (drop 4 header)
      in copy_at 0 (to_le 4 checksum) header)"

definition wal_decode_header :: "bytes \<Rightarrow> u64 result" where
  "wal_decode_header bs =
     (if length bs < WAL_HEADER_SIZE \<or> subslice 4 12 bs \<noteq> WAL_MAGIC
      then Inl (UnsupportedFormat ''not an oxenDB WAL file'')
      else let header = take WAL_HEADER_SIZE bs; stored = from_le (subslice 0 4 header) :: u32 in
      if stored \<noteq> crc32c (drop 4 header)
      then Inl (corruption ''WAL header checksum mismatch'')
      else let version = from_le (subslice 12 16 header) :: u32 in
      if version \<noteq> WAL_FORMAT_VERSION
      then Inl (UnsupportedFormat (''WAL format version '' @ show_word version
              @ '', this build supports version '' @ show_word WAL_FORMAT_VERSION))
      else Inr (from_le (subslice 16 24 header)))"

definition wal_create :: "path \<Rightarrow> (os, error, wal) prog" where
  "wal_create path =
     and_then (try_io (create_new path)) (\<lambda>_.
     and_then (try_io (write_all_at path (wal_encode_header 0) 0)) (\<lambda>_.
     and_then (try_io (sync_all path)) (\<lambda>_.
     and_then (sync_parent_dir path) (\<lambda>_.
     ok \<lparr>wal_file = path, wal_durable_len = WAL_HEADER_SIZE, wal_pending = [], wal_next_seq = 0,
         wal_poisoned = False\<rparr>))))"

text \<open>The loop of \<^verbatim>\<open>Wal::open\<close>, from \<open>offset\<close>: the records it pushes, and the final \<^verbatim>\<open>offset\<close>,
  \<^verbatim>\<open>next_seq\<close> and \<^verbatim>\<open>stop_reason\<close>.\<close>

function read_records :: "bytes \<Rightarrow> nat \<Rightarrow> u64 \<Rightarrow> decoded_record list \<times> nat \<times> u64 \<times> string option" where
  "read_records bs offset next_seq =
     (if offset < length bs then
        case decode_record (drop offset bs) of
          Inr decoded \<Rightarrow>
            if dr_seq decoded = next_seq then
              (case read_records bs (offset + dr_len decoded) (next_seq + 1) of
                 (records, rest) \<Rightarrow> (decoded # records, rest))
            else ([], offset, next_seq, Some (''expected sequence number '' @ show_word next_seq
                    @ '', found '' @ show_word (dr_seq decoded)))
        | Inl Incomplete \<Rightarrow> ([], offset, next_seq, Some ''incomplete record'')
        | Inl (Invalid reason) \<Rightarrow> ([], offset, next_seq, Some reason)
      else ([], offset, next_seq, None))"
  by pat_completeness auto
termination
  by (relation "measure (\<lambda>(bs, offset, _). length bs - offset)") (auto dest!: decode_record_len)

declare read_records.simps [simp del]

definition wal_open :: "path \<Rightarrow> (os, error, opened_wal) prog" where
  "wal_open path =
     and_then (try_io (open_file path)) (\<lambda>_.
     and_then (try_io (read_to_end path)) (\<lambda>bs.
     and_then (lift_res (wal_decode_header bs)) (\<lambda>first_seq.
     case read_records bs WAL_HEADER_SIZE first_seq of
       (records, offset, next_seq, stop_reason) \<Rightarrow>
         let discarded = map_option (\<lambda>reason. \<lparr>dt_bytes = length bs - offset, dt_reason = reason\<rparr>) stop_reason in
         and_then
           (if discarded \<noteq> None
            then and_then (try_io (set_file_len path offset)) (\<lambda>_. try_io (sync_all path))
            else ok ()) (\<lambda>_.
         ok \<lparr>ow_wal = \<lparr>wal_file = path, wal_durable_len = offset, wal_pending = [],
                         wal_next_seq = next_seq, wal_poisoned = False\<rparr>,
             ow_records = records, ow_discarded = discarded\<rparr>))))"

definition wal_check_poisoned :: "wal \<Rightarrow> unit result" where
  "wal_check_poisoned w =
     (if wal_poisoned w
      then Inl (Poisoned ''an earlier WAL write failed; reopen the database to recover'')
      else Inr ())"

definition wal_append :: "wal_record \<Rightarrow> (wal, error, u64) prog" where
  "wal_append r w =
     (case wal_check_poisoned w of
        Inl e \<Rightarrow> (Inl e, w)
      | Inr _ \<Rightarrow>
          let seq = wal_next_seq w in
          (Inr seq, w\<lparr>wal_pending := encode_record r seq (wal_pending w), wal_next_seq := seq + 1\<rparr>))"

definition wal_flush :: "(wal \<times> os, error, unit) prog" where
  "wal_flush ws =
     (case ws of (w, s) \<Rightarrow>
      case wal_check_poisoned w of
        Inl e \<Rightarrow> (Inl e, (w, s))
      | Inr _ \<Rightarrow>
          if wal_pending w = [] then (Inr (), (w, s))
          else
            case and_then (write_all_at (wal_file w) (wal_pending w) (wal_durable_len w))
                   (\<lambda>_. sync_all (wal_file w)) s of
              (Inl err, s') \<Rightarrow> (Inl (from_io_error err), (w\<lparr>wal_poisoned := True\<rparr>, s'))
            | (Inr _, s') \<Rightarrow>
                (Inr (), (w\<lparr>wal_durable_len := wal_durable_len w + length (wal_pending w), wal_pending := []\<rparr>, s')))"

definition wal_reset :: "(wal \<times> os, error, unit) prog" where
  "wal_reset ws =
     (case ws of (w, s) \<Rightarrow>
      case wal_check_poisoned w of
        Inl e \<Rightarrow> (Inl e, (w, s))
      | Inr _ \<Rightarrow>
          if wal_pending w \<noteq> []
          then (Inl (InvalidArgument ''cannot reset a WAL with unflushed records''), (w, s))
          else
            case and_then (set_file_len (wal_file w) WAL_HEADER_SIZE) (\<lambda>_.
                 and_then (write_all_at (wal_file w) (wal_encode_header (wal_next_seq w)) 0) (\<lambda>_.
                 sync_all (wal_file w))) s of
              (Inl err, s') \<Rightarrow> (Inl (from_io_error err), (w\<lparr>wal_poisoned := True\<rparr>, s'))
            | (Inr _, s') \<Rightarrow> (Inr (), (w\<lparr>wal_durable_len := WAL_HEADER_SIZE\<rparr>, s')))"

section \<open>The header\<close>

lemma length_wal_header [simp]: "length (wal_encode_header n) = 24"
  by (simp add: wal_encode_header_def WAL_MAGIC_def Let_def)

lemma wal_header_not_Nil [simp]: "wal_encode_header n \<noteq> []"
  by (metis length_wal_header list.size(3) zero_neq_numeral)

lemma wal_header_fields:
  "subslice 4 12 (wal_encode_header n) = WAL_MAGIC"
  "from_le (subslice 0 4 (wal_encode_header n)) = crc32c (drop 4 (wal_encode_header n))"
  "subslice 12 16 (wal_encode_header n) = to_le 4 WAL_FORMAT_VERSION"
  "subslice 16 24 (wal_encode_header n) = to_le 8 n"
  by (simp_all add: wal_encode_header_def WAL_MAGIC_def Let_def slice_simps)

lemma wal_decode_encode_header: "wal_decode_header (wal_encode_header n @ rest) = Inr n"
  by (simp add: wal_decode_header_def Let_def slice_append_left wal_header_fields)

lemma split_header:
  assumes "length h = 24"
  shows "h = subslice 0 4 h @ drop 4 h" and "drop 4 h = subslice 4 12 h @ subslice 12 16 h @ subslice 16 24 h"
proof -
  show "h = subslice 0 4 h @ drop 4 h" by (simp add: subslice_def)
  have "take 8 (drop 4 h) @ take 4 (drop 8 (drop 4 h)) @ take 8 (drop 4 (drop 8 (drop 4 h))) = drop 4 h"
    using append_take_drop_id [of 8 "drop 4 h"] append_take_drop_id [of 4 "drop 8 (drop 4 h)"] assms by simp
  then show "drop 4 h = subslice 4 12 h @ subslice 12 16 h @ subslice 16 24 h"
    by (simp add: subslice_def)
qed

lemma wal_decode_header_Inr:
  assumes "wal_decode_header bs = Inr n"
  shows "24 \<le> length bs" and "take 24 bs = wal_encode_header n"
proof -
  let ?h = "take 24 bs" and ?e = "wal_encode_header n"
  from assms have len: "24 \<le> length bs"
    and fields: "subslice 4 12 bs = WAL_MAGIC" "from_le (subslice 0 4 ?h) = crc32c (drop 4 ?h)"
      "from_le (subslice 12 16 ?h) = WAL_FORMAT_VERSION" "from_le (subslice 16 24 ?h) = n"
    by (auto simp: wal_decode_header_def Let_def split: if_splits)
  then show "24 \<le> length bs" by simp
  have "drop 4 ?h = drop 4 ?e"
    using fields len by (simp add: split_header(2) [of ?h] split_header(2) [of ?e] wal_header_fields slice_take
        from_le_eq_iff)
  moreover from this have "subslice 0 4 ?h = subslice 0 4 ?e"
    using fields(2) wal_header_fields(2) [of n] len from_le_inj [of "subslice 0 4 ?h" "subslice 0 4 ?e", where 'a = 32]
    by simp
  ultimately show "?h = ?e"
    using split_header(1) [of ?h] split_header(1) [of ?e] len by simp
qed

section \<open>Reading the records\<close>

text \<open>Consecutively numbered records as they stand in the file, and as they are returned.\<close>

fun encode_all :: "u64 \<Rightarrow> wal_record list \<Rightarrow> bytes" where
  "encode_all n [] = []"
| "encode_all n (r # rs) = enc r n @ encode_all (n + 1) rs"

fun numbered :: "u64 \<Rightarrow> wal_record list \<Rightarrow> decoded_record list" where
  "numbered n [] = []"
| "numbered n (r # rs) = \<lparr>dr_seq = n, dr_record = r, dr_len = record_len r\<rparr> # numbered (n + 1) rs"

text \<open>No record numbered \<open>n\<close> stands at the beginning of \<open>bs\<close>.\<close>

definition no_record :: "u64 \<Rightarrow> bytes \<Rightarrow> bool" where
  "no_record n bs \<longleftrightarrow> (\<forall>r rest. bs \<noteq> enc r n @ rest)"

lemma encode_all_append:
  "encode_all n (rs @ qs) = encode_all n rs @ encode_all (n + of_nat (length rs)) qs"
  by (induction rs arbitrary: n) (simp_all add: ac_simps)

lemma numbered_append: "numbered n (rs @ qs) = numbered n rs @ numbered (n + of_nat (length rs)) qs"
  by (induction rs arbitrary: n) (simp_all add: ac_simps)

lemma map_dr_record_numbered [simp]: "map dr_record (numbered n rs) = rs"
  by (induction rs arbitrary: n) simp_all

lemma length_numbered [simp]: "length (numbered n rs) = length rs"
  by (induction rs arbitrary: n) simp_all

lemma numbered_inj: "numbered n rs = numbered n qs \<longleftrightarrow> rs = qs"
  by (metis map_dr_record_numbered)

lemma encode_all_eq_Nil [simp]: "encode_all n rs = [] \<longleftrightarrow> rs = []"
proof (cases rs)
  case (Cons r rs')
  have "enc r n \<noteq> []" using length_enc [of r n] record_len_ge [of r] by (metis list.size(3) not_numeral_le_zero)
  with Cons show ?thesis by simp
qed simp

lemma no_record_Nil [simp]: "no_record n []"
  unfolding no_record_def by (metis append_is_Nil_conv encode_all.simps(1,2) encode_all_eq_Nil list.distinct(1))

lemma read_records_enc:
  "read_records (pre @ enc r n @ tail) (length pre) n =
     (case read_records (pre @ enc r n @ tail) (length pre + record_len r) (n + 1) of
        (ds, rest) \<Rightarrow> (\<lparr>dr_seq = n, dr_record = r, dr_len = record_len r\<rparr> # ds, rest))"
  using record_len_ge [of r]
  by (subst read_records.simps) (simp add: decode_enc)

lemma read_records_encode_all:
  "read_records (pre @ encode_all n rs @ tail) (length pre) n =
     (case read_records (pre @ encode_all n rs @ tail) (length pre + length (encode_all n rs)) (n + of_nat (length rs)) of
        (ds, rest) \<Rightarrow> (numbered n rs @ ds, rest))"
proof (induction rs arbitrary: pre n)
  case (Cons r rs)
  show ?case
    using Cons [of "pre @ enc r n" "n + 1"] read_records_enc [of pre r n "encode_all (n + 1) rs @ tail"]
    by (simp add: ac_simps case_prod_unfold)
qed (simp add: case_prod_unfold)

lemma read_records_stop:
  assumes "no_record n tail"
  shows "\<exists>why. read_records (pre @ tail) (length pre) n = ([], length pre, n, why) \<and> (why = None \<longleftrightarrow> tail = [])"
proof (cases "decode_record tail")
  case (Inl e)
  then show ?thesis by (subst read_records.simps) (auto split: decode_error.split)
next
  case (Inr d)
  then have "dr_seq d \<noteq> n" using assms by (auto simp: decode_record_iff no_record_def)
  with Inr show ?thesis by (subst read_records.simps) auto
qed

lemma read_records_longest:
  assumes "no_record (n + of_nat (length rs)) tail"
  shows "\<exists>why. read_records (pre @ encode_all n rs @ tail) (length pre) n =
      (numbered n rs, length pre + length (encode_all n rs), n + of_nat (length rs), why)
    \<and> (why = None \<longleftrightarrow> tail = [])"
  using read_records_stop [OF assms, of "pre @ encode_all n rs"] read_records_encode_all [of pre n rs tail]
  by auto

text \<open>Every byte string is a run of records followed by bytes no record begins with.\<close>

lemma longest_run_exists: "\<exists>rs tail. bs = encode_all n rs @ tail \<and> no_record (n + of_nat (length rs)) tail"
proof (induction bs arbitrary: n rule: length_induct)
  case (1 bs)
  show ?case
  proof (cases "no_record n bs")
    case True
    then show ?thesis by (intro exI [of _ "[] :: wal_record list"] exI [of _ bs]) simp
  next
    case False
    then obtain r rest where bs: "bs = enc r n @ rest" by (auto simp: no_record_def)
    with record_len_ge [of r] have "length rest < length bs" by simp
    with 1 obtain rs tail where "rest = encode_all (n + 1) rs @ tail" "no_record (n + 1 + of_nat (length rs)) tail"
      by blast
    with bs show ?thesis by (intro exI [of _ "r # rs"] exI [of _ tail]) (simp add: ac_simps)
  qed
qed

lemma longest_run_unique:
  assumes "encode_all n rs @ tail = encode_all n rs' @ tail'"
    and "no_record (n + of_nat (length rs)) tail" and "no_record (n + of_nat (length rs')) tail'"
  shows "rs = rs' \<and> tail = tail'"
proof -
  have "numbered n rs = numbered n rs'"
    using read_records_longest [OF assms(2), of "[]"] read_records_longest [OF assms(3), of "[]"] assms(1)
    by auto
  with assms(1) show ?thesis by (simp add: numbered_inj)
qed

section \<open>The log as a list of records\<close>

definition wal_image :: "u64 \<Rightarrow> wal_record list \<Rightarrow> bytes" where
  "wal_image first rs = wal_encode_header first @ encode_all first rs"

lemma length_wal_image: "length (wal_image first rs) = 24 + length (encode_all first rs)"
  by (simp add: wal_image_def)

text \<open>The \<open>Wal\<close> holds \<open>rs\<close> durably in its file and \<open>pend\<close> in its buffer.\<close>

definition wal_holds :: "wal \<Rightarrow> os \<Rightarrow> u64 \<Rightarrow> wal_record list \<Rightarrow> wal_record list \<Rightarrow> bool" where
  "wal_holds w s first rs pend \<longleftrightarrow>
     \<not> wal_poisoned w \<and> files s (wal_file w) = Some (disk_file (wal_image first rs)) \<and>
     wal_durable_len w = length (wal_image first rs) \<and>
     wal_pending w = encode_all (first + of_nat (length rs)) pend \<and>
     wal_next_seq w = first + of_nat (length rs + length pend)"

lemma wal_append_run:
  assumes "wal_holds w s first rs pend"
  shows "\<exists>w'. wal_append r w = (Inr (wal_next_seq w), w') \<and> wal_holds w' s first rs (pend @ [r])
    \<and> wal_file w' = wal_file w"
proof -
  have seq: "wal_next_seq w = first + of_nat (length rs) + of_nat (length pend)"
    using assms by (simp add: wal_holds_def)
  let ?w = "w\<lparr>wal_pending := encode_record r (wal_next_seq w) (wal_pending w), wal_next_seq := wal_next_seq w + 1\<rparr>"
  have "wal_append r w = (Inr (wal_next_seq w), ?w)"
    using assms by (simp add: wal_append_def wal_check_poisoned_def wal_holds_def Let_def)
  moreover have "wal_holds ?w s first rs (pend @ [r])"
    using assms by (simp add: wal_holds_def encode_record_enc encode_all_append seq)
  ultimately show ?thesis by simp
qed

lemma write_bytes_end: "write_bytes (length bs) data bs = bs @ data"
  by (simp add: write_bytes_def copy_at_def)

lemma flush_calls_run:
  assumes "healthy s" and "files s p = Some f"
  shows "and_then (write_all_at p data off) (\<lambda>_. sync_all p) s =
    (Inr (), with_file p (sync_file (add_op (Write off data) f)) s)"
  using assms by (simp add: prog_simps write_all_at_def sync_all_def os_simps)

lemma wal_image_append:
  "wal_image first rs @ encode_all (first + of_nat (length rs)) pend = wal_image first (rs @ pend)"
  by (simp add: wal_image_def encode_all_append)

lemma wal_flush_run:
  assumes "wal_holds w s first rs pend" and "healthy s"
  shows "\<exists>w' s'. wal_flush (w, s) = (Inr (), (w', s')) \<and> wal_holds w' s' first (rs @ pend) []
    \<and> healthy s' \<and> wal_file w' = wal_file w \<and> named s' = named s
    \<and> (\<forall>p. p \<noteq> wal_file w \<longrightarrow> files s' p = files s p)"
proof (cases "pend = []")
  case True
  with assms show ?thesis by (simp add: wal_flush_def wal_check_poisoned_def wal_holds_def)
next
  case False
  let ?f = "disk_file (wal_image first (rs @ pend))"
  have fl: "files s (wal_file w) = Some (disk_file (wal_image first rs))"
    and w: "\<not> wal_poisoned w" "wal_pending w = encode_all (first + of_nat (length rs)) pend"
      "wal_durable_len w = length (wal_image first rs)"
    using assms(1) by (simp_all add: wal_holds_def)
  have "sync_file (add_op (Write (wal_durable_len w) (wal_pending w)) (disk_file (wal_image first rs))) = ?f"
    by (simp add: sync_file_eq w write_bytes_end wal_image_append)
  with flush_calls_run [OF assms(2) fl, of "wal_pending w" "wal_durable_len w"] False w
  have "wal_flush (w, s) =
      (Inr (), (w\<lparr>wal_durable_len := wal_durable_len w + length (wal_pending w), wal_pending := []\<rparr>,
        with_file (wal_file w) ?f s))"
    by (simp add: wal_flush_def wal_check_poisoned_def)
  then show ?thesis
    using assms by (simp add: wal_holds_def w(2) length_wal_image encode_all_append)
qed

lemma write_header_image: "write_bytes 0 (wal_encode_header n) (take 24 (wal_image first rs)) = wal_image n []"
  by (simp add: wal_image_def write_bytes_def copy_at_0)

lemma reset_calls_run:
  assumes "healthy s" and "files s p = Some f"
  shows "and_then (set_file_len p 24) (\<lambda>_. and_then (write_all_at p h 0) (\<lambda>_. sync_all p)) s =
    (Inr (), with_file p (sync_file (add_op (Write 0 h) (add_op (Set_Len 24) f))) s)"
  using assms by (simp add: prog_simps set_file_len_def write_all_at_def sync_all_def os_simps)

lemma wal_reset_run:
  assumes "wal_holds w s first rs []" and "healthy s"
  shows "\<exists>w' s'. wal_reset (w, s) = (Inr (), (w', s')) \<and> wal_holds w' s' (wal_next_seq w) [] []
    \<and> wal_next_seq w' = wal_next_seq w \<and> wal_file w' = wal_file w \<and> healthy s' \<and> named s' = named s
    \<and> (\<forall>p. p \<noteq> wal_file w \<longrightarrow> files s' p = files s p)"
proof -
  let ?f = "disk_file (wal_image (wal_next_seq w) [])"
  have fl: "files s (wal_file w) = Some (disk_file (wal_image first rs))" and w: "\<not> wal_poisoned w" "wal_pending w = []"
    using assms(1) by (simp_all add: wal_holds_def)
  have "sync_file (add_op (Write 0 (wal_encode_header (wal_next_seq w)))
      (add_op (Set_Len 24) (disk_file (wal_image first rs)))) = ?f"
    by (simp add: sync_file_eq set_len_bytes_truncate length_wal_image write_header_image)
  with reset_calls_run [OF assms(2) fl, of "wal_encode_header (wal_next_seq w)"] w
  have "wal_reset (w, s) = (Inr (), (w\<lparr>wal_durable_len := 24\<rparr>, with_file (wal_file w) ?f s))"
    by (simp add: wal_reset_def wal_check_poisoned_def)
  with w assms(2) show ?thesis by (simp add: wal_holds_def length_wal_image)
qed

text \<open>Opening a log file, whatever follows its valid records.\<close>

lemma wal_open_run:
  assumes "healthy s" and "files s p = Some f" and "contents f = wal_image first rs @ tail"
    and "no_record (first + of_nat (length rs)) tail"
  shows "\<exists>why. wal_open p s =
     (Inr \<lparr>ow_wal = \<lparr>wal_file = p, wal_durable_len = length (wal_image first rs), wal_pending = [],
                       wal_next_seq = first + of_nat (length rs), wal_poisoned = False\<rparr>,
           ow_records = numbered first rs,
           ow_discarded = (if tail = [] then None else Some \<lparr>dt_bytes = length tail, dt_reason = why\<rparr>)\<rparr>,
      if tail = [] then s
      else with_file p (sync_file (add_op (Set_Len (length (wal_image first rs))) f)) s)"
proof -
  let ?len = "length (wal_image first rs)"
  obtain why where why: "read_records (contents f) 24 first =
      (numbered first rs, ?len, first + of_nat (length rs), why)"
    "why = None \<longleftrightarrow> tail = []"
    using read_records_longest [OF assms(4), of "wal_encode_header first"]
    by (auto simp: assms(3) wal_image_def)
  have "wal_decode_header (contents f) = Inr first"
    by (simp add: assms(3) wal_image_def wal_decode_encode_header)
  moreover have "open_file p s = (Inr (), s)" "read_to_end p s = (Inr (contents f), s)"
    using assms(1,2) by (simp_all add: open_file_def read_to_end_def os_simps)
  moreover have "and_then (try_io (set_file_len p ?len)) (\<lambda>_. try_io (sync_all p)) s =
      (Inr (), with_file p (sync_file (add_op (Set_Len ?len) f)) s)"
    using assms(1,2) by (simp add: prog_simps set_file_len_def sync_all_def os_simps)
  moreover have "length (contents f) - ?len = length tail" by (simp add: assms(3))
  ultimately show ?thesis using why
    by (intro exI [of _ "the why"]) (auto simp: wal_open_def prog_simps simp del: length_append)
qed

section \<open>Creating a log\<close>

lemma wal_create_run:
  assumes "healthy s" and "files s p = None"
  shows "\<exists>w s'. wal_create p s = (Inr w, s') \<and> wal_file w = p \<and> wal_holds w s' 0 [] [] \<and> healthy s' \<and>
    named s' p \<and> files s' = (files s)(p \<mapsto> disk_file (wal_image 0 [])) \<and> (\<forall>q. named s q \<longrightarrow> q \<noteq> p \<longrightarrow> named s' q)"
proof -
  let ?s1 = "(with_file p empty_file s)\<lparr>named := (named s)(p := False)\<rparr>"
  let ?w = "add_op (Write 0 (wal_encode_header 0)) empty_file"
  have w: "write_all_at p (wal_encode_header 0) 0 ?s1 = (Inr (), with_file p ?w ?s1)"
    using assms by (simp add: write_all_at_def os_simps)
  have "write_bytes 0 (wal_encode_header 0) [] = wal_image 0 []"
    by (simp add: write_bytes_def copy_at_0 wal_image_def)
  then have sy: "sync_all p (with_file p ?w ?s1) = (Inr (), with_file p (disk_file (wal_image 0 [])) ?s1)"
    using assms by (simp add: sync_all_def os_simps sync_file_eq)
  show ?thesis
    using assms w sy
    by (simp add: wal_create_def prog_simps os_simps sync_parent_dir_run wal_holds_def length_wal_image)
qed

section \<open>Properties\<close>

text \<open>
  A log header is accepted exactly when the file begins with the header the engine writes for
  the sequence number returned.
\<close>
theorem wal_header_exact: "wal_decode_header bs = Inr n \<longleftrightarrow> (\<exists>rest. bs = wal_encode_header n @ rest)"
  using wal_decode_header_Inr [of bs n] wal_decode_encode_header [of n]
  by (metis append_take_drop_id)

text \<open>
  C28: Opening a log with a valid header always succeeds. It returns the longest run of
  consecutively numbered records that starts right after the header; whatever follows is cut off
  the file and reported with its length, so that later appends are readable.
\<close>
theorem wal_open_reads_longest_run:
  assumes "healthy s" and "files s p = Some f" and "contents f = wal_encode_header first @ body"
  shows "\<exists>rs tail opened s'. body = encode_all first rs @ tail \<and> no_record (first + of_nat (length rs)) tail
    \<and> wal_open p s = (Inr opened, s') \<and> ow_records opened = numbered first rs
    \<and> wal_next_seq (ow_wal opened) = first + of_nat (length rs)
    \<and> map_option dt_bytes (ow_discarded opened) = (if tail = [] then None else Some (length tail))
    \<and> map_option contents (files s' p) = Some (wal_encode_header first @ encode_all first rs)"
proof -
  from longest_run_exists [of body first] obtain rs tail where body: "body = encode_all first rs @ tail"
    and stop: "no_record (first + of_nat (length rs)) tail" by blast
  have c: "contents f = wal_image first rs @ tail" by (simp add: assms(3) body wal_image_def)
  from wal_open_run [OF assms(1,2) c stop] obtain why where run: "wal_open p s =
     (Inr \<lparr>ow_wal = \<lparr>wal_file = p, wal_durable_len = length (wal_image first rs), wal_pending = [],
                       wal_next_seq = first + of_nat (length rs), wal_poisoned = False\<rparr>,
           ow_records = numbered first rs,
           ow_discarded = (if tail = [] then None else Some \<lparr>dt_bytes = length tail, dt_reason = why\<rparr>)\<rparr>,
      if tail = [] then s
      else with_file p (sync_file (add_op (Set_Len (length (wal_image first rs))) f)) s)" ..
  have "set_len_bytes (length (wal_image first rs)) (contents f) = wal_image first rs"
    by (simp add: c set_len_bytes_truncate)
  with run body stop assms(2) c show ?thesis
    by (intro exI [of _ rs] exI [of _ tail]) (auto simp: wal_image_def)
qed

definition example_log :: os where
  "example_log = \<lparr>files = [[Normal ''log''] \<mapsto> disk_file (wal_encode_header 4 @ encode_all 4 [Commit (TxnId 1)] @ [0xEE])],
     named = (\<lambda>p. p = [Normal ''log'']), script = [], crashed = False\<rparr>"

theorem wal_open_reads_longest_run_witness:
  "\<exists>rs tail opened s'. encode_all 4 [Commit (TxnId 1)] @ [0xEE] = encode_all 4 rs @ tail
    \<and> no_record (4 + of_nat (length rs)) tail
    \<and> wal_open [Normal ''log''] example_log = (Inr opened, s') \<and> ow_records opened = numbered 4 rs
    \<and> wal_next_seq (ow_wal opened) = 4 + of_nat (length rs)
    \<and> map_option dt_bytes (ow_discarded opened) = (if tail = [] then None else Some (length tail))
    \<and> map_option contents (files s' [Normal ''log'']) = Some (wal_encode_header 4 @ encode_all 4 rs)"
  by (rule wal_open_reads_longest_run
      [where f = "disk_file (wal_encode_header 4 @ encode_all 4 [Commit (TxnId 1)] @ [0xEE])"])
    (simp_all add: example_log_def healthy_def)

end
