(* ===== verification/Wal_Crash.thy ===== *)
theory Wal_Crash
  imports Wal_Log
begin

text \<open>
  The write-ahead log under faults and power loss: what its file may hold after a flush or a reset
  that failed or was cut short, and what opening it then returns.
\<close>

section \<open>Torn appends\<close>

text \<open>Bytes appended to a file, as a power loss may leave them.\<close>

definition torn_tail :: "bytes \<Rightarrow> bytes \<Rightarrow> bool" where
  "torn_tail data tail \<longleftrightarrow>
     length tail \<le> length data \<and> (\<forall>i < length tail. tail ! i = data ! i \<or> tail ! i = 0)"

text \<open>
  The one thing a 32-bit checksum cannot give for certain: a record that reached the disk with
  some of its sectors missing does not happen to carry the checksum of what is left of it.
\<close>

definition tears_detected :: "bytes \<Rightarrow> bytes \<Rightarrow> bool" where
  "tears_detected data tail \<longleftrightarrow>
     (\<forall>pre r n post. data = pre @ enc r n @ post \<longrightarrow>
        (let found = subslice (length pre) (length pre + record_len r) tail in
         length found = record_len r \<longrightarrow> found \<noteq> enc r n \<longrightarrow> rec_u32 found 4 \<noteq> crc32c (drop 8 found)))"

lemma torn_tail_append:
  assumes "torn_tail (a @ data) (a @ tail)"
  shows "torn_tail data tail"
proof -
  have "tail ! i = data ! i \<or> tail ! i = 0" if "i < length tail" for i
    using assms that by (auto simp: torn_tail_def nth_append dest!: spec [of _ "length a + i"])
  with assms show ?thesis by (simp add: torn_tail_def)
qed

lemma tears_detectedD:
  assumes "tears_detected (pre @ enc r n @ post) tail"
    and "subslice (length pre) (length pre + record_len r) tail = found"
    and "length found = record_len r" and "rec_u32 found 4 = crc32c (drop 8 found)"
  shows "found = enc r n"
  using assms unfolding tears_detected_def Let_def by blast

lemma tears_detected_append:
  assumes "tears_detected (a @ data) (a @ tail)"
  shows "tears_detected data tail"
  unfolding tears_detected_def Let_def
proof (intro allI impI notI)
  fix pre post :: bytes and r n
  let ?found = "subslice (length pre) (length pre + record_len r) tail"
  assume data: "data = pre @ enc r n @ post" and found: "length ?found = record_len r" "?found \<noteq> enc r n"
    "rec_u32 ?found 4 = crc32c (drop 8 ?found)"
  have "subslice (length (a @ pre)) (length (a @ pre) + record_len r) (a @ tail) = ?found"
    by (simp add: slice_append_right)
  with assms tears_detectedD [of "a @ pre" r n post "a @ tail" ?found] found data show False by simp
qed

lemma tears_detected_prefix: "tears_detected data (take k data)"
  unfolding tears_detected_def Let_def
proof (intro allI impI)
  fix pre post :: bytes and r n
  let ?found = "subslice (length pre) (length pre + record_len r) (take k data)"
  assume data: "data = pre @ enc r n @ post" and "length ?found = record_len r" and neq: "?found \<noteq> enc r n"
  then have "length pre + record_len r \<le> k" using record_len_ge [of r] by auto
  then have "?found = enc r n" by (simp add: slice_take data slice_append_right slice_append_left slice_to_end)
  with neq show "rec_u32 ?found 4 \<noteq> crc32c (drop 8 ?found)" ..
qed

text \<open>What is left of a record is taken for a record only if it has that record's length.\<close>

lemma torn_length_field:
  assumes "torn_tail (take k (enc r n @ data)) (enc r' n @ rest)"
  shows "record_len r' = record_len r"
proof -
  have first: "enc q n ! 0 = (if record_len q = 25 then 0x19 else 0x21)" for q
    using record_len_cases [of q] by (auto simp: enc_def nth_append length_fields)
  have ge: "25 \<le> record_len r" "25 \<le> record_len r'" by (rule record_len_ge)+
  with assms have "0 < k" by (auto simp: torn_tail_def)
  then have "enc r' n ! 0 = enc r n ! 0 \<or> enc r' n ! 0 = 0"
    using assms ge by (auto simp: torn_tail_def nth_append dest!: spec [of _ 0])
  with first [of r] first [of r'] show ?thesis
    using record_len_cases [of r] record_len_cases [of r'] by auto
qed

text \<open>
  So reading what is left of an append yields a prefix of the records appended, and stops there.
\<close>

lemma torn_append_prefix:
  assumes "torn_tail (take k (encode_all n pend)) tail" and "tears_detected (take k (encode_all n pend)) tail"
  shows "\<exists>m t. tail = encode_all n (take m pend) @ t \<and> no_record (n + of_nat (length (take m pend))) t"
  using assms
proof (induction pend arbitrary: n k tail)
  case Nil
  then show ?case by (simp add: torn_tail_def)
next
  case (Cons r pend)
  show ?case
  proof (cases "take (record_len r) tail = enc r n")
    case True
    then obtain t where tail: "tail = enc r n @ t" by (metis append_take_drop_id)
    with Cons.prems(1) have "record_len r \<le> k" by (auto simp: torn_tail_def)
    then have data: "take k (encode_all n (r # pend)) = enc r n @ take (k - record_len r) (encode_all (n + 1) pend)"
      by simp
    from Cons.IH [OF torn_tail_append [OF Cons.prems(1) [unfolded data tail]]
        tears_detected_append [OF Cons.prems(2) [unfolded data tail]]] obtain m t'
      where t: "t = encode_all (n + 1) (take m pend) @ t'"
        and stop: "no_record (n + 1 + of_nat (length (take m pend))) t'" by blast
    have "tail = encode_all n (take (Suc m) (r # pend)) @ t'"
      by (simp only: tail t take_Suc_Cons encode_all.simps append_assoc)
    moreover have "no_record (n + of_nat (length (take (Suc m) (r # pend)))) t'"
      using stop by (simp only: take_Suc_Cons length_Cons of_nat_Suc add.assoc)
    ultimately show ?thesis by (intro exI conjI)
  next
    case False
    have "no_record n tail" unfolding no_record_def
    proof (intro allI notI)
      fix r' rest
      assume tail: "tail = enc r' n @ rest"
      have len: "record_len r' = record_len r"
        by (rule torn_length_field [OF Cons.prems(1) [unfolded tail encode_all.simps]])
      with Cons.prems(1) tail have "record_len r \<le> k" by (auto simp: torn_tail_def)
      then have data: "take k (encode_all n (r # pend)) =
          [] @ enc r n @ take (k - record_len r) (encode_all (n + 1) pend)" by simp
      have "subslice (length []) (length [] + record_len r) tail = enc r' n"
        using tail len by (simp add: subslice_def)
      then have "enc r' n = enc r n"
        by (rule tears_detectedD [OF Cons.prems(2) [unfolded data]])
          (simp_all only: length_enc len enc_checksum_field drop_enc)
      with False tail len show False by simp
    qed
    then show ?thesis by (intro exI [of _ 0] exI [of _ tail]) simp
  qed
qed

section \<open>What a crash leaves of the log file\<close>

lemma persists_append_write:
  assumes "persists base [Write (length base) data] bs"
  shows "\<exists>tail. bs = base @ tail \<and> torn_tail data tail"
proof -
  obtain hit len where len: "length base \<le> len" "len \<le> length (write_bytes (length base) data base)"
    and bs: "bs = torn_write hit len (length base) data base"
    using assms by (metis persists_NilE persists_WriteE)
  from len(2) have len_data: "len \<le> length base + length data" by (simp only: write_bytes_end length_append)
  have "take (length base) bs = base"
    using len(1) len_data by (intro nth_equalityI) (auto simp: bs torn_write_def write_bytes_end nth_append)
  then have split: "base @ drop (length base) bs = bs" using append_take_drop_id [of "length base" bs] by simp
  have "torn_tail data (drop (length base) bs)"
    using len(1) len_data by (auto simp: torn_tail_def bs torn_write_def write_bytes_end nth_append)
  then show ?thesis by (intro exI [of _ "drop (length base) bs"]) (simp only: split simp_thms)
qed

text \<open>A flush of \<open>pend\<close> that has not completed.\<close>

definition flushing :: "u64 \<Rightarrow> wal_record list \<Rightarrow> wal_record list \<Rightarrow> os_file \<Rightarrow> bool" where
  "flushing first rs pend f \<longleftrightarrow> f_base f = wal_image first rs \<and>
     (f_ops f = [] \<or>
      (\<exists>k. f_ops f = [Write (length (wal_image first rs)) (take k (encode_all (first + of_nat (length rs)) pend))]))"

text \<open>The checksums detect the tears in the image \<open>bs\<close> that a crash leaves of file \<open>f\<close>.\<close>

definition crash_detected :: "os_file \<Rightarrow> bytes \<Rightarrow> bool" where
  "crash_detected f bs \<longleftrightarrow> (\<forall>off data. Write off data \<in> set (f_ops f) \<longrightarrow> tears_detected data (drop off bs))"

lemma flushing_crash:
  assumes "flushing first rs pend f" and "persists (f_base f) (f_ops f) bs" and "crash_detected f bs"
  shows "\<exists>m t. bs = wal_image first (rs @ take m pend) @ t
    \<and> no_record (first + of_nat (length (rs @ take m pend))) t"
proof (cases "f_ops f = []")
  case True
  with assms(1,2) have "bs = wal_image first (rs @ take 0 pend) @ []"
    by (simp add: flushing_def) (metis persists_NilE)
  moreover have "no_record (first + of_nat (length (rs @ take 0 pend))) []" by (rule no_record_Nil)
  ultimately show ?thesis by (intro exI conjI)
next
  case False
  let ?n = "first + of_nat (length rs)"
  from False assms(1) obtain k where base: "f_base f = wal_image first rs"
    and ops: "f_ops f = [Write (length (wal_image first rs)) (take k (encode_all ?n pend))]"
    by (auto simp: flushing_def)
  from persists_append_write assms(2) obtain tail where bs: "bs = wal_image first rs @ tail"
    and torn: "torn_tail (take k (encode_all ?n pend)) tail"
    unfolding base ops by blast
  have "tears_detected (take k (encode_all ?n pend)) tail"
    using assms(3) by (simp add: crash_detected_def ops bs)
  from torn_append_prefix [OF torn this] obtain m t where tail: "tail = encode_all ?n (take m pend) @ t"
    and stop: "no_record (?n + of_nat (length (take m pend))) t" by blast
  have "bs = wal_image first (rs @ take m pend) @ t"
    by (simp add: bs tail flip: wal_image_append)
  moreover have "no_record (first + of_nat (length (rs @ take m pend))) t"
    using stop by (simp only: length_append of_nat_add add.assoc)
  ultimately show ?thesis by (intro exI conjI)
qed

section \<open>Flushing, whatever the system does\<close>

text \<open>A write of \<open>data\<close> stops after \<open>k\<close> bytes: at its end, or where a fault of the script says.\<close>

definition cut :: "os \<Rightarrow> nat \<Rightarrow> bytes \<Rightarrow> bool" where
  "cut s k data \<longleftrightarrow> k = length data \<or> (\<exists>err. Fault err k \<in> set (script s))"

lemma flush_calls_any:
  assumes "and_then (write_all_at p data off) (\<lambda>_. sync_all p) s = (r, s')" and "files s p = Some f"
  obtains g where "files s' = (files s)(p \<mapsto> g)" and "named s' = named s" and "set (script s') \<subseteq> set (script s)"
    and "r = Inr () \<and> g = sync_file (add_op (Write off data) f) \<or>
      (\<exists>err. r = Inl err) \<and> f_base g = f_base f \<and>
        (f_ops g = f_ops f \<or> (\<exists>k. cut s k data \<and> f_ops g = f_ops f @ [Write off (take k data)]))"
proof -
  obtain r1 s1 where wr: "write_all_at p data off s = (r1, s1)" by (cases "write_all_at p data off s")
  from io_write_cases [OF wr [unfolded write_all_at_def] assms(2)] obtain g where
    g: "files s1 = (files s)(p \<mapsto> g)" "named s1 = named s" "set (script s1) \<subseteq> set (script s)"
    and cs: "r1 = Inr () \<and> g = add_op (Write off data) f \<or>
      (\<exists>err. r1 = Inl err) \<and> (g = f \<or> g = add_op (Write off data) f \<or>
        (\<exists>err n. Fault err n \<in> set (script s) \<and> g = add_op (Write off (take n data)) f))" by blast
  have all: "\<exists>k. cut s k data \<and> f_ops (add_op (Write off data) f) = f_ops f @ [Write off (take k data)]"
    by (rule exI [of _ "length data"]) (simp add: add_op_def cut_def)
  have base: "f_base (add_op op f) = f_base f" for op by (simp add: add_op_def)
  show thesis
  proof (cases r1)
    case (Inl err)
    with assms(1) wr have "r = Inl err" "s' = s1" by (simp_all add: and_then_def)
    moreover have "f_base g = f_base f \<and> (f_ops g = f_ops f \<or> (\<exists>k. cut s k data \<and> f_ops g = f_ops f @ [Write off (take k data)]))"
      using cs Inl all base by (auto simp: add_op_def cut_def)
    ultimately show thesis using that [of g] g by simp
  next
    case (Inr u)
    with assms(1) wr have sy: "io_write p sync_file (\<lambda>_ f. f\<lparr>f_unsure := True\<rparr>) (\<lambda>f. f) s1 = (r, s')"
      by (simp add: and_then_def sync_all_def)
    have g1: "files s1 p = Some (add_op (Write off data) f)" using cs g(1) Inr by auto
    show thesis
      using sy g1
    proof (cases rule: io_write_cases)
      case (1 g2)
      have "files s' = (files s)(p \<mapsto> g2)" "named s' = named s" "set (script s') \<subseteq> set (script s)"
        using 1(1-3) g by auto
      moreover have "r = Inr () \<and> g2 = sync_file (add_op (Write off data) f) \<or>
          (\<exists>err. r = Inl err) \<and> f_base g2 = f_base f \<and> (\<exists>k. cut s k data \<and> f_ops g2 = f_ops f @ [Write off (take k data)])"
        using 1(4) all base by auto
      ultimately show thesis using that [of g2] by blast
    qed
  qed
qed

lemma wal_flush_any:
  assumes "wal_holds w s first rs pend" and "wal_flush (w, s) = (r, (w', s'))"
  shows "wal_file w' = wal_file w \<and> named s' = named s \<and> set (script s') \<subseteq> set (script s)
    \<and> (\<forall>p. p \<noteq> wal_file w \<longrightarrow> files s' p = files s p)
    \<and> (r = Inr () \<and> wal_holds w' s' first (rs @ pend) []
       \<or> (\<exists>e. r = Inl e) \<and> wal_poisoned w'
          \<and> (\<exists>f. files s' (wal_file w) = Some f \<and> flushing first rs pend f))"
proof (cases "pend = []")
  case True
  with assms show ?thesis by (auto simp: wal_flush_def wal_check_poisoned_def wal_holds_def)
next
  case False
  let ?n = "first + of_nat (length rs)" and ?base = "wal_image first rs"
  have fl: "files s (wal_file w) = Some (disk_file ?base)" and w: "\<not> wal_poisoned w"
    "wal_pending w = encode_all ?n pend" "wal_durable_len w = length ?base"
    using assms(1) by (simp_all add: wal_holds_def)
  obtain r1 s1 where run: "and_then (write_all_at (wal_file w) (wal_pending w) (wal_durable_len w))
      (\<lambda>_. sync_all (wal_file w)) s = (r1, s1)" by fastforce
  from flush_calls_any [OF run fl] obtain g where g: "files s1 = (files s)(wal_file w \<mapsto> g)"
      "named s1 = named s" "set (script s1) \<subseteq> set (script s)"
    and cs: "r1 = Inr () \<and> g = sync_file (add_op (Write (wal_durable_len w) (wal_pending w)) (disk_file ?base)) \<or>
      (\<exists>err. r1 = Inl err) \<and> f_base g = ?base \<and>
        (f_ops g = [] \<or> (\<exists>k. f_ops g = [Write (wal_durable_len w) (take k (wal_pending w))]))"
    by (simp add: disk_file_def) blast
  show ?thesis
  proof (cases r1)
    case (Inl err)
    with run assms(2) False w have "r = Inl (from_io_error err)" "w' = w\<lparr>wal_poisoned := True\<rparr>" "s' = s1"
      by (auto simp: wal_flush_def wal_check_poisoned_def)
    with g cs Inl w show ?thesis by (auto simp: flushing_def)
  next
    case (Inr u)
    with run assms(2) False w have res: "r = Inr ()" "s' = s1"
      "w' = w\<lparr>wal_durable_len := wal_durable_len w + length (wal_pending w), wal_pending := []\<rparr>"
      by (auto simp: wal_flush_def wal_check_poisoned_def)
    have "g = disk_file (wal_image first (rs @ pend))"
      using cs Inr w by (auto simp: sync_file_eq write_bytes_end wal_image_append)
    with res g assms(1) w show ?thesis
      by (auto simp: wal_holds_def length_wal_image encode_all_append)
  qed
qed

section \<open>Resetting, whatever the system does\<close>

text \<open>
  A write of at most 24 bytes fails as a whole: a fault stops a write before its first byte or
  after at least a log header.
\<close>

definition whole_headers :: "os \<Rightarrow> bool" where
  "whole_headers s \<longleftrightarrow> (\<forall>err n. Fault err n \<in> set (script s) \<longrightarrow> n = 0 \<or> 24 \<le> n)"

lemma whole_headers_mono: "set (script s') \<subseteq> set (script s) \<Longrightarrow> whole_headers s \<Longrightarrow> whole_headers s'"
  by (auto simp: whole_headers_def)

text \<open>A reset to sequence number \<open>next\<close> that has not completed.\<close>

definition resetting :: "u64 \<Rightarrow> wal_record list \<Rightarrow> u64 \<Rightarrow> os_file \<Rightarrow> bool" where
  "resetting first rs nxt f \<longleftrightarrow> f_base f = wal_image first rs \<and>
     f_ops f \<in> {[], [Set_Len 24], [Set_Len 24, Write 0 []], [Set_Len 24, Write 0 (wal_encode_header nxt)]}"

lemma torn_header:
  assumes "length h = 24" and "24 \<le> length bs"
  shows "torn_write hit (length bs) 0 h bs = (if hit 0 then h @ drop 24 bs else bs)"
proof (rule nth_equalityI)
  fix i assume "i < length (torn_write hit (length bs) 0 h bs)"
  then have i: "i < length bs" by (simp add: torn_write_def)
  have "h \<noteq> []" using assms(1) by auto
  then have "write_bytes 0 h bs ! i = (if i < 24 then h ! i else bs ! i)"
    using assms i by (subst nth_write_bytes) (auto simp: max_def)
  moreover have "i div SECTOR = 0" if "i < 24" using that by (simp add: SECTOR_def)
  ultimately show "torn_write hit (length bs) 0 h bs ! i = (if hit 0 then h @ drop 24 bs else bs) ! i"
    using i assms by (auto simp: torn_write_def nth_append)
qed (use assms in \<open>simp add: torn_write_def\<close>)

lemma torn_nothing: "torn_write hit (length bs) off [] bs = bs"
  by (intro nth_equalityI) (auto simp: torn_write_def write_bytes_def)

lemma persists_header:
  assumes "persists bs [Write 0 h] r" and "h = [] \<or> length h = 24" and "24 \<le> length bs"
  shows "r = bs \<or> length h = 24 \<and> r = h @ drop 24 bs"
proof -
  obtain hit len where len: "length bs \<le> len" "len \<le> length (write_bytes 0 h bs)"
    and r: "r = torn_write hit len 0 h bs"
    using assms(1) by (metis persists_NilE persists_WriteE)
  have "length (write_bytes 0 h bs) = length bs" using assms(2,3) by auto
  with len have "len = length bs" by simp
  with assms r torn_header [of h bs hit] torn_nothing [of hit bs 0] show ?thesis by auto
qed

lemma persists_reset:
  assumes "persists bs (Set_Len 24 # ops) r" and "ops = [] \<or> ops = [Write 0 h]"
    and "h = [] \<or> length h = 24" and "24 \<le> length bs"
  shows "r = bs \<or> r = take 24 bs \<or> length h = 24 \<and> (r = h @ drop 24 bs \<or> r = h)"
proof -
  have hdr: "r = b \<or> length h = 24 \<and> r = h @ drop 24 b" if "persists b ops r" "24 \<le> length b" for b
    using assms(2)
  proof
    assume "ops = []"
    with that show ?thesis by auto
  next
    assume "ops = [Write 0 h]"
    with that show ?thesis by (intro persists_header assms(3)) simp_all
  qed
  from assms(1) have "persists (take 24 bs) ops r \<or> persists bs ops r"
    using assms(4) by (metis persists_SetLenE set_len_bytes_truncate)
  with hdr [of "take 24 bs"] hdr [of bs] assms(4) show ?thesis by auto
qed

lemma resetting_crash:
  assumes "resetting first rs nxt f" and "persists (f_base f) (f_ops f) bs" and "rs = [] \<or> nxt \<noteq> first"
  shows "\<exists>first' rs' t. bs = wal_image first' rs' @ t \<and> no_record (first' + of_nat (length rs')) t
    \<and> (rs' = rs \<and> first' = first \<or> rs' = [])"
proof -
  let ?W = "wal_image first rs" and ?h = "wal_encode_header nxt"
  have W: "24 \<le> length ?W" "take 24 ?W = wal_image first []" "drop 24 ?W = encode_all first rs"
    by (simp_all add: wal_image_def)
  have cases: "bs = ?W \<or> bs = wal_image first [] \<or> bs = ?h @ encode_all first rs \<or> bs = wal_image nxt []"
    using assms(1,2) persists_reset [of ?W "[]" bs "[]"] persists_reset [of ?W "[Write 0 []]" bs "[]"]
      persists_reset [of ?W "[Write 0 ?h]" bs ?h] W by (auto simp: resetting_def wal_image_def [of nxt])
  have "no_record nxt (encode_all first rs)"
  proof (cases rs)
    case (Cons r rs')
    show ?thesis unfolding no_record_def
    proof (intro allI notI)
      fix q rest
      assume "encode_all first rs = enc q nxt @ rest"
      then have "decode_record (enc r first @ encode_all (first + 1) rs') = decode_record (enc q nxt @ rest)"
        using Cons by simp
      with assms(3) Cons show False by (simp only: decode_enc) simp
    qed
  qed simp
  then have "?h @ encode_all first rs = wal_image nxt [] @ encode_all first rs"
    "no_record (nxt + of_nat (length [])) (encode_all first rs)"
    by (simp_all add: wal_image_def)
  with cases show ?thesis by (metis append_Nil2 no_record_Nil)
qed

lemma reset_calls_any:
  assumes "and_then (set_file_len p 24) (\<lambda>_. and_then (write_all_at p h 0) (\<lambda>_. sync_all p)) s = (r, s')"
    and "files s p = Some f" and "whole_headers s" and "length h = 24"
  obtains g where "files s' = (files s)(p \<mapsto> g)" and "named s' = named s" and "set (script s') \<subseteq> set (script s)"
    and "r = Inr () \<and> g = sync_file (add_op (Write 0 h) (add_op (Set_Len 24) f)) \<or>
      (\<exists>err. r = Inl err) \<and> f_base g = f_base f \<and>
        f_ops g \<in> (@) (f_ops f) ` {[], [Set_Len 24], [Set_Len 24, Write 0 []], [Set_Len 24, Write 0 h]}"
proof -
  obtain r1 s1 where sl: "set_file_len p 24 s = (r1, s1)" by (cases "set_file_len p 24 s")
  show thesis
    using sl [unfolded set_file_len_def] assms(2)
  proof (cases rule: io_write_cases)
    case (1 g)
    show thesis
    proof (cases r1)
      case (Inl err)
      with assms(1) sl have "r = Inl err" "s' = s1" by (simp_all add: and_then_def)
      moreover have "f_base g = f_base f \<and> (f_ops g = f_ops f \<or> f_ops g = f_ops f @ [Set_Len 24])"
        using 1(4) Inl by (auto simp: add_op_def)
      ultimately show thesis using that [of g] 1(1-3) by auto
    next
      case (Inr u)
      with assms(1) sl have run: "and_then (write_all_at p h 0) (\<lambda>_. sync_all p) s1 = (r, s')"
        by (simp add: and_then_def)
      have g: "files s1 p = Some (add_op (Set_Len 24) f)" using 1 Inr by auto
      have whole: "take k h = [] \<or> take k h = h" if "cut s1 k h" for k
        using that assms(3,4) 1(3) by (fastforce simp: cut_def whole_headers_def)
      show thesis
        using run g
      proof (cases rule: flush_calls_any)
        case (1 g2)
        have "files s' = (files s)(p \<mapsto> g2)" "named s' = named s" "set (script s') \<subseteq> set (script s)"
          using 1(1-3) \<open>files s1 = (files s)(p \<mapsto> g)\<close> \<open>named s1 = named s\<close> \<open>set (script s1) \<subseteq> set (script s)\<close>
          by auto
        moreover have "f_base (add_op (Set_Len 24) f) = f_base f"
          "f_ops (add_op (Set_Len 24) f) = f_ops f @ [Set_Len 24]" by (simp_all add: add_op_def)
        ultimately show thesis using that [of g2] 1(4) whole by fastforce
      qed
    qed
  qed
qed

lemma wal_reset_any:
  assumes "wal_holds w s first rs []" and "whole_headers s" and "wal_reset (w, s) = (r, (w', s'))"
  shows "wal_file w' = wal_file w \<and> named s' = named s \<and> set (script s') \<subseteq> set (script s)
    \<and> (\<forall>p. p \<noteq> wal_file w \<longrightarrow> files s' p = files s p)
    \<and> (r = Inr () \<and> wal_holds w' s' (wal_next_seq w) [] [] \<and> wal_next_seq w' = wal_next_seq w
       \<or> (\<exists>e. r = Inl e) \<and> wal_poisoned w'
          \<and> (\<exists>f. files s' (wal_file w) = Some f \<and> resetting first rs (wal_next_seq w) f))"
proof -
  let ?base = "wal_image first rs" and ?h = "wal_encode_header (wal_next_seq w)"
  have fl: "files s (wal_file w) = Some (disk_file ?base)" and w: "\<not> wal_poisoned w" "wal_pending w = []"
    using assms(1) by (simp_all add: wal_holds_def)
  obtain r1 s1 where run: "and_then (set_file_len (wal_file w) 24) (\<lambda>_. and_then (write_all_at (wal_file w) ?h 0)
      (\<lambda>_. sync_all (wal_file w))) s = (r1, s1)" by fastforce
  from reset_calls_any [OF run fl assms(2)] obtain g where g: "files s1 = (files s)(wal_file w \<mapsto> g)"
      "named s1 = named s" "set (script s1) \<subseteq> set (script s)"
    and cs: "r1 = Inr () \<and> g = sync_file (add_op (Write 0 ?h) (add_op (Set_Len 24) (disk_file ?base))) \<or>
      (\<exists>err. r1 = Inl err) \<and> f_base g = ?base \<and>
        f_ops g \<in> {[], [Set_Len 24], [Set_Len 24, Write 0 []], [Set_Len 24, Write 0 ?h]}"
    by (simp add: disk_file_def) blast
  show ?thesis
  proof (cases r1)
    case (Inl err)
    with run assms(3) w have "r = Inl (from_io_error err)" "w' = w\<lparr>wal_poisoned := True\<rparr>" "s' = s1"
      by (auto simp: wal_reset_def wal_check_poisoned_def)
    with g cs Inl show ?thesis by (auto simp: resetting_def)
  next
    case (Inr u)
    with run assms(3) w have res: "r = Inr ()" "s' = s1" "w' = w\<lparr>wal_durable_len := 24\<rparr>"
      by (auto simp: wal_reset_def wal_check_poisoned_def)
    have "g = disk_file (wal_image (wal_next_seq w) [])"
      using cs Inr by (auto simp: sync_file_eq set_len_bytes_truncate length_wal_image write_header_image)
    with res g w show ?thesis by (auto simp: wal_holds_def length_wal_image)
  qed
qed

section \<open>Opening after a crash\<close>

lemma wal_open_holds:
  assumes "healthy s" and "files s p = Some (disk_file (wal_image first rs @ t))"
    and "no_record (first + of_nat (length rs)) t"
  shows "\<exists>opened s'. wal_open p s = (Inr opened, s') \<and> ow_records opened = numbered first rs
    \<and> (ow_discarded opened = None \<longleftrightarrow> t = []) \<and> wal_holds (ow_wal opened) s' first rs []
    \<and> wal_file (ow_wal opened) = p \<and> healthy s' \<and> named s' = named s \<and> (\<forall>q. q \<noteq> p \<longrightarrow> files s' q = files s q)"
proof -
  let ?f = "disk_file (wal_image first rs @ t)"
  have "sync_file (add_op (Set_Len (length (wal_image first rs))) ?f) = disk_file (wal_image first rs)"
    by (simp add: sync_file_eq set_len_bytes_truncate)
  with wal_open_run [OF assms(1,2) _ assms(3)] assms(1,2) show ?thesis
    by (auto simp: wal_holds_def)
qed

section \<open>The log contract\<close>

text \<open>
  What the transaction layer relies on. The log holds records durably and others in its buffer;
  a flush either moves the buffer to the durable part or breaks the log, and whatever a power loss
  makes of it, reading it again gives the durable records and, if the log was broken, some of
  the buffered ones in order.
\<close>

locale redo_log =
  fixes holds :: "'s \<Rightarrow> 'r list \<Rightarrow> 'r list \<Rightarrow> bool"
    and broken :: "'s \<Rightarrow> 'r list \<Rightarrow> 'r list \<Rightarrow> bool"
    and app :: "'r \<Rightarrow> ('s, 'e, 'n) prog"
    and fl :: "('s, 'e, unit) prog"
    and lost :: "'s \<Rightarrow> 'c \<Rightarrow> bool"
    and recov :: "'c \<Rightarrow> 'r list option"
  assumes app_holds: "holds s d b \<Longrightarrow> \<exists>n s'. app r s = (Inr n, s') \<and> holds s' d (b @ [r])"
    and fl_cases: "holds s d b \<Longrightarrow> fl s = (res, s') \<Longrightarrow>
      res = Inr () \<and> holds s' (d @ b) [] \<or> (\<exists>e. res = Inl e) \<and> broken s' d b"
    and recov_holds: "holds s d b \<Longrightarrow> lost s c \<Longrightarrow> recov c = Some d"
    and recov_broken: "broken s d b \<Longrightarrow> lost s c \<Longrightarrow> \<exists>k. recov c = Some (d @ take k b)"
begin

lemma for_each_app:
  "holds s d b \<Longrightarrow> \<exists>s'. for_each app rs s = (Inr (), s') \<and> holds s' d (b @ rs)"
proof (induction rs arbitrary: s b)
  case (Cons r rs)
  from app_holds [OF Cons.prems] obtain n s1 where "app r s = (Inr n, s1)" "holds s1 d (b @ [r])" by blast
  with Cons.IH [of s1 "b @ [r]"] show ?case by (auto simp: and_then_def)
qed (simp add: ok_def)

text \<open>Logging a group of records and flushing is all, or a prefix.\<close>

lemma log_group:
  assumes "holds s d []" and "and_then (for_each app rs) (\<lambda>_. fl) s = (res, s')"
  shows "res = Inr () \<and> holds s' (d @ rs) [] \<or> (\<exists>e. res = Inl e) \<and> broken s' d rs"
proof -
  from for_each_app [OF assms(1), of rs] obtain s1 where "for_each app rs s = (Inr (), s1)" and s1: "holds s1 d rs"
    by auto
  with assms(2) have "fl s1 = (res, s')" by (simp add: and_then_def)
  from fl_cases [OF s1 this] show ?thesis .
qed

lemma log_group_recovery:
  assumes "holds s d []" and "and_then (for_each app rs) (\<lambda>_. fl) s = (res, s')" and "lost s' c"
  shows "\<exists>k. recov c = Some (d @ take k rs) \<and> (res = Inr () \<longrightarrow> take k rs = rs)"
  using log_group [OF assms(1,2)]
proof (elim disjE conjE exE)
  assume "holds s' (d @ rs) []"
  with assms(3) have "recov c = Some (d @ take (length rs) rs)" by (simp add: recov_holds)
  then show ?thesis by (intro exI [of _ "length rs"]) simp
next
  fix e
  assume "res = Inl e" "broken s' d rs"
  with assms(3) recov_broken show ?thesis by fastforce
qed

end

text \<open>
  The log at \<open>p\<close>, beginning with number \<open>first\<close>; nothing but its file has changed since the system
  was \<open>s0\<close>.
\<close>

definition log_holds :: "path \<Rightarrow> u64 \<Rightarrow> os \<Rightarrow> wal \<times> os \<Rightarrow> wal_record list \<Rightarrow> wal_record list \<Rightarrow> bool" where
  "log_holds p first s0 ws d b \<longleftrightarrow>
     wal_file (fst ws) = p \<and> touches p s0 (snd ws) \<and> wal_holds (fst ws) (snd ws) first d b"

definition log_broken :: "path \<Rightarrow> u64 \<Rightarrow> os \<Rightarrow> wal \<times> os \<Rightarrow> wal_record list \<Rightarrow> wal_record list \<Rightarrow> bool" where
  "log_broken p first s0 ws d b \<longleftrightarrow> wal_file (fst ws) = p \<and> touches p s0 (snd ws) \<and> wal_poisoned (fst ws)
     \<and> (\<exists>f. files (snd ws) p = Some f \<and> flushing first d b f)"

text \<open>The next boot after a power loss, the system then working, with every tear detected.\<close>

definition log_lost :: "path \<Rightarrow> wal \<times> os \<Rightarrow> os \<Rightarrow> bool" where
  "log_lost p ws c \<longleftrightarrow> named (snd ws) p \<and> crash_os (snd ws) c \<and> script c = []
     \<and> (\<forall>f g. files (snd ws) p = Some f \<longrightarrow> files c p = Some g \<longrightarrow> crash_detected f (contents g))"

definition log_recov :: "path \<Rightarrow> os \<Rightarrow> wal_record list option" where
  "log_recov p c = (case wal_open p c of
     (Inr opened, _) \<Rightarrow> Some (map dr_record (ow_records opened)) | (Inl _, _) \<Rightarrow> None)"

lemma log_recov_image:
  assumes "healthy c" and "files c p = Some (disk_file (wal_image first rs @ t))"
    and "no_record (first + of_nat (length rs)) t"
  shows "log_recov p c = Some rs"
  using wal_open_holds [OF assms] by (auto simp: log_recov_def)

lemma crash_os_file:
  assumes "crash_os s c" and "named s p" and "files s p = Some f"
  obtains bs where "files c p = Some (disk_file bs)" and "persists (f_base f) (f_ops f) bs"
  using assms by (auto simp: crash_os_def crash_file_def dest!: spec [of _ p])

interpretation wl: redo_log "log_holds p first s0" "log_broken p first s0" "\<lambda>r. on_fst (wal_append r)" wal_flush
  "log_lost p" "log_recov p" for p first s0
proof unfold_locales
  fix ws d b r
  assume "log_holds p first s0 ws d b"
  then show "\<exists>n ws'. on_fst (wal_append r) ws = (Inr n, ws') \<and> log_holds p first s0 ws' d (b @ [r])"
    using wal_append_run [of "fst ws" "snd ws" first d b r] by (fastforce simp: log_holds_def on_fst_def)
next
  fix ws d b res ws'
  assume h: "log_holds p first s0 ws d b" and run: "wal_flush ws = (res, ws')"
  then have w: "wal_holds (fst ws) (snd ws) first d b" by (auto simp: log_holds_def)
  from run have "wal_flush (fst ws, snd ws) = (res, (fst ws', snd ws'))" by simp
  from wal_flush_any [OF w this] h have any: "wal_file (fst ws') = p \<and> touches p (snd ws) (snd ws')
      \<and> (res = Inr () \<and> wal_holds (fst ws') (snd ws') first (d @ b) []
       \<or> (\<exists>e. res = Inl e) \<and> wal_poisoned (fst ws') \<and> (\<exists>f. files (snd ws') p = Some f \<and> flushing first d b f))"
    by (simp add: log_holds_def touches_def)
  moreover have "touches p s0 (snd ws')" using any h touches_trans by (auto simp: log_holds_def)
  ultimately show "res = Inr () \<and> log_holds p first s0 ws' (d @ b) [] \<or> (\<exists>e. res = Inl e) \<and> log_broken p first s0 ws' d b"
    by (auto simp: log_holds_def log_broken_def)
next
  fix ws d b c
  assume h: "log_holds p first s0 ws d b" and l: "log_lost p ws c"
  then have f: "files (snd ws) p = Some (disk_file (wal_image first d))"
    by (auto simp: log_holds_def wal_holds_def)
  have c: "crash_os (snd ws) c" "named (snd ws) p" and up: "healthy c"
    using l by (auto simp: log_lost_def crash_os_def healthy_def)
  have "files c p = Some (disk_file (wal_image first d @ []))"
    using crash_os_synced [OF c f] by simp
  from log_recov_image [OF up this no_record_Nil] show "log_recov p c = Some d" .
next
  fix ws d b c
  assume br: "log_broken p first s0 ws d b" and l: "log_lost p ws c"
  then obtain f where f: "files (snd ws) p = Some f" "flushing first d b f"
    by (auto simp: log_broken_def)
  with l obtain bs where bs: "files c p = Some (disk_file bs)" "persists (f_base f) (f_ops f) bs"
    by (meson crash_os_file log_lost_def)
  with f l have "crash_detected f bs" by (auto simp: log_lost_def)
  from flushing_crash [OF f(2) bs(2) this] obtain k t where "bs = wal_image first (d @ take k b) @ t"
    "no_record (first + of_nat (length (d @ take k b))) t" by blast
  moreover have "healthy c" using l by (auto simp: log_lost_def crash_os_def healthy_def)
  ultimately show "\<exists>k. log_recov p c = Some (d @ take k b)"
    using bs(1) log_recov_image by blast
qed

section \<open>Properties\<close>

text \<open>
  C17: A group of records that is appended and flushed is durable when the flush returns. If it is
  interrupted anywhere, a log opened after the power loss has the records from before and a prefix
  of the group, never one of them damaged or out of order.
\<close>
theorem flushed_records_survive:
  assumes "wal_holds w s first rs []" and "named s (wal_file w)"
    and "and_then (for_each (\<lambda>r. on_fst (wal_append r)) qs) (\<lambda>_. wal_flush) (w, s) = (res, (w', s'))"
    and "crash_os s' c" and "script c = []"
    and "\<forall>f g. files s' (wal_file w) = Some f \<longrightarrow> files c (wal_file w) = Some g \<longrightarrow> crash_detected f (contents g)"
  shows "\<exists>k. log_recov (wal_file w) c = Some (rs @ take k qs) \<and> (res = Inr () \<longrightarrow> take k qs = qs)"
proof -
  have h: "log_holds (wal_file w) first s (w, s) rs []" using assms(1) by (simp add: log_holds_def)
  have "named s' (wal_file w)"
    using wl.log_group [OF h assms(3)] assms(2) by (auto simp: log_holds_def log_broken_def touches_def)
  then have "log_lost (wal_file w) (w', s') c" using assms(4-6) by (simp add: log_lost_def)
  from wl.log_group_recovery [OF h assms(3) this] show ?thesis .
qed

text \<open>
  A flush or a reset that fails leaves the log unusable: from then on appending, flushing and
  resetting are refused with a poisoned error and change neither the log nor any file.
\<close>
theorem failed_log_refuses_work:
  assumes "wal_flush (w, s) = (Inl e, (w', s')) \<or> wal_pending w = [] \<and> wal_reset (w, s) = (Inl e, (w', s'))"
  shows "\<exists>msg. (\<forall>r. wal_append r w' = (Inl (Poisoned msg), w'))
    \<and> (\<forall>t. wal_flush (w', t) = (Inl (Poisoned msg), (w', t)) \<and> wal_reset (w', t) = (Inl (Poisoned msg), (w', t)))"
proof -
  have "wal_poisoned w'"
    using assms by (auto simp: wal_flush_def wal_reset_def wal_check_poisoned_def split: if_splits prod.splits sum.splits)
  then show ?thesis by (simp add: wal_append_def wal_flush_def wal_reset_def wal_check_poisoned_def)
qed

definition example_wal :: wal where
  "example_wal = \<lparr>wal_file = [Normal ''log''], wal_durable_len = 24, wal_pending = [1], wal_next_seq = 0, wal_poisoned = False\<rparr>"

definition full_disk :: os where
  "full_disk = \<lparr>files = [[Normal ''log''] \<mapsto> disk_file (wal_image 0 [])], named = (\<lambda>p. p = [Normal ''log'']),
     script = [Fault (Io_Error OtherKind ''No space left on device'') 0], crashed = False\<rparr>"

text \<open>
  C18: Resetting the log is all or nothing. Whatever fails during a reset and whatever a power
  loss then makes of the file, the log opens with either all of its records or none, and with none
  once the reset has returned; in particular old records behind a new header are not read.
\<close>
theorem reset_is_all_or_nothing:
  assumes "wal_holds w s first rs []" and "named s (wal_file w)" and "whole_headers s" and "length rs < 2 ^ 64"
    and "wal_reset (w, s) = (res, (w', s'))" and "crash_os s' c" and "script c = []"
  shows "log_recov (wal_file w) c = Some [] \<or> (\<exists>e. res = Inl e) \<and> log_recov (wal_file w) c = Some rs"
proof -
  have up: "healthy c" using assms(6,7) by (simp add: crash_os_def healthy_def)
  note any = wal_reset_any [OF assms(1,3,5)]
  then have named: "named s' (wal_file w)" using assms(2) by simp
  from any have "res = Inr () \<and> wal_holds w' s' (wal_next_seq w) [] [] \<and> wal_file w' = wal_file w \<or> (\<exists>e. res = Inl e) \<and>
      (\<exists>f. files s' (wal_file w) = Some f \<and> resetting first rs (wal_next_seq w) f)" by blast
  then show ?thesis
  proof (elim disjE conjE exE)
    assume "wal_holds w' s' (wal_next_seq w) [] []" "wal_file w' = wal_file w"
    then have "files s' (wal_file w) = Some (disk_file (wal_image (wal_next_seq w) [] @ []))"
      by (simp add: wal_holds_def)
    from crash_os_synced [OF assms(6) named this] log_recov_image [OF up _ no_record_Nil]
    show ?thesis by blast
  next
    fix e f
    assume e: "res = Inl e" and f: "files s' (wal_file w) = Some f" "resetting first rs (wal_next_seq w) f"
    have "wal_next_seq w = first + of_nat (length rs)" using assms(1) by (simp add: wal_holds_def)
    moreover have "of_nat (length rs) \<noteq> (0 :: u64)" if "rs \<noteq> []"
      using assms(4) that by (simp add: word_of_nat_eq_0_iff nat_dvd_not_less)
    ultimately have "rs = [] \<or> wal_next_seq w \<noteq> first" by auto
    moreover from crash_os_file [OF assms(6) named f(1)] obtain bs
      where bs: "files c (wal_file w) = Some (disk_file bs)" "persists (f_base f) (f_ops f) bs" .
    ultimately obtain first' rs' t where "bs = wal_image first' rs' @ t"
      "no_record (first' + of_nat (length rs')) t" "rs' = rs \<or> rs' = []"
      using resetting_crash [OF f(2) bs(2)] by blast
    with log_recov_image [OF up] bs(1) e show ?thesis by blast
  qed
qed

lemma example_holds:
  "wal_holds (example_wal\<lparr>wal_pending := []\<rparr>) full_disk 0 [] []"
  by (simp add: wal_holds_def example_wal_def full_disk_def length_wal_image)

theorem flushed_records_survive_witness:
  "\<exists>w' s'. and_then (for_each (\<lambda>r. on_fst (wal_append r)) [Commit (TxnId 1)]) (\<lambda>_. wal_flush)
      (example_wal\<lparr>wal_pending := []\<rparr>, full_disk\<lparr>script := []\<rparr>) = (Inr (), (w', s'))
    \<and> log_recov [Normal ''log''] s' = Some [Commit (TxnId 1)]"
proof -
  let ?w = "example_wal\<lparr>wal_pending := []\<rparr>" and ?s = "full_disk\<lparr>script := []\<rparr>"
  have h: "wal_holds ?w ?s 0 [] []" using example_holds by (simp add: wal_holds_def)
  then obtain w1 where app: "wal_append (Commit (TxnId 1)) ?w = (Inr (wal_next_seq ?w), w1)"
    and w1: "wal_holds w1 ?s 0 [] [Commit (TxnId 1)]" "wal_file w1 = [Normal ''log'']"
    using wal_append_run [OF h, of "Commit (TxnId 1)"] by (auto simp: example_wal_def)
  have "healthy ?s" by (simp add: full_disk_def healthy_def)
  from wal_flush_run [OF w1(1) this] obtain w' s' where fl: "wal_flush (w1, ?s) = (Inr (), (w', s'))"
    and s': "wal_holds w' s' 0 [Commit (TxnId 1)] []" "healthy s'" "wal_file w' = [Normal ''log'']" "named s' = named ?s"
      "\<forall>p. p \<noteq> [Normal ''log''] \<longrightarrow> files s' p = files ?s p" using w1(2) by auto
  have run: "and_then (for_each (\<lambda>r. on_fst (wal_append r)) [Commit (TxnId 1)]) (\<lambda>_. wal_flush) (?w, ?s) = (Inr (), (w', s'))"
    using app fl by (simp add: and_then_def on_fst_def ok_def)
  have f: "files s' = [[Normal ''log''] \<mapsto> disk_file (wal_image 0 [Commit (TxnId 1)])]"
    using s' by (auto simp: wal_holds_def full_disk_def fun_eq_iff)
  have "crash_os s' s'" "script s' = []"
    using s'(2,4) f by (auto simp: crash_os_def crash_file_synced healthy_def full_disk_def, simp add: crash_file_def)
  moreover have "\<forall>f g. files s' (wal_file ?w) = Some f \<longrightarrow> files s' (wal_file ?w) = Some g \<longrightarrow> crash_detected f (contents g)"
    by (auto simp: f crash_detected_def disk_file_def)
  ultimately have "\<exists>k. log_recov (wal_file ?w) s' = Some ([] @ take k [Commit (TxnId 1)])
      \<and> (Inr () = (Inr () :: unit result) \<longrightarrow> take k [Commit (TxnId 1)] = [Commit (TxnId 1)])"
    by (intro flushed_records_survive [OF h _ run]) (simp_all add: full_disk_def example_wal_def)
  with run show ?thesis by (auto simp: example_wal_def)
qed

theorem reset_is_all_or_nothing_witness:
  "\<exists>res w' s'. wal_reset (example_wal\<lparr>wal_pending := []\<rparr>, full_disk) = (res, (w', s')) \<and>
    (\<forall>c. crash_os s' c \<and> script c = [] \<longrightarrow> log_recov [Normal ''log''] c = Some [])"
proof -
  obtain res w' s' where run: "wal_reset (example_wal\<lparr>wal_pending := []\<rparr>, full_disk) = (res, (w', s'))"
    by (metis surj_pair)
  have "log_recov [Normal ''log''] c = Some []" if "crash_os s' c" "script c = []" for c
    using reset_is_all_or_nothing [OF example_holds _ _ _ run that]
    by (auto simp: example_wal_def full_disk_def whole_headers_def)
  with run show ?thesis by blast
qed

end
