(* ===== verification/Data_Crash.thy ===== *)
theory Data_Crash
  imports Disk
begin

text \<open>
  The data file under faults and power loss: which pages keep their contents whatever becomes of
  the writes that are pending.
\<close>

lemma as_bytes_not_Nil [simp]: "as_bytes p \<noteq> []"
  by (metis length_as_bytes length_0_conv zero_neq_numeral)

section \<open>Properties of every crash image\<close>

text \<open>
  The pages a set of numbers leaves alone. A page of the data file is safe while every pending
  write, torn or not, goes to other pages or rewrites what is there.
\<close>

definition page_at :: "nat \<Rightarrow> page \<Rightarrow> bytes \<Rightarrow> bool" where
  "page_at n p bs \<longleftrightarrow> n * 4096 + 4096 \<le> length bs \<and> file_page n bs = as_bytes p"

definition survives :: "(bytes \<Rightarrow> bool) \<Rightarrow> os_file \<Rightarrow> bool" where
  "survives P f \<longleftrightarrow> (\<forall>bs. persists (f_base f) (f_ops f) bs \<longrightarrow> P bs)"

inductive_simps persists_simps:
  "persists bs [] r" "persists bs (Write off data # ops) r" "persists bs (Set_Len n # ops) r"

lemma persists_append:
  "persists bs (xs @ ys) r \<longleftrightarrow> (\<exists>b. persists bs xs b \<and> persists b ys r)"
proof (induction xs arbitrary: bs)
  case (Cons x xs)
  then show ?case by (cases x) (simp_all add: persists_simps, blast+)
qed (simp add: persists_simps)

lemma torn_write_all: "torn_write (\<lambda>_. True) (length (write_bytes off data bs)) off data bs = write_bytes off data bs"
  by (intro nth_equalityI) (simp_all add: torn_write_def)

lemma persists_apply: "persists bs ops (fold apply_op ops bs)"
proof (induction ops arbitrary: bs)
  case (Cons x ops)
  show ?case
  proof (cases x)
    case (Write off data)
    have "length bs \<le> length (write_bytes off data bs)" by simp
    moreover have "persists (torn_write (\<lambda>_. True) (length (write_bytes off data bs)) off data bs) ops
        (fold apply_op ops (write_bytes off data bs))"
      unfolding torn_write_all by (rule Cons)
    ultimately have "persists bs (Write off data # ops) (fold apply_op ops (write_bytes off data bs))"
      by (rule persists.torn [OF _ order_refl])
    with Write show ?thesis by simp
  next
    case (Set_Len n)
    then show ?thesis using Cons by (simp add: persists_simps)
  qed
qed (simp add: persists_simps)

lemma survives_contents: "survives P f \<Longrightarrow> P (contents f)"
  by (simp add: survives_def contents_def persists_apply)

lemma survives_synced: "survives P (disk_file bs) \<longleftrightarrow> P bs"
  by (auto simp: survives_def disk_file_def intro: persists.none)

lemma survives_sync: "survives P f \<Longrightarrow> survives P (sync_file f)"
  using survives_contents [of P f] by (auto simp: survives_def sync_file_def persists_simps)

lemma survives_add_write:
  assumes "survives P f"
    and "\<And>hit len bs. P bs \<Longrightarrow> length bs \<le> len \<Longrightarrow> len \<le> length (write_bytes off data bs) \<Longrightarrow> P (torn_write hit len off data bs)"
  shows "survives P (add_op (Write off data) f)"
  using assms by (auto simp: survives_def add_op_def persists_append)


section \<open>Calls on the data file, whatever the system does\<close>

text \<open>\<open>P\<close> is kept by every torn part of a write of \<open>data\<close> at \<open>off\<close>.\<close>

definition write_closed :: "(bytes \<Rightarrow> bool) \<Rightarrow> nat \<Rightarrow> bytes \<Rightarrow> bool" where
  "write_closed P off data \<longleftrightarrow> (\<forall>k hit len bs. P bs \<longrightarrow> length bs \<le> len \<longrightarrow>
     len \<le> length (write_bytes off (take k data) bs) \<longrightarrow> P (torn_write hit len off (take k data) bs))"

lemma survives_part:
  assumes "survives P f" and "write_closed P off data"
  shows "survives P (add_op (Write off (take k data)) f)"
  using assms by (intro survives_add_write) (auto simp: write_closed_def)

lemma survives_write:
  assumes "survives P f" and "write_closed P off data"
  shows "survives P (add_op (Write off data) f)"
  using survives_part [OF assms, of "length data"] by simp

lemma write_all_any:
  assumes "write_all_at p data off s = (r, s')" and "files s p = Some f"
    and "survives P f" and "write_closed P off data"
  obtains g where "files s' = (files s)(p \<mapsto> g)" and "named s' = named s" and "set (script s') \<subseteq> set (script s)"
    and "survives P g" and "r = Inr () \<Longrightarrow> g = add_op (Write off data) f"
    and "r = Inr () \<or> (\<exists>err. r = Inl err) \<and> (f_ops g = f_ops f \<or> (\<exists>k. f_ops g = f_ops f @ [Write off (take k data)]))"
    and "f_base g = f_base f" and "f_unsure g = f_unsure f"
  using assms(1) [unfolded write_all_at_def] assms(2)
proof (cases rule: io_write_cases)
  case (1 g)
  have "add_op (Write off data) f = add_op (Write off (take (length data) data)) f" by simp
  with 1(4) have part: "g = f \<or> (\<exists>k. g = add_op (Write off (take k data)) f)" by metis
  then have "survives P g" using assms(3) survives_part [OF assms(3,4)] by blast
  moreover have "f_base g = f_base f" "f_unsure g = f_unsure f"
    "f_ops g = f_ops f \<or> (\<exists>k. f_ops g = f_ops f @ [Write off (take k data)])"
    using part by (auto simp: add_op_def)
  ultimately show thesis using that [of g] 1 by blast
qed

lemma sync_any:
  assumes "sync_all p s = (r, s')" and "files s p = Some f" and "survives P f"
  obtains g where "files s' = (files s)(p \<mapsto> g)" and "named s' = named s" and "set (script s') \<subseteq> set (script s)"
    and "survives P g" and "r = Inr () \<Longrightarrow> g = sync_file f" and "contents g = contents f"
  using assms(1) [unfolded sync_all_def] assms(2)
proof (cases rule: io_write_cases)
  case (1 g)
  then have "g = f \<or> g = sync_file f \<or> g = f\<lparr>f_unsure := True\<rparr>" by auto
  moreover have "survives P (f\<lparr>f_unsure := True\<rparr>)" "contents (f\<lparr>f_unsure := True\<rparr>) = contents f"
    using assms(3) by (simp_all add: survives_def contents_def)
  ultimately have "survives P g" "contents g = contents f"
    using assms(3) survives_sync [OF assms(3)] by auto
  with that [of g] 1 show thesis by blast
qed

section \<open>Pages\<close>

lemma length_torn_write [simp]: "length (torn_write hit len off data bs) = len"
  by (simp add: torn_write_def)

text \<open>A page is kept by a write that puts nothing but the page's own bytes into its place.\<close>

lemma page_at_write_closed:
  assumes "\<And>i. i < length data \<Longrightarrow> n * 4096 \<le> off + i \<Longrightarrow> off + i < n * 4096 + 4096 \<Longrightarrow>
      data ! i = as_bytes p ! (off + i - n * 4096)"
  shows "write_closed (page_at n p) off data"
  unfolding write_closed_def page_at_def
proof (intro allI impI conjI)
  fix k len and hit :: "nat \<Rightarrow> bool" and bs :: bytes
  let ?d = "take k data" and ?t = "torn_write hit len off (take k data) bs"
  assume old: "n * 4096 + 4096 \<le> length bs \<and> file_page n bs = as_bytes p" and len: "length bs \<le> len"
    "len \<le> length (write_bytes off ?d bs)"
  then show room: "n * 4096 + 4096 \<le> length ?t" by simp
  show "file_page n ?t = as_bytes p"
  proof (rule nth_equalityI)
    fix i assume "i < length (file_page n ?t)"
    then have i: "i < 4096" by (simp add: file_page_def)
    have byte: "bs ! (n * 4096 + i) = as_bytes p ! i"
      using old i nth_slice [of i "n * 4096 + 4096" "n * 4096" bs] by (simp add: file_page_def)
    have "write_bytes off ?d bs ! (n * 4096 + i) = as_bytes p ! i"
      using old len i byte assms [of "n * 4096 + i - off"] by (subst nth_write_bytes) auto
    with byte i old len show "file_page n ?t ! i = as_bytes p ! i"
      by (simp add: file_page_def nth_slice torn_write_def)
  qed (use room in \<open>simp add: file_page_def\<close>)
qed

lemma page_at_other_closed:
  assumes "n \<noteq> m" and "length data \<le> 4096"
  shows "write_closed (page_at n p) (m * 4096) data"
proof (rule page_at_write_closed)
  fix i assume "i < length data" "n * 4096 \<le> m * 4096 + i" "m * 4096 + i < n * 4096 + 4096"
  moreover from this assms(2) have "n \<le> m" "m \<le> n" by linarith+
  ultimately show "data ! i = as_bytes p ! (m * 4096 + i - n * 4096)" using assms(1) by simp
qed

lemma page_at_same_closed: "write_closed (page_at n p) (n * 4096) (as_bytes p)"
  by (rule page_at_write_closed) simp

lemma page_at_written: "page_at n p (write_bytes (n * 4096) (as_bytes p) bs)"
  by (simp add: page_at_def file_page_write_same)

lemma page_at_write_other:
  "page_at n p bs \<Longrightarrow> n \<noteq> m \<Longrightarrow> page_at n p (write_bytes (m * 4096) (as_bytes q) bs)"
  by (auto simp: page_at_def file_page_write_other)

lemma write_closed_All: "(\<And>x. write_closed (P x) off data) \<Longrightarrow> write_closed (\<lambda>bs. \<forall>x. P x bs) off data"
  by (auto simp: write_closed_def)

lemma write_closed_imp: "(Q \<Longrightarrow> write_closed P off data) \<Longrightarrow> write_closed (\<lambda>bs. Q \<longrightarrow> P bs) off data"
  by (auto simp: write_closed_def)

lemma write_closed_conj:
  "write_closed P off data \<Longrightarrow> write_closed Q off data \<Longrightarrow> write_closed (\<lambda>bs. P bs \<and> Q bs) off data"
  by (auto simp: write_closed_def)

lemma write_closed_apply:
  assumes "write_closed P off data" and "P bs"
  shows "P (write_bytes off (take k data) bs)"
proof -
  let ?w = "write_bytes off (take k data) bs"
  have "P (torn_write (\<lambda>_. True) (length ?w) off (take k data) bs)"
    using assms unfolding write_closed_def by (metis length_write_bytes max.cobounded1 order_refl)
  then show ?thesis by (simp only: torn_write_all)
qed

section \<open>Frames of the system state\<close>

text \<open>Only the file at \<open>p\<close> may have changed, and no fsync of it has failed meanwhile.\<close>

definition unsure :: "os \<Rightarrow> path \<Rightarrow> bool" where
  "unsure s p \<longleftrightarrow> (case files s p of None \<Rightarrow> False | Some f \<Rightarrow> f_unsure f)"

definition keeps :: "path \<Rightarrow> os \<Rightarrow> os \<Rightarrow> bool" where
  "keeps p s s' \<longleftrightarrow> touches p s s' \<and> (unsure s' p \<longrightarrow> unsure s p)"

lemma keeps_refl [simp, intro]: "keeps p s s"
  by (simp add: keeps_def)

lemma keeps_trans [trans]: "keeps p s t \<Longrightarrow> keeps p t u \<Longrightarrow> keeps p s u"
  using touches_trans by (auto simp: keeps_def)

text \<open>A write that may have been cut short leaves the other pages alone.\<close>

lemma write_other_pages:
  assumes "r = Inr () \<Longrightarrow> g = add_op (Write (m * 4096) data) f"
    and "r = Inr () \<or> (\<exists>err. r = Inl err) \<and> (f_ops g = f_ops f \<or> (\<exists>k. f_ops g = f_ops f @ [Write (m * 4096) (take k data)]))"
    and "f_base g = f_base f" and "length data = 4096" and "n \<noteq> m" and "page_at n q (contents f)"
  shows "page_at n q (contents g)"
proof -
  have "\<exists>k. contents g = contents f \<or> contents g = write_bytes (m * 4096) (take k data) (contents f)"
  proof (cases "r = Inr ()")
    case True
    with assms(1,4) show ?thesis by (intro exI [of _ "4096"]) simp
  next
    case False
    with assms(2,3) show ?thesis by (auto simp: contents_def)
  qed
  with assms(4-6) write_closed_apply [OF page_at_other_closed [of n m data q]] show ?thesis by auto
qed

lemma disk_write_page_any:
  assumes "disk_write_page d pid (page, s) = (r, (page', s'))" and "files s (dk_file d) = Some f"
    and "valid_page pid page" and "disk_addr d pid" and "survives P f"
    and "write_closed P (unat (file_offset pid)) (as_bytes page)"
  shows "page' = page \<and> keeps (dk_file d) s s' \<and> (\<exists>g. files s' (dk_file d) = Some g \<and> survives P g
    \<and> (r = Inr () \<longrightarrow> page_at (unat (raw pid)) page (contents g))
    \<and> (\<forall>n q. n \<noteq> unat (raw pid) \<longrightarrow> page_at n q (contents f) \<longrightarrow> page_at n q (contents g)))"
proof -
  let ?off = "unat (raw pid) * 4096"
  have off: "unat (file_offset pid) = ?off" and chk: "disk_check_data_page d pid = Inr ()"
    using assms(4) by (simp_all add: disk_addr_def file_offset_nat check_data_page_iff)
  have page: "get_page_id page = pid" "seal page = page"
    using assms(3) by (rule valid_page_id, rule valid_page_sealed)
  obtain r1 s1 where w: "write_all_at (dk_file d) (as_bytes page) ?off s = (r1, s1)" by fastforce
  have "disk_write_page d pid (page, s) =
      (case try_io (write_all_at (dk_file d) (as_bytes page) ?off) s of (r, s') \<Rightarrow> (r, (page, s')))"
    unfolding disk_write_page_def by (simp add: chk page off)
  also have "\<dots> = (case r1 of Inl e \<Rightarrow> (Inl (Io e), (page, s1)) | Inr u \<Rightarrow> (Inr u, (page, s1)))"
    using w by (simp add: try_io_def from_io_error_def split: sum.split)
  finally have wr: "write_all_at (dk_file d) (as_bytes page) ?off s = (r1, s')"
    and r: "r = Inr () \<Longrightarrow> r1 = Inr ()" and p': "page' = page"
    using assms(1) w by (simp_all split: sum.splits)
  from wr assms(2,5) assms(6) [unfolded off] obtain g where g: "files s' = (files s)(dk_file d \<mapsto> g)" "named s' = named s"
    "set (script s') \<subseteq> set (script s)" "survives P g" "r1 = Inr () \<Longrightarrow> g = add_op (Write ?off (as_bytes page)) f"
    "r1 = Inr () \<or> (\<exists>err. r1 = Inl err) \<and> (f_ops g = f_ops f \<or> (\<exists>k. f_ops g = f_ops f @ [Write ?off (take k (as_bytes page))]))"
    "f_base g = f_base f" "f_unsure g = f_unsure f"
    by (rule write_all_any) blast
  have "page_at n q (contents g)" if "n \<noteq> unat (raw pid)" "page_at n q (contents f)" for n q
    by (rule write_other_pages [OF g(5,6,7) length_as_bytes that])
  moreover have "page_at (unat (raw pid)) page (contents g)" if "r = Inr ()"
    using r [OF that] g(5) by (simp add: page_at_written)
  ultimately show ?thesis using p' assms(2) g(1-4,8) by (auto simp: keeps_def touches_def unsure_def)
qed

lemma disk_read_page_any:
  assumes "disk_read_page d pid s = (r, s')" and "files s (dk_file d) = Some f"
    and "disk_addr d pid" and "page_at (unat (raw pid)) p (contents f)"
  shows "files s' = files s \<and> keeps (dk_file d) s s' \<and> (\<forall>q. r = Inr q \<longrightarrow> q = p)"
proof -
  obtain r1 s1 where rd: "read_exact_at (dk_file d) (unat (file_offset pid)) 4096 s = (r1, s1)" by fastforce
  note rd' = rd [unfolded read_exact_at_def]
  have chk: "disk_check_data_page d pid = Inr ()" and off: "unat (file_offset pid) = unat (raw pid) * 4096"
    using assms(3) by (simp_all add: disk_addr_def file_offset_nat check_data_page_iff)
  have s': "s' = s1" using assms(1) rd chk
    by (auto simp: disk_read_page_def and_then_def lift_res_def try_io_def ok_def Let_def split: sum.splits prod.splits)
  have same: "files s1 = files s" "named s1 = named s" using io_read_same [OF rd'] by (simp_all add: same_disk_def)
  have val: "bs = as_bytes p" if "r1 = Inr bs" for bs
    using io_read_Inr [OF rd' [unfolded that]] assms(2,4) off
    by (auto simp: same_disk_def page_at_def file_page_def)
  have "q = p" if "r = Inr q" for q
  proof -
    from that assms(1) rd chk obtain bs where "r1 = Inr bs" "q = as_bytes_mut bs zeroed"
      by (auto simp: disk_read_page_def and_then_eq_Inr try_io_eq_Inr lift_res_def ok_def Let_def)
    with val show "q = p" by (simp add: page_eqI as_bytes_mut_all)
  qed
  with same s' io_read_script [OF rd'] show ?thesis by (simp add: keeps_def touches_def unsure_def)
qed

lemma disk_sync_any:
  assumes "disk_sync d s = (r, s')" and "files s (dk_file d) = Some f" and "survives P f"
  shows "touches (dk_file d) s s' \<and> (r = Inr () \<longrightarrow> keeps (dk_file d) s s')
    \<and> (\<exists>g. files s' (dk_file d) = Some g \<and> survives P g \<and> contents g = contents f \<and> (r = Inr () \<longrightarrow> g = sync_file f))"
proof -
  have "snd (sync_all (dk_file d) s) = s'" using assms(1) snd_try_io [of "sync_all (dk_file d)" s] by (simp add: disk_sync_def)
  then obtain r2 where sy: "sync_all (dk_file d) s = (r2, s')" by (metis prod.collapse)
  then have r: "r = Inr () \<Longrightarrow> r2 = Inr ()" using assms(1) by (simp add: disk_sync_def try_io_eq_Inr)
  from sync_any [OF sy assms(2,3)] obtain g where g: "files s' = (files s)(dk_file d \<mapsto> g)" "named s' = named s"
    "set (script s') \<subseteq> set (script s)" "survives P g" "r2 = Inr () \<Longrightarrow> g = sync_file f" "contents g = contents f" by blast
  have t: "touches (dk_file d) s s'" using g(1-3) by (simp add: touches_def)
  moreover have "keeps (dk_file d) s s'" if "r = Inr ()"
    using t g(1) g(5) [OF r [OF that]] assms(2) by (simp add: keeps_def unsure_def)
  ultimately show ?thesis using g r by (intro conjI exI [of _ g] impI) simp_all
qed

lemma write_file_header_any:
  assumes "write_file_header d s = (r, s')" and "files s (dk_file d) = Some f" and "survives P f"
    and "write_closed P 0 (as_bytes (encode_file_header \<lparr>fh_page_count = dk_page_count d\<rparr>))"
  shows "keeps (dk_file d) s s'
    \<and> (\<exists>g. files s' (dk_file d) = Some g \<and> survives P g
        \<and> (r = Inr () \<longrightarrow> page_at 0 (encode_file_header \<lparr>fh_page_count = dk_page_count d\<rparr>) (contents g))
        \<and> (\<forall>n q. n \<noteq> 0 \<longrightarrow> page_at n q (contents f) \<longrightarrow> page_at n q (contents g)))"
proof -
  let ?h = "encode_file_header \<lparr>fh_page_count = dk_page_count d\<rparr>"
  let ?w = "write_all_at (dk_file d) (as_bytes ?h) 0"
  have run: "try_io ?w s = (r, s')" using assms(1) by (simp add: write_file_header_def disk_page_count_def)
  have "snd (?w s) = s'" using run snd_try_io [of ?w s] by simp
  then obtain r2 where wr: "?w s = (r2, s')" by (metis prod.collapse)
  then have r: "r = Inr () \<Longrightarrow> r2 = Inr ()" using run by (simp add: try_io_eq_Inr)
  from wr assms(2-4) obtain g where g: "files s' = (files s)(dk_file d \<mapsto> g)" "named s' = named s"
    "set (script s') \<subseteq> set (script s)" "survives P g" "r2 = Inr () \<Longrightarrow> g = add_op (Write (0 * 4096) (as_bytes ?h)) f"
    "f_unsure g = f_unsure f" "f_base g = f_base f"
    "r2 = Inr () \<or> (\<exists>err. r2 = Inl err) \<and> (f_ops g = f_ops f \<or> (\<exists>k. f_ops g = f_ops f @ [Write (0 * 4096) (take k (as_bytes ?h))]))"
    unfolding mult_0 by (rule write_all_any) blast
  have k: "keeps (dk_file d) s s'" using g(1-3,6) assms(2) by (simp add: keeps_def touches_def unsure_def)
  have "page_at 0 ?h (contents g)" if "r = Inr ()"
  proof -
    have c: "contents g = write_bytes (0 * 4096) (as_bytes ?h) (contents f)" using g(5) r that by simp
    show ?thesis unfolding c by (rule page_at_written)
  qed
  moreover have "page_at n q (contents g)" if "n \<noteq> 0" "page_at n q (contents f)" for n q
    by (rule write_other_pages [OF g(5,8,7) length_as_bytes that])
  ultimately show ?thesis using k g(1,4) by (intro conjI exI [of _ g]) simp_all
qed

end
