(* ===== verification/Recovery.thy ===== *)
theory Recovery
  imports Wal_Crash Data_Crash
begin

text \<open>
  Crash recovery (\<^verbatim>\<open>storage/recovery.rs\<close>): replaying the latest committed image of every page
  into the data file.
\<close>

section \<open>Definitions\<close>

record recovery_stats =
  rs_committed_txns :: nat
  rs_incomplete_txns :: nat
  rs_pages_restored :: nat

definition validate_image :: "page_id \<Rightarrow> page \<Rightarrow> u64 \<Rightarrow> unit result" where
  "validate_image pid page seq =
     (let res = (if pid = HEADER
          then (case decode_file_header page of Inl e \<Rightarrow> Inl e | Inr _ \<Rightarrow> Inr ())
          else (case verify page pid of Inl e \<Rightarrow> Inl e | Inr _ \<Rightarrow> Inr ()))
      in case res of
        Inl err \<Rightarrow> Inl (corruption (''WAL record '' @ show_word seq @ '' holds an invalid image of ''
              @ display_page_id pid @ '': '' @ display_error err))
      | Inr _ \<Rightarrow> Inr ())"

fun commit_of :: "wal_record \<Rightarrow> txn_id option" where
  "commit_of (Commit txn) = Some txn"
| "commit_of (PageImage _ _ _) = None"

definition committed_txns :: "decoded_record list \<Rightarrow> txn_id set" where
  "committed_txns records = set (List.map_filter (\<lambda>r. commit_of (dr_record r)) records)"

definition all_txns :: "decoded_record list \<Rightarrow> txn_id set" where
  "all_txns records = set (map (\<lambda>r. record_txn (dr_record r)) records)"

text \<open>The loop that fills \<^verbatim>\<open>latest\<close>.\<close>

fun collect_latest :: "txn_id set \<Rightarrow> decoded_record list \<Rightarrow> (page_id, page) btree_map \<Rightarrow>
    ((page_id, page) btree_map) result" where
  "collect_latest committed [] latest = Inr latest"
| "collect_latest committed (decoded # records) latest =
     (case dr_record decoded of
        PageImage txn pid page \<Rightarrow>
          if txn \<in> committed then
            (case validate_image pid page (dr_seq decoded) of
               Inl e \<Rightarrow> Inl e
             | Inr _ \<Rightarrow> collect_latest committed records (bt_insert pid page latest))
          else collect_latest committed records latest
      | Commit _ \<Rightarrow> collect_latest committed records latest)"

definition write_latest :: "path \<Rightarrow> (page_id, page) btree_map \<Rightarrow> (os, error, unit) prog" where
  "write_latest data_path latest =
     (if latest \<noteq> [] then
        and_then (try_io (open_file data_path)) (\<lambda>_.
        and_then (for_each (\<lambda>(pid, page). try_io (write_all_at data_path (as_bytes page) (unat (file_offset pid)))) latest) (\<lambda>_.
        try_io (sync_all data_path)))
      else ok ())"

definition replay :: "path \<Rightarrow> decoded_record list \<Rightarrow> (os, error, recovery_stats) prog" where
  "replay data_path records =
     (let committed = committed_txns records; all = all_txns records in
      and_then (lift_res (collect_latest committed records [])) (\<lambda>latest.
      and_then (write_latest data_path latest) (\<lambda>_.
      ok \<lparr>rs_committed_txns = card committed, rs_incomplete_txns = card all - card committed,
          rs_pages_restored = length latest\<rparr>)))"

section \<open>The latest committed images\<close>

text \<open>What the log says about the pages: the last image of each whose transaction is committed.\<close>

definition committed_in :: "wal_record list \<Rightarrow> txn_id \<Rightarrow> bool" where
  "committed_in rs txn \<longleftrightarrow> Commit txn \<in> set rs"

fun images :: "(txn_id \<Rightarrow> bool) \<Rightarrow> wal_record list \<Rightarrow> (page_id \<times> page) list" where
  "images com [] = []"
| "images com (PageImage txn pid page # rs) = (if com txn then (pid, page) # images com rs else images com rs)"
| "images com (Commit _ # rs) = images com rs"

definition redo :: "wal_record list \<Rightarrow> page_id \<Rightarrow> page option" where
  "redo rs = map_of (rev (images (committed_in rs) rs))"

definition image_ok :: "page_id \<times> page \<Rightarrow> bool" where
  "image_ok ip \<longleftrightarrow> (case ip of (pid, page) \<Rightarrow>
     if pid = HEADER then is_ok (decode_file_header page) else valid_page pid page)"

lemma validate_image_ok: "validate_image pid page seq = Inr () \<longleftrightarrow> image_ok (pid, page)"
  by (auto simp: validate_image_def image_ok_def valid_page_def is_ok_def Let_def split: sum.splits)

lemma validate_image_Inl: "\<not> image_ok (pid, page) \<Longrightarrow> \<exists>msg. validate_image pid page seq = Inl (Corruption msg)"
  using validate_image_ok [of pid page seq]
  by (auto simp: validate_image_def corruption_def Let_def split: sum.splits if_splits)

lemma commit_of_Some: "commit_of r = Some txn \<longleftrightarrow> r = Commit txn"
  by (cases r) auto

lemma committed_txns_iff: "txn \<in> committed_txns records \<longleftrightarrow> committed_in (map dr_record records) txn"
proof (induction records)
  case (Cons d ds)
  then show ?case
    by (cases "dr_record d") (auto simp: committed_txns_def committed_in_def List.map_filter_simps)
qed (simp add: committed_txns_def committed_in_def List.map_filter_simps)

lemma images_append: "images com (rs @ qs) = images com rs @ images com qs"
  by (induction com rs rule: images.induct) simp_all

lemma images_cong: "(\<And>t. t \<in> record_txn ` set rs \<Longrightarrow> com t = com' t) \<Longrightarrow> images com rs = images com' rs"
  by (induction com rs rule: images.induct) simp_all

abbreviation insert_all :: "('k::linorder \<times> 'v) list \<Rightarrow> ('k, 'v) btree_map \<Rightarrow> ('k, 'v) btree_map" where
  "insert_all xs m \<equiv> fold (\<lambda>(k, v). bt_insert k v) xs m"

lemma map_of_insert_all: "map_of (insert_all xs m) = map_of m ++ map_of (rev xs)"
  by (induction xs arbitrary: m) (auto simp: map_add_def fun_eq_iff split: option.splits)

lemma insert_all_ordered: "bt_ordered m \<Longrightarrow> bt_ordered (insert_all xs m)"
  by (induction xs arbitrary: m) auto

lemma collect_latest_ok:
  "\<forall>ip \<in> set (images (\<lambda>t. t \<in> com) (map dr_record ds)). image_ok ip \<Longrightarrow>
   collect_latest com ds m = Inr (insert_all (images (\<lambda>t. t \<in> com) (map dr_record ds)) m)"
proof (induction com ds m rule: collect_latest.induct)
  case (2 com d ds m)
  show ?case
  proof (cases "dr_record d")
    case (PageImage txn pid page)
    with 2 show ?thesis
      using validate_image_ok [of pid page "dr_seq d"] by (cases "txn \<in> com") auto
  next
    case (Commit txn)
    with 2 show ?thesis by simp
  qed
qed simp

lemma collect_latest_bad:
  "\<not> (\<forall>ip \<in> set (images (\<lambda>t. t \<in> com) (map dr_record ds)). image_ok ip) \<Longrightarrow>
   \<exists>msg. collect_latest com ds m = Inl (Corruption msg)"
proof (induction com ds m rule: collect_latest.induct)
  case (2 com d ds m)
  show ?case
  proof (cases "dr_record d")
    case (PageImage txn pid page)
    with 2 show ?thesis
      using validate_image_ok [of pid page "dr_seq d"] validate_image_Inl [of pid page "dr_seq d"]
      by (cases "image_ok (pid, page)") (auto split: sum.splits if_splits)
  next
    case (Commit txn)
    with 2 show ?thesis by simp
  qed
qed simp

definition all_images_ok :: "wal_record list \<Rightarrow> bool" where
  "all_images_ok rs \<longleftrightarrow> (\<forall>ip \<in> set (images (committed_in rs) rs). image_ok ip)"

definition latest :: "wal_record list \<Rightarrow> (page_id, page) btree_map" where
  "latest rs = insert_all (images (committed_in rs) rs) []"

lemma latest_ordered: "bt_ordered (latest rs)"
  by (simp add: latest_def insert_all_ordered)

lemma map_of_latest: "map_of (latest rs) = redo rs"
  by (simp add: latest_def redo_def map_of_insert_all)

lemma collect_latest_run:
  "collect_latest (committed_txns ds) ds [] =
     (if all_images_ok (map dr_record ds) then Inr (latest (map dr_record ds))
      else collect_latest (committed_txns ds) ds [])"
  using collect_latest_ok [of "committed_txns ds" ds "[]"]
  by (simp add: all_images_ok_def latest_def committed_txns_iff)

lemma redo_image_ok: "all_images_ok rs \<Longrightarrow> redo rs pid = Some page \<Longrightarrow> image_ok (pid, page)"
  unfolding redo_def all_images_ok_def by (metis map_of_SomeD set_rev)

section \<open>Writing the images\<close>

definition redo_bytes :: "(page_id, page) btree_map \<Rightarrow> bytes \<Rightarrow> bytes" where
  "redo_bytes m bs = fold (\<lambda>(pid, page). write_bytes (unat (file_offset pid)) (as_bytes page)) m bs"

lemma length_redo_bytes: "length bs \<le> length (redo_bytes m bs)"
proof (induction m arbitrary: bs)
  case (Cons x m)
  obtain pid page where x: "x = (pid, page)" by (cases x)
  have "length bs \<le> length (write_bytes (unat (file_offset pid)) (as_bytes page) bs)" by simp
  also have "\<dots> \<le> length (redo_bytes (x # m) bs)"
    using Cons [of "write_bytes (unat (file_offset pid)) (as_bytes page) bs"] by (simp add: redo_bytes_def x)
  finally show ?case .
qed (simp add: redo_bytes_def)

lemma redo_bytes_other:
  assumes "\<forall>pid \<in> fst ` set m. no_wrap pid \<and> unat (raw pid) \<noteq> n" and "n * 4096 + 4096 \<le> length bs"
  shows "file_page n (redo_bytes m bs) = file_page n bs"
  using assms
proof (induction m arbitrary: bs)
  case (Cons x m)
  obtain pid page where x: "x = (pid, page)" by (cases x)
  let ?bs = "write_bytes (unat (file_offset pid)) (as_bytes page) bs"
  have "file_page n (redo_bytes (x # m) bs) = file_page n (redo_bytes m ?bs)"
    by (simp add: redo_bytes_def x)
  also have "\<dots> = file_page n ?bs" using Cons.prems by (intro Cons.IH) auto
  also have "\<dots> = file_page n bs"
    using Cons.prems x by (auto simp: file_offset_nat intro!: file_page_write_other)
  finally show ?case .
qed (simp add: redo_bytes_def)

lemma redo_bytes_same:
  assumes "distinct (map fst m)" and "\<forall>pid \<in> fst ` set m. no_wrap pid" and "(pid, page) \<in> set m"
  shows "file_page (unat (raw pid)) (redo_bytes m bs) = as_bytes page
    \<and> unat (raw pid) * 4096 + 4096 \<le> length (redo_bytes m bs)"
  using assms
proof (induction m arbitrary: bs)
  case (Cons x m)
  obtain pid' page' where x: "x = (pid', page')" by (cases x)
  let ?bs = "write_bytes (unat (file_offset pid')) (as_bytes page') bs"
  have step: "redo_bytes (x # m) bs = redo_bytes m ?bs" by (simp add: redo_bytes_def x)
  show ?case
  proof (cases "(pid, page) = x")
    case True
    then have len: "unat (raw pid) * 4096 + 4096 \<le> length ?bs"
      using Cons.prems(2) x by (simp add: file_offset_nat)
    have "pid'' \<noteq> pid" if "pid'' \<in> fst ` set m" for pid'' using that Cons.prems(1) True x by auto
    with Cons.prems(2) page_ids_differ have "file_page (unat (raw pid)) (redo_bytes m ?bs) = file_page (unat (raw pid)) ?bs"
      by (intro redo_bytes_other len) auto
    moreover have "file_page (unat (raw pid)) ?bs = as_bytes page"
      using True x Cons.prems(2) by (simp add: file_offset_nat file_page_write_same)
    ultimately show ?thesis using step le_trans [OF len length_redo_bytes [of ?bs m]] by simp
  next
    case False
    with Cons step show ?thesis by simp
  qed
qed simp

lemma write_images_run:
  assumes "healthy s" and "files s p = Some f"
  shows "\<exists>g. for_each (\<lambda>(pid, page). try_io (write_all_at p (as_bytes page) (unat (file_offset pid)))) m s =
      (Inr (), with_file p g s) \<and> contents g = redo_bytes m (contents f) \<and> f_unsure g = f_unsure f"
  using assms
proof (induction m arbitrary: s f)
  case Nil
  then show ?case
    by (intro exI [of _ f]) (simp add: ok_def redo_bytes_def with_file_def fun_upd_idem)
next
  case (Cons x m)
  obtain pid page where x: "x = (pid, page)" by (cases x)
  let ?f = "add_op (Write (unat (file_offset pid)) (as_bytes page)) f"
  have wr: "write_all_at p (as_bytes page) (unat (file_offset pid)) s = (Inr (), with_file p ?f s)"
    using Cons.prems by (simp add: write_all_at_def os_simps)
  have "healthy (with_file p ?f s)" "files (with_file p ?f s) p = Some ?f" using Cons.prems by simp_all
  from Cons.IH [OF this] obtain g where
    "for_each (\<lambda>(pid, page). try_io (write_all_at p (as_bytes page) (unat (file_offset pid)))) m (with_file p ?f s) =
      (Inr (), with_file p g s)" "contents g = redo_bytes m (contents ?f)" "f_unsure g = f_unsure f"
    by auto
  with wr x show ?case by (auto simp: prog_simps redo_bytes_def)
qed

lemma write_latest_run:
  assumes "healthy s" and "files s p = Some f" and "\<not> f_unsure f"
  shows "write_latest p m s =
    (Inr (), if m = [] then s else with_file p (disk_file (redo_bytes m (contents f))) s)"
proof (cases "m = []")
  case False
  from write_images_run [OF assms(1,2), of m] obtain g where
    w: "for_each (\<lambda>(pid, page). try_io (write_all_at p (as_bytes page) (unat (file_offset pid)))) m s =
      (Inr (), with_file p g s)" and g: "contents g = redo_bytes m (contents f)" "\<not> f_unsure g"
    using assms(3) by auto
  have "open_file p s = (Inr (), s)" using assms by (simp add: open_file_def os_simps)
  moreover have "sync_all p (with_file p g s) = (Inr (), with_file p (disk_file (redo_bytes m (contents f))) s)"
    using assms g by (simp add: sync_all_def os_simps sync_file_eq)
  ultimately show ?thesis using False w by (simp add: write_latest_def prog_simps)
qed (simp add: write_latest_def ok_def)

lemma replay_run:
  assumes "healthy s" and "files s p = Some f" and "\<not> f_unsure f" and "all_images_ok (map dr_record ds)"
  defines "m \<equiv> latest (map dr_record ds)"
  shows "replay p ds s =
    (Inr \<lparr>rs_committed_txns = card (committed_txns ds),
          rs_incomplete_txns = card (all_txns ds) - card (committed_txns ds), rs_pages_restored = length m\<rparr>,
     if m = [] then s else with_file p (disk_file (redo_bytes m (contents f))) s)"
  using collect_latest_run [of ds] write_latest_run [OF assms(1-3), of m] assms(4)
  by (auto simp: replay_def prog_simps m_def Let_def)

section \<open>Replay, whatever the system does\<close>

lemma write_images_any:
  assumes "for_each (\<lambda>(pid, page). try_io (write_all_at p (as_bytes page) (unat (file_offset pid)))) m s = (r, s')"
    and "files s p = Some f" and "survives P f"
    and "\<forall>(pid, page) \<in> set m. write_closed P (unat (file_offset pid)) (as_bytes page)"
  shows "\<exists>g. files s' = (files s)(p \<mapsto> g) \<and> named s' = named s \<and> set (script s') \<subseteq> set (script s) \<and> survives P g
    \<and> (r = Inr () \<longrightarrow> contents g = redo_bytes m (contents f) \<and> f_unsure g = f_unsure f)"
  using assms
proof (induction m arbitrary: s f)
  case Nil
  then show ?case by (intro exI [of _ f]) (auto simp: ok_def redo_bytes_def fun_upd_idem)
next
  case (Cons x m)
  obtain pid page where x: "x = (pid, page)" by (cases x)
  obtain r1 s1 where wr: "write_all_at p (as_bytes page) (unat (file_offset pid)) s = (r1, s1)" by fastforce
  have cl: "write_closed P (unat (file_offset pid)) (as_bytes page)" using Cons.prems(4) x by auto
  from wr Cons.prems(2,3) cl obtain g where g: "files s1 = (files s)(p \<mapsto> g)" "named s1 = named s"
    "set (script s1) \<subseteq> set (script s)" "survives P g" "f_unsure g = f_unsure f"
    "r1 = Inr () \<Longrightarrow> g = add_op (Write (unat (file_offset pid)) (as_bytes page)) f"
    by (rule write_all_any) blast
  show ?case
  proof (cases r1)
    case (Inl e)
    with Cons.prems(1) wr x g(1-4) show ?thesis by (auto simp: prog_simps)
  next
    case (Inr u)
    then have rest: "for_each (\<lambda>(pid, page). try_io (write_all_at p (as_bytes page) (unat (file_offset pid)))) m s1 = (r, s')"
      using Cons.prems(1) wr x by (simp add: prog_simps)
    from g(1) have "files s1 p = Some g" by simp
    moreover have "\<forall>(pid, page) \<in> set m. write_closed P (unat (file_offset pid)) (as_bytes page)"
      using Cons.prems(4) by simp
    ultimately obtain h where h: "files s' = (files s1)(p \<mapsto> h)"
      "named s' = named s1" "set (script s') \<subseteq> set (script s1)" "survives P h"
      "r = Inr () \<longrightarrow> contents h = redo_bytes m (contents g) \<and> f_unsure h = f_unsure g"
      using Cons.IH [OF rest _ g(4)] by blast
    have "contents g = write_bytes (unat (file_offset pid)) (as_bytes page) (contents f)" using g(6) Inr by simp
    with h g(1-5) show ?thesis by (intro exI [of _ h]) (auto simp: redo_bytes_def x)
  qed
qed

lemma write_latest_any:
  assumes "write_latest p m s = (r, s')" and "files s p = Some f" and "survives P f"
    and "\<forall>(pid, page) \<in> set m. write_closed P (unat (file_offset pid)) (as_bytes page)"
  shows "\<exists>g. files s' = (files s)(p \<mapsto> g) \<and> named s' = named s \<and> set (script s') \<subseteq> set (script s) \<and> survives P g
    \<and> (r = Inr () \<longrightarrow> contents g = redo_bytes m (contents f)
         \<and> (if m = [] then g = f else \<not> f_unsure f \<longrightarrow> g = disk_file (redo_bytes m (contents f))))"
proof (cases "m = []")
  case True
  with assms show ?thesis
    by (intro exI [of _ f]) (auto simp: write_latest_def ok_def redo_bytes_def fun_upd_idem)
next
  case False
  obtain r0 s0 where op: "open_file p s = (r0, s0)" by fastforce
  have s0: "files s0 = files s" "named s0 = named s" "set (script s0) \<subseteq> set (script s)"
    using io_read_same [OF op [unfolded open_file_def]] io_read_script [OF op [unfolded open_file_def]]
    by (simp_all add: same_disk_def)
  show ?thesis
  proof (cases r0)
    case (Inl e)
    with False op assms(1) have "s' = s0" "r = Inl (Io e)"
      by (auto simp: write_latest_def prog_simps)
    with s0 assms(2,3) show ?thesis by (intro exI [of _ f]) (simp add: fun_upd_idem)
  next
    case (Inr u)
    obtain r1 s1 where w: "for_each (\<lambda>(pid, page). try_io (write_all_at p (as_bytes page) (unat (file_offset pid)))) m s0 = (r1, s1)"
      by fastforce
    from s0 assms(2) have "files s0 p = Some f" by simp
    from write_images_any [OF w this assms(3,4)] obtain g where g: "files s1 = (files s)(p \<mapsto> g)" "named s1 = named s"
      "set (script s1) \<subseteq> set (script s)" "survives P g"
      "r1 = Inr () \<longrightarrow> contents g = redo_bytes m (contents f) \<and> f_unsure g = f_unsure f" using s0 by auto
    show ?thesis
    proof (cases r1)
      case (Inl e)
      with False op Inr assms(1) w have "s' = s1" "r = Inl e"
        by (auto simp: write_latest_def prog_simps)
      with g show ?thesis by auto
    next
      case (Inr u')
      with False op \<open>r0 = Inr u\<close> assms(1) w have last: "try_io (sync_all p) s1 = (r, s')"
        by (simp add: write_latest_def prog_simps)
      obtain r2 where sy: "sync_all p s1 = (r2, s')" and r: "r = Inr () \<Longrightarrow> r2 = Inr ()"
        using last by (auto simp: try_io_def split: prod.splits sum.splits)
      from g(1) have "files s1 p = Some g" by simp
      from sync_any [OF sy this g(4)] obtain h where h: "files s' = (files s1)(p \<mapsto> h)" "named s' = named s1"
        "set (script s') \<subseteq> set (script s1)" "survives P h" "r2 = Inr () \<Longrightarrow> h = sync_file g" "contents h = contents g"
        by blast
      with g r Inr False show ?thesis by (intro exI [of _ h]) (auto simp: sync_file_eq)
    qed
  qed
qed

lemma replay_any:
  assumes "replay p ds s = (r, s')" and "files s p = Some f" and "survives P f"
    and "\<forall>(pid, page) \<in> set (latest (map dr_record ds)). write_closed P (unat (file_offset pid)) (as_bytes page)"
  shows "\<exists>g. files s' = (files s)(p \<mapsto> g) \<and> named s' = named s \<and> set (script s') \<subseteq> set (script s) \<and> survives P g
    \<and> (\<forall>st. r = Inr st \<longrightarrow> all_images_ok (map dr_record ds)
         \<and> contents g = redo_bytes (latest (map dr_record ds)) (contents f)
         \<and> (if latest (map dr_record ds) = [] then g = f
            else \<not> f_unsure f \<longrightarrow> g = disk_file (redo_bytes (latest (map dr_record ds)) (contents f))))"
proof (cases "all_images_ok (map dr_record ds)")
  case True
  let ?m = "latest (map dr_record ds)"
  obtain r1 s1 where w: "write_latest p ?m s = (r1, s1)" by fastforce
  have c: "collect_latest (committed_txns ds) ds [] = Inr ?m" using collect_latest_run [of ds] True by simp
  from write_latest_any [OF w assms(2-4)] obtain g where g: "files s1 = (files s)(p \<mapsto> g)" "named s1 = named s"
    "set (script s1) \<subseteq> set (script s)" "survives P g" "r1 = Inr () \<longrightarrow> contents g = redo_bytes ?m (contents f)
       \<and> (if ?m = [] then g = f else \<not> f_unsure f \<longrightarrow> g = disk_file (redo_bytes ?m (contents f)))" by blast
  have "s' = s1" "\<And>st. r = Inr st \<Longrightarrow> r1 = Inr ()"
    using assms(1) c w by (auto simp: replay_def and_then_def lift_res_def ok_def Let_def split: sum.splits)
  with g True show ?thesis by (intro exI [of _ g]) auto
next
  case False
  then obtain msg where "collect_latest (committed_txns ds) ds [] = Inl (Corruption msg)"
    using collect_latest_bad [of "committed_txns ds" ds "[]"] by (auto simp: all_images_ok_def committed_txns_iff)
  with assms show ?thesis
    by (intro exI [of _ f]) (auto simp: replay_def and_then_def lift_res_def Let_def fun_upd_idem)
qed

text \<open>Pages the log has no image of are safe from replay; it never writes anywhere else.\<close>

lemma replay_page_closed:
  assumes "redo rs pid' = None" and "\<forall>pid \<in> dom (redo rs). no_wrap pid" and "(pid, page) \<in> set (latest rs)"
  shows "write_closed (page_at (unat (raw pid')) q) (unat (file_offset pid)) (as_bytes page)"
proof -
  have "redo rs pid = Some page"
    using assms(3) latest_ordered [of rs] bt_ordered_distinct map_of_latest [of rs] by (metis map_of_is_SomeI)
  with assms(1,2) have "pid' \<noteq> pid" "no_wrap pid" by auto
  then show ?thesis using page_ids_differ [of pid' pid] by (simp add: file_offset_nat page_at_other_closed)
qed

lemma redo_bytes_latest:
  assumes "\<forall>pid \<in> dom (redo rs). no_wrap pid"
  shows "redo rs pid = Some page \<Longrightarrow> page_at (unat (raw pid)) page (redo_bytes (latest rs) bs)"
    and "redo rs pid = None \<Longrightarrow> page_at (unat (raw pid)) page bs \<Longrightarrow> page_at (unat (raw pid)) page (redo_bytes (latest rs) bs)"
proof -
  have keys: "fst ` set (latest rs) = dom (redo rs)" by (metis dom_map_of_conv_image_fst map_of_latest)
  have dist: "distinct (map fst (latest rs))" by (simp add: latest_ordered bt_ordered_distinct)
  show "page_at (unat (raw pid)) page (redo_bytes (latest rs) bs)" if "redo rs pid = Some page"
  proof -
    have "(pid, page) \<in> set (latest rs)" using that by (metis map_of_SomeD map_of_latest)
    with redo_bytes_same [OF dist] assms keys show ?thesis by (simp add: page_at_def)
  qed
  show "page_at (unat (raw pid)) page (redo_bytes (latest rs) bs)"
    if "redo rs pid = None" "page_at (unat (raw pid)) page bs"
  proof -
    have "\<forall>q \<in> fst ` set (latest rs). no_wrap q \<and> unat (raw q) \<noteq> unat (raw pid)"
    proof
      fix q assume "q \<in> fst ` set (latest rs)"
      then have "q \<in> dom (redo rs)" using keys by simp
      then have "no_wrap q" "q \<noteq> pid" using assms that(1) by auto
      then show "no_wrap q \<and> unat (raw q) \<noteq> unat (raw pid)" using page_ids_differ by blast
    qed
    with that(2) redo_bytes_other [of "latest rs" "unat (raw pid)" bs] length_redo_bytes [of bs "latest rs"]
    show ?thesis by (simp add: page_at_def)
  qed
qed

lemma replay_restores:
  assumes "healthy s" and "files s p = Some f" and "\<not> f_unsure f" and "all_images_ok (map dr_record ds)"
    and "\<forall>pid \<in> dom (redo (map dr_record ds)). no_wrap pid"
  shows "\<exists>st s' g. replay p ds s = (Inr st, s') \<and> files s' p = Some g
    \<and> (\<forall>pid page. redo (map dr_record ds) pid = Some page \<longrightarrow> page_at (unat (raw pid)) page (contents g))
    \<and> (\<forall>pid page. redo (map dr_record ds) pid = None \<longrightarrow> page_at (unat (raw pid)) page (contents f) \<longrightarrow>
         page_at (unat (raw pid)) page (contents g))
    \<and> rs_pages_restored st = card (dom (redo (map dr_record ds)))
    \<and> (g = f \<and> dom (redo (map dr_record ds)) = {} \<or> g = disk_file (contents g))"
proof -
  let ?rs = "map dr_record ds"
  have "length (latest ?rs) = card (dom (redo ?rs))"
    using bt_ordered_distinct [OF latest_ordered, of ?rs] distinct_card [of "map fst (latest ?rs)"]
    by (simp add: dom_map_of_conv_image_fst flip: map_of_latest)
  moreover have "latest ?rs = [] \<longleftrightarrow> dom (redo ?rs) = {}"
    by (metis dom_map_of_conv_image_fst image_is_empty map_of_latest set_empty)
  moreover have "page_at (unat (raw pid)) page (contents f)"
    if "redo ?rs = Map.empty" "redo ?rs pid = Some page" for pid page using that by simp
  ultimately show ?thesis
    using replay_run [OF assms(1-4)] redo_bytes_latest [OF assms(5), of _ _ "contents f"] assms(2)
    by (cases "latest ?rs = []") auto
qed

section \<open>Properties\<close>

text \<open>
  C19: Replay on a working system restores exactly what the log says. Every page with an image of a
  committed transaction holds the last such image, every other page is as it was, the number of
  pages restored is the number of pages the log has committed images of, and the data file is
  durable when replay has written to it.
\<close>
theorem replay_restores_latest_committed:
  assumes "healthy s" and "files s p = Some f" and "\<not> f_unsure f" and "all_images_ok (map dr_record ds)"
    and "\<forall>pid \<in> dom (redo (map dr_record ds)). no_wrap pid"
  shows "\<exists>st s' g. replay p ds s = (Inr st, s') \<and> files s' p = Some g
    \<and> (\<forall>pid page. redo (map dr_record ds) pid = Some page \<longrightarrow> page_at (unat (raw pid)) page (contents g))
    \<and> (\<forall>pid page. redo (map dr_record ds) pid = None \<longrightarrow> page_at (unat (raw pid)) page (contents f) \<longrightarrow>
         page_at (unat (raw pid)) page (contents g))
    \<and> rs_pages_restored st = card (dom (redo (map dr_record ds)))
    \<and> (g = f \<and> dom (redo (map dr_record ds)) = {} \<or> g = disk_file (contents g))"
  using assms by (rule replay_restores)

definition example_page :: page where
  "example_page = seal (page_new (PageId 1) Heap)"

definition example_records :: "decoded_record list" where
  "example_records = numbered 0
     [PageImage (TxnId 1) (PageId 1) example_page, Commit (TxnId 1), PageImage (TxnId 2) (PageId 2) zeroed]"

lemma example_images: "images (committed_in (map dr_record example_records)) (map dr_record example_records) =
    [(PageId 1, example_page)]"
  by (simp add: example_records_def committed_in_def)

lemma example_all_ok: "all_images_ok (map dr_record example_records)"
  by (simp only: all_images_ok_def example_images)
    (simp add: image_ok_def example_page_def HEADER_def valid_new_page)

lemma example_no_wrap: "\<forall>pid \<in> dom (redo (map dr_record example_records)). no_wrap pid"
  by (simp only: redo_def example_images) (simp add: no_wrap_def)

theorem replay_restores_latest_committed_witness:
  "\<exists>st s' g. replay (dk_file example_disk) example_records (example_os (replicate 4096 0)) = (Inr st, s')
    \<and> files s' (dk_file example_disk) = Some g \<and> page_at 1 example_page (contents g)"
proof -
  have "redo (map dr_record example_records) (PageId 1) = Some example_page"
    by (simp only: redo_def example_images) simp
  then show ?thesis
    using replay_restores_latest_committed [OF example_healthy example_file _ example_all_ok example_no_wrap]
    by (metis f_unsure_simps(3) page_id.sel unsigned_1)
qed

text \<open>
  C20: Recovery may itself be interrupted. Whatever fails during replay and wherever the power
  goes, replaying the same log again succeeds, restores the latest committed image of every page in
  it and keeps every other page as it was before the first attempt; torn pages and a torn header
  are repaired on the way.
\<close>
theorem replay_survives_interruption:
  assumes "files s p = Some (disk_file bs)" and "named s p" and "all_images_ok (map dr_record ds)"
    and "\<forall>pid \<in> dom (redo (map dr_record ds)). no_wrap pid"
    and "replay p ds s = (r, s')" and "crash_os s' c" and "script c = []"
  shows "\<exists>st c' g. replay p ds c = (Inr st, c') \<and> files c' p = Some g
    \<and> (\<forall>pid page. redo (map dr_record ds) pid = Some page \<longrightarrow> page_at (unat (raw pid)) page (contents g))
    \<and> (\<forall>pid page. redo (map dr_record ds) pid = None \<longrightarrow> page_at (unat (raw pid)) page bs \<longrightarrow>
         page_at (unat (raw pid)) page (contents g))"
proof -
  let ?rs = "map dr_record ds"
  have up: "healthy c" using assms(6,7) by (simp add: crash_os_def healthy_def)
  have "survives (\<lambda>_. True) (disk_file bs)" by (simp add: survives_def)
  from replay_any [OF assms(5,1) this] obtain f where f: "files s' p = Some f" and n: "named s' p"
    using assms(2) by (auto simp: write_closed_def)
  from crash_os_file [OF assms(6) n f] obtain bs' where bs': "files c p = Some (disk_file bs')"
    "persists (f_base f) (f_ops f) bs'" .
  have kept: "page_at (unat (raw pid)) page bs'" if "redo ?rs pid = None" "page_at (unat (raw pid)) page bs" for pid page
  proof -
    have "survives (page_at (unat (raw pid)) page) (disk_file bs)" using that(2) by (simp add: survives_synced)
    from replay_any [OF assms(5,1) this] replay_page_closed [OF that(1) assms(4)] f
    have "survives (page_at (unat (raw pid)) page) f" by fastforce
    with bs'(2) show ?thesis by (simp add: survives_def)
  qed
  from replay_restores [OF up bs'(1) _ assms(3,4)] kept show ?thesis
    by (metis contents_disk_file f_unsure_simps(3))
qed

theorem replay_survives_interruption_witness:
  "\<exists>r s'. replay (dk_file example_disk) example_records (example_os (replicate 4096 0)\<lparr>script := [Done, Crash]\<rparr>) = (r, s')
    \<and> (\<forall>c. crash_os s' c \<and> script c = [] \<longrightarrow>
        (\<exists>st c' g. replay (dk_file example_disk) example_records c = (Inr st, c')
           \<and> files c' (dk_file example_disk) = Some g \<and> page_at 1 example_page (contents g)))"
proof -
  let ?s = "example_os (replicate 4096 0)\<lparr>script := [Done, Crash]\<rparr>"
  obtain r s' where run: "replay (dk_file example_disk) example_records ?s = (r, s')" by fastforce
  have img: "redo (map dr_record example_records) (PageId 1) = Some example_page"
    by (simp only: redo_def example_images) simp
  have "\<exists>st c' g. replay (dk_file example_disk) example_records c = (Inr st, c')
      \<and> files c' (dk_file example_disk) = Some g \<and> page_at 1 example_page (contents g)"
    if "crash_os s' c" "script c = []" for c
  proof -
    have "files ?s (dk_file example_disk) = Some (disk_file (replicate 4096 0))" "named ?s (dk_file example_disk)"
      by (simp_all add: example_os_def example_disk_def)
    from replay_survives_interruption [OF this example_all_ok example_no_wrap run that] img show ?thesis
      by (metis page_id.sel unsigned_1)
  qed
  with run show ?thesis by blast
qed

text \<open>
  If any image of a committed transaction is not a valid page for its place, replay reports
  corruption and touches nothing.
\<close>
theorem replay_refuses_invalid_images:
  assumes "\<not> all_images_ok (map dr_record ds)"
  shows "\<exists>msg. replay p ds s = (Inl (Corruption msg), s)"
  using assms collect_latest_bad [of "committed_txns ds" ds "[]"]
  by (auto simp: all_images_ok_def committed_txns_iff replay_def and_then_def lift_res_def Let_def)

text \<open>
  The statistics add up: the transactions of the log are those reported as committed and
  those reported as incomplete, and the subtraction that counts the latter does not underflow.
\<close>
theorem replay_counts_transactions:
  assumes "replay p ds s = (Inr st, s')"
  shows "rs_committed_txns st = card {t. Commit t \<in> set (map dr_record ds)}
    \<and> rs_committed_txns st + rs_incomplete_txns st = card (record_txn ` set (map dr_record ds))"
proof -
  have com: "committed_txns ds = {t. Commit t \<in> set (map dr_record ds)}"
    using committed_txns_iff [of _ ds] by (auto simp: committed_in_def)
  have sub: "committed_txns ds \<subseteq> all_txns ds"
    unfolding com all_txns_def by (auto simp: image_iff) (metis record_txn.simps(2))
  have "card (committed_txns ds) \<le> card (all_txns ds)"
    using sub by (intro card_mono) (simp_all add: all_txns_def)
  moreover have "rs_committed_txns st = card (committed_txns ds)"
    "rs_incomplete_txns st = card (all_txns ds) - card (committed_txns ds)"
    using assms by (auto simp: replay_def and_then_eq_Inr ok_def Let_def)
  moreover have "all_txns ds = record_txn ` set (map dr_record ds)" by (auto simp: all_txns_def)
  ultimately show ?thesis by (simp only: com) simp
qed

theorem replay_counts_transactions_witness:
  "\<exists>st s'. replay [] (numbered 0 [Commit (TxnId 1)]) (example_os []) = (Inr st, s')
    \<and> rs_committed_txns st = 1 \<and> rs_incomplete_txns st = 0"
proof -
  have "\<exists>st s'. replay [] (numbered 0 [Commit (TxnId 1)]) (example_os []) = (Inr st, s')"
    by (simp add: replay_def and_then_def lift_res_def write_latest_def ok_def Let_def)
  then obtain st s' where run: "replay [] (numbered 0 [Commit (TxnId 1)]) (example_os []) = (Inr st, s')" by blast
  with replay_counts_transactions [OF run] show ?thesis by auto
qed

end
