(* ===== verification/Buffer_Pool.thy ===== *)
theory Buffer_Pool
  imports Data_Crash
begin

text \<open>
  The buffer pool (\<^verbatim>\<open>storage/buffer_pool.rs\<close>): a fixed number of frames in front of the disk
  manager, split into shards. The disk manager is shared (\<^verbatim>\<open>Arc\<close>), so it is an argument of the
  operations; a shard together with the system is the state they run on. The page table is the
  list of its entries, in whatever order the hash map iterates over them.
\<close>

section \<open>Definitions\<close>

definition HASH_MULTIPLIER :: u64 where
  "HASH_MULTIPLIER = 0x9E3779B97F4A7C15"

text \<open>\<^verbatim>\<open>PageIdHasher\<close>: the state after \<^verbatim>\<open>write_u64\<close>, and after \<^verbatim>\<open>write\<close> from state \<open>h\<close>.\<close>

definition hash_write_u64 :: "u64 \<Rightarrow> u64" where
  "hash_write_u64 value = value * HASH_MULTIPLIER"

definition hash_write :: "u64 \<Rightarrow> bytes \<Rightarrow> u64" where
  "hash_write h bytes = fold (\<lambda>byte h. xor (word_rotl 5 h) (ucast byte) * HASH_MULTIPLIER) bytes h"

record frame =
  fr_page :: page
  fr_dirty :: bool

record shard =
  sh_frames :: "frame list"
  sh_page_table :: "(page_id \<times> nat) list"
  sh_frame_pages :: "page_id option list"
  sh_pin_counts :: "u32 list"
  sh_ref_bits :: "bool list"
  sh_clock_hand :: nat
  sh_free_frames :: "nat list"

record page_handle =
  ph_frame_id :: nat
  ph_page_id :: page_id

text \<open>\<^verbatim>\<open>HashMap::insert\<close> and \<^verbatim>\<open>HashMap::remove\<close>\<close>

definition table_insert :: "page_id \<Rightarrow> nat \<Rightarrow> (page_id \<times> nat) list \<Rightarrow> (page_id \<times> nat) list" where
  "table_insert pid frame_id t = (pid, frame_id) # filter (\<lambda>e. fst e \<noteq> pid) t"

definition table_remove :: "page_id \<Rightarrow> (page_id \<times> nat) list \<Rightarrow> (page_id \<times> nat) list" where
  "table_remove pid t = filter (\<lambda>e. fst e \<noteq> pid) t"

definition shard_new :: "nat \<Rightarrow> shard" where
  "shard_new capacity =
     \<lparr>sh_frames = replicate capacity \<lparr>fr_page = zeroed, fr_dirty = False\<rparr>,
      sh_page_table = [], sh_frame_pages = replicate capacity None,
      sh_pin_counts = replicate capacity 0, sh_ref_bits = replicate capacity False,
      sh_clock_hand = 0, sh_free_frames = rev [0..<capacity]\<rparr>"

definition pin :: "nat \<Rightarrow> shard \<Rightarrow> shard" where
  "pin frame_id sh = sh\<lparr>sh_pin_counts := (sh_pin_counts sh)[frame_id := sh_pin_counts sh ! frame_id + 1]\<rparr>"

definition unpin :: "nat \<Rightarrow> shard \<Rightarrow> shard" where
  "unpin frame_id sh = sh\<lparr>sh_pin_counts := (sh_pin_counts sh)[frame_id := sh_pin_counts sh ! frame_id - 1]\<rparr>"

definition set_ref :: "nat \<Rightarrow> bool \<Rightarrow> shard \<Rightarrow> shard" where
  "set_ref frame_id b sh = sh\<lparr>sh_ref_bits := (sh_ref_bits sh)[frame_id := b]\<rparr>"

definition set_frame :: "nat \<Rightarrow> frame \<Rightarrow> shard \<Rightarrow> shard" where
  "set_frame frame_id fr sh = sh\<lparr>sh_frames := (sh_frames sh)[frame_id := fr]\<rparr>"

text \<open>The loop of \<^verbatim>\<open>find_victim\<close>, for the given number of iterations.\<close>

fun clock_sweep :: "nat \<Rightarrow> shard \<Rightarrow> nat option \<times> shard" where
  "clock_sweep 0 sh = (None, sh)"
| "clock_sweep (Suc n) sh =
     (let frame_id = sh_clock_hand sh;
          sh = sh\<lparr>sh_clock_hand := (sh_clock_hand sh + 1) mod length (sh_frame_pages sh)\<rparr>
      in if sh_pin_counts sh ! frame_id > 0 then clock_sweep n sh
         else if sh_ref_bits sh ! frame_id then clock_sweep n (set_ref frame_id False sh)
         else (Some frame_id, sh))"

definition find_victim :: "shard \<Rightarrow> nat option \<times> shard" where
  "find_victim sh = clock_sweep (2 * length (sh_frame_pages sh)) sh"

definition write_back :: "disk_manager \<Rightarrow> nat \<Rightarrow> page_id \<Rightarrow> (shard \<times> os, error, unit) prog" where
  "write_back d frame_id pid ss =
     (case ss of (sh, s) \<Rightarrow>
      let frame = sh_frames sh ! frame_id in
      if fr_dirty frame then
        (case disk_write_page d pid (fr_page frame, s) of
           (Inl e, (page, s')) \<Rightarrow> (Inl e, (set_frame frame_id (frame\<lparr>fr_page := page\<rparr>) sh, s'))
         | (Inr _, (page, s')) \<Rightarrow> (Inr (), (set_frame frame_id \<lparr>fr_page = page, fr_dirty = False\<rparr> sh, s')))
      else (Inr (), (sh, s)))"

definition acquire_frame :: "disk_manager \<Rightarrow> (shard \<times> os, error, nat) prog" where
  "acquire_frame d ss =
     (case ss of (sh, s) \<Rightarrow>
      if sh_free_frames sh \<noteq> []
      then (Inr (last (sh_free_frames sh)), (sh\<lparr>sh_free_frames := butlast (sh_free_frames sh)\<rparr>, s))
      else case find_victim sh of
        (None, sh) \<Rightarrow> (Inl (ResourceExhausted (''all '' @ show_nat (length (sh_frames sh))
            @ '' frames in a buffer pool shard are pinned'')), (sh, s))
      | (Some victim, sh) \<Rightarrow>
          let old_id = the (sh_frame_pages sh ! victim) in
          case write_back d victim old_id (sh, s) of
            (Inl e, ss') \<Rightarrow> (Inl e, ss')
          | (Inr _, (sh', s')) \<Rightarrow>
              (Inr victim, (sh'\<lparr>sh_page_table := table_remove old_id (sh_page_table sh'),
                 sh_frame_pages := (sh_frame_pages sh')[victim := None]\<rparr>, s')))"

definition shard_fetch_page :: "disk_manager \<Rightarrow> page_id \<Rightarrow> (shard \<times> os, error, page_handle) prog" where
  "shard_fetch_page d pid ss =
     (case map_of (sh_page_table (fst ss)) pid of
        Some frame_id \<Rightarrow>
          (Inr \<lparr>ph_frame_id = frame_id, ph_page_id = pid\<rparr>,
           (set_ref frame_id True (pin frame_id (fst ss)), snd ss))
      | None \<Rightarrow>
          and_then (acquire_frame d) (\<lambda>frame_id (sh, s).
            case disk_read_page d pid s of
              (Inl err, s') \<Rightarrow> (Inl err, (sh\<lparr>sh_free_frames := sh_free_frames sh @ [frame_id]\<rparr>, s'))
            | (Inr page, s') \<Rightarrow>
                let sh = set_frame frame_id \<lparr>fr_page = page, fr_dirty = False\<rparr> sh;
                    sh = sh\<lparr>sh_page_table := table_insert pid frame_id (sh_page_table sh)\<rparr>;
                    sh = sh\<lparr>sh_frame_pages := (sh_frame_pages sh)[frame_id := Some pid]\<rparr>;
                    sh = sh\<lparr>sh_pin_counts := (sh_pin_counts sh)[frame_id := 1]\<rparr>;
                    sh = set_ref frame_id True sh
                in (Inr \<lparr>ph_frame_id = frame_id, ph_page_id = pid\<rparr>, (sh, s'))) ss)"

definition shard_install_page :: "disk_manager \<Rightarrow> page_id \<Rightarrow> page \<Rightarrow> (shard \<times> os, error, unit) prog" where
  "shard_install_page d pid page ss =
     (case map_of (sh_page_table (fst ss)) pid of
        Some frame_id \<Rightarrow>
          let sh = set_ref frame_id True (pin frame_id (fst ss));
              sh = set_frame frame_id \<lparr>fr_page = page, fr_dirty = True\<rparr> sh
          in (Inr (), (unpin frame_id sh, snd ss))
      | None \<Rightarrow>
          and_then (acquire_frame d) (\<lambda>frame_id (sh, s).
            let sh = set_frame frame_id \<lparr>fr_page = page, fr_dirty = True\<rparr> sh;
                sh = sh\<lparr>sh_page_table := table_insert pid frame_id (sh_page_table sh)\<rparr>;
                sh = sh\<lparr>sh_frame_pages := (sh_frame_pages sh)[frame_id := Some pid]\<rparr>;
                sh = set_ref frame_id True sh
            in (Inr (), (sh, s))) ss)"

definition shard_flush_page :: "disk_manager \<Rightarrow> page_id \<Rightarrow> (shard \<times> os, error, unit) prog" where
  "shard_flush_page d pid ss =
     (case map_of (sh_page_table (fst ss)) pid of
        None \<Rightarrow> (Inr (), ss)
      | Some frame_id \<Rightarrow>
          (case write_back d frame_id pid (pin frame_id (fst ss), snd ss) of
             (r, (sh', s')) \<Rightarrow> (r, (unpin frame_id sh', s'))))"

definition flush_cached :: "disk_manager \<Rightarrow> (shard \<times> os, error, unit) prog" where
  "flush_cached d ss = for_each (shard_flush_page d) (map fst (sh_page_table (fst ss))) ss"

text \<open>A handle's guards: what \<^verbatim>\<open>read\<close> shows, and \<^verbatim>\<open>write\<close> with the change made through the guard.\<close>

definition handle_read :: "page_handle \<Rightarrow> shard \<Rightarrow> page" where
  "handle_read h sh = fr_page (sh_frames sh ! ph_frame_id h)"

definition handle_write :: "page_handle \<Rightarrow> (page \<Rightarrow> page) \<Rightarrow> shard \<Rightarrow> shard" where
  "handle_write h change sh =
     set_frame (ph_frame_id h) \<lparr>fr_page = change (handle_read h sh), fr_dirty = True\<rparr> sh"

definition handle_drop :: "page_handle \<Rightarrow> shard \<Rightarrow> shard" where
  "handle_drop h sh = unpin (ph_frame_id h) sh"

subsection \<open>The pool\<close>

type_synonym buffer_pool = "shard list"

definition TARGET_SHARD_FRAMES :: nat where
  "TARGET_SHARD_FRAMES = 64"

definition MAX_SHARDS :: nat where
  "MAX_SHARDS = 64"

fun ilog2 :: "nat \<Rightarrow> nat" where
  "ilog2 n = (if n < 2 then 0 else Suc (ilog2 (n div 2)))"

declare ilog2.simps [simp del]

definition shard_count_for :: "nat \<Rightarrow> nat" where
  "shard_count_for capacity =
     (let wanted = min (max (capacity div TARGET_SHARD_FRAMES) 1) MAX_SHARDS in 2 ^ ilog2 wanted)"

definition pool_new :: "nat \<Rightarrow> buffer_pool result" where
  "pool_new capacity =
     (if capacity = 0 then Inl (InvalidArgument ''buffer pool capacity must be at least 1'')
      else let shard_count = shard_count_for capacity in
        Inr (map (\<lambda>i. shard_new (capacity div shard_count + (if i < capacity mod shard_count then 1 else 0)))
               [0..<shard_count]))"

definition pool_capacity :: "buffer_pool \<Rightarrow> nat" where
  "pool_capacity pool = sum_list (map (\<lambda>sh. length (sh_frames sh)) pool)"

definition shard_for :: "buffer_pool \<Rightarrow> page_id \<Rightarrow> nat" where
  "shard_for pool pid =
     (let hash = drop_bit 32 (raw pid * HASH_MULTIPLIER)
      in unat (and hash (of_nat (length pool - 1))))"

text \<open>Run an operation of one shard.\<close>

definition on_shard :: "nat \<Rightarrow> (shard \<times> os, 'e, 'a) prog \<Rightarrow> (buffer_pool \<times> os, 'e, 'a) prog" where
  "on_shard i m ps =
     (case m (fst ps ! i, snd ps) of (r, (sh, s)) \<Rightarrow> (r, ((fst ps)[i := sh], s)))"

definition fetch_page :: "disk_manager \<Rightarrow> page_id \<Rightarrow> (buffer_pool \<times> os, error, page_handle) prog" where
  "fetch_page d pid ps = on_shard (shard_for (fst ps) pid) (shard_fetch_page d pid) ps"

definition install_page :: "disk_manager \<Rightarrow> page_id \<Rightarrow> page \<Rightarrow> (buffer_pool \<times> os, error, unit) prog" where
  "install_page d pid page ps =
     (if get_page_id page \<noteq> pid
      then (Inl (InvalidArgument (''cannot install '' @ display_page_id (get_page_id page) @ '' as ''
              @ display_page_id pid)), ps)
      else on_shard (shard_for (fst ps) pid) (shard_install_page d pid page) ps)"

definition flush_page :: "disk_manager \<Rightarrow> page_id \<Rightarrow> (buffer_pool \<times> os, error, unit) prog" where
  "flush_page d pid ps = on_shard (shard_for (fst ps) pid) (shard_flush_page d pid) ps"

definition flush_all :: "disk_manager \<Rightarrow> (buffer_pool \<times> os, error, unit) prog" where
  "flush_all d ps =
     and_then (for_each (\<lambda>i. on_shard i (flush_cached d)) [0..<length (fst ps)]) (\<lambda>_ ps.
       case fst ps of [] \<Rightarrow> (Inr (), ps) | _ # _ \<Rightarrow> on_snd (disk_sync d) ps) ps"

section \<open>The bookkeeping invariant\<close>

text \<open>
  The page table and the frames agree; a frame is free exactly when it holds no page and is not one
  of the frames \<open>X\<close> an operation has just taken; an empty frame is not pinned.
\<close>

definition shard_wf :: "nat set \<Rightarrow> shard \<Rightarrow> bool" where
  "shard_wf X sh \<longleftrightarrow>
     (let n = length (sh_frames sh) in
      length (sh_frame_pages sh) = n \<and> length (sh_pin_counts sh) = n \<and> length (sh_ref_bits sh) = n \<and>
      sh_clock_hand sh < n \<and> distinct (map fst (sh_page_table sh)) \<and>
      (\<forall>pid f. map_of (sh_page_table sh) pid = Some f \<longleftrightarrow> f < n \<and> sh_frame_pages sh ! f = Some pid) \<and>
      distinct (sh_free_frames sh) \<and> X \<subseteq> {f. f < n \<and> sh_frame_pages sh ! f = None} \<and>
      set (sh_free_frames sh) = {f. f < n \<and> sh_frame_pages sh ! f = None} - X \<and>
      (\<forall>f < n. sh_frame_pages sh ! f = None \<longrightarrow> sh_pin_counts sh ! f = 0))"

lemma shard_wfD:
  assumes "shard_wf X sh"
  shows "length (sh_frame_pages sh) = length (sh_frames sh)" "length (sh_pin_counts sh) = length (sh_frames sh)"
    "length (sh_ref_bits sh) = length (sh_frames sh)" "sh_clock_hand sh < length (sh_frames sh)"
    "distinct (map fst (sh_page_table sh))" "distinct (sh_free_frames sh)"
    "map_of (sh_page_table sh) pid = Some f \<longleftrightarrow> f < length (sh_frames sh) \<and> sh_frame_pages sh ! f = Some pid"
    "X \<subseteq> {f. f < length (sh_frames sh) \<and> sh_frame_pages sh ! f = None}"
    "set (sh_free_frames sh) = {f. f < length (sh_frames sh) \<and> sh_frame_pages sh ! f = None} - X"
    "f < length (sh_frames sh) \<Longrightarrow> sh_frame_pages sh ! f = None \<Longrightarrow> sh_pin_counts sh ! f = 0"
  using assms by (auto simp: shard_wf_def Let_def)

lemma shard_wf_new: "0 < n \<Longrightarrow> shard_wf {} (shard_new n)"
  by (auto simp: shard_wf_def shard_new_def)

lemma shard_set_simps [simp]:
  "sh_frames (pin f sh) = sh_frames sh" "sh_page_table (pin f sh) = sh_page_table sh"
  "sh_frame_pages (pin f sh) = sh_frame_pages sh" "sh_free_frames (pin f sh) = sh_free_frames sh"
  "sh_frames (unpin f sh) = sh_frames sh" "sh_page_table (unpin f sh) = sh_page_table sh"
  "sh_frame_pages (unpin f sh) = sh_frame_pages sh" "sh_free_frames (unpin f sh) = sh_free_frames sh"
  "sh_frames (set_ref f b sh) = sh_frames sh" "sh_page_table (set_ref f b sh) = sh_page_table sh"
  "sh_frame_pages (set_ref f b sh) = sh_frame_pages sh" "sh_free_frames (set_ref f b sh) = sh_free_frames sh"
  "sh_pin_counts (set_ref f b sh) = sh_pin_counts sh" "sh_clock_hand (set_ref f b sh) = sh_clock_hand sh"
  "sh_ref_bits (set_ref f b sh) = (sh_ref_bits sh)[f := b]"
  "sh_frames (set_frame f fr sh) = (sh_frames sh)[f := fr]" "sh_page_table (set_frame f fr sh) = sh_page_table sh"
  "sh_frame_pages (set_frame f fr sh) = sh_frame_pages sh" "sh_free_frames (set_frame f fr sh) = sh_free_frames sh"
  "sh_pin_counts (set_frame f fr sh) = sh_pin_counts sh"
  by (simp_all add: pin_def unpin_def set_ref_def set_frame_def)

lemma shard_wf_set_ref [simp]: "shard_wf X (set_ref f b sh) \<longleftrightarrow> shard_wf X sh"
  by (simp add: shard_wf_def set_ref_def)

lemma shard_wf_set_frame [simp]: "shard_wf X (set_frame f fr sh) \<longleftrightarrow> shard_wf X sh"
  by (simp add: shard_wf_def set_frame_def)

lemma shard_wf_pin: "shard_wf X sh \<Longrightarrow> map_of (sh_page_table sh) pid = Some f \<Longrightarrow> shard_wf X (pin f sh)"
  by (auto simp: shard_wf_def pin_def Let_def nth_list_update)

lemma shard_wf_unpin: "shard_wf X sh \<Longrightarrow> map_of (sh_page_table sh) pid = Some f \<Longrightarrow> shard_wf X (unpin f sh)"
  by (auto simp: shard_wf_def unpin_def Let_def nth_list_update)

subsection \<open>The clock\<close>

text \<open>What a sweep may change: reference bits are only cleared, and the hand moves.\<close>

definition swept :: "shard \<Rightarrow> shard \<Rightarrow> bool" where
  "swept sh sh' \<longleftrightarrow> sh' = sh\<lparr>sh_clock_hand := sh_clock_hand sh', sh_ref_bits := sh_ref_bits sh'\<rparr>
     \<and> length (sh_ref_bits sh') = length (sh_ref_bits sh)
     \<and> (\<forall>f < length (sh_ref_bits sh). sh_ref_bits sh' ! f \<longrightarrow> sh_ref_bits sh ! f)"

lemma swept_refl: "swept sh sh"
  by (simp add: swept_def)

lemma swept_trans: "swept a b \<Longrightarrow> swept b c \<Longrightarrow> swept a c"
  by (cases a; cases b; cases c) (auto simp: swept_def)

lemma swept_fields:
  assumes "swept sh sh'"
  shows "sh_frames sh' = sh_frames sh" "sh_page_table sh' = sh_page_table sh"
    "sh_frame_pages sh' = sh_frame_pages sh" "sh_pin_counts sh' = sh_pin_counts sh"
    "sh_free_frames sh' = sh_free_frames sh"
  using assms unfolding swept_def by (cases sh; cases sh'; simp)+

definition step_hand :: "shard \<Rightarrow> shard" where
  "step_hand sh = sh\<lparr>sh_clock_hand := (sh_clock_hand sh + 1) mod length (sh_frame_pages sh)\<rparr>"

lemma swept_step: "swept sh (step_hand sh)" "swept sh (set_ref f False (step_hand sh))"
proof -
  show "swept sh (step_hand sh)" by (simp add: swept_def step_hand_def)
  have "(sh_ref_bits sh)[f := False] ! g \<longrightarrow> sh_ref_bits sh ! g" for g
    by (cases "f < length (sh_ref_bits sh)"; cases "g = f") (simp_all add: list_update_beyond)
  then show "swept sh (set_ref f False (step_hand sh))" by (simp add: swept_def step_hand_def set_ref_def)
qed

lemma clock_sweep_swept: "clock_sweep n sh = (v, sh') \<Longrightarrow> swept sh sh'"
proof (induction n arbitrary: sh)
  case (Suc n)
  let ?f = "sh_clock_hand sh"
  from Suc.prems have "sh' = step_hand sh \<or> clock_sweep n (step_hand sh) = (v, sh')
      \<or> clock_sweep n (set_ref ?f False (step_hand sh)) = (v, sh')"
    by (auto simp: Let_def step_hand_def split: if_splits)
  with Suc.IH swept_step [of sh] swept_trans show ?case by blast
qed (simp add: swept_refl)

lemma shard_wf_step_hand: "shard_wf X sh \<Longrightarrow> shard_wf X (step_hand sh)"
proof -
  assume wf: "shard_wf X sh"
  then have "Suc (sh_clock_hand sh) mod length (sh_frames sh) < length (sh_frames sh)"
    using shard_wfD(4) [OF wf] by (metis gr_implies_not0 mod_less_divisor neq0_conv)
  with wf show ?thesis by (simp add: shard_wf_def step_hand_def Let_def)
qed

lemma clock_sweep_wf:
  assumes "clock_sweep n sh = (v, sh')" and "shard_wf X sh"
  shows "shard_wf X sh' \<and> (\<forall>f. v = Some f \<longrightarrow> f < length (sh_frames sh) \<and> sh_pin_counts sh ! f = 0)"
  using assms
proof (induction n arbitrary: sh)
  case (Suc n)
  let ?h = "sh_clock_hand sh"
  have len: "length (sh_frame_pages sh) = length (sh_frames sh)" "?h < length (sh_frames sh)"
    using shard_wfD [OF Suc.prems(2)] by simp_all
  have wf: "shard_wf X (step_hand sh)" using Suc.prems(2) by (rule shard_wf_step_hand)
  have fields: "sh_pin_counts (step_hand sh) = sh_pin_counts sh" "sh_frames (step_hand sh) = sh_frames sh"
    by (simp_all add: step_hand_def)
  from Suc.prems(1) have "v = Some ?h \<and> sh' = step_hand sh \<and> \<not> sh_pin_counts sh ! ?h > 0
      \<or> clock_sweep n (step_hand sh) = (v, sh') \<or> clock_sweep n (set_ref ?h False (step_hand sh)) = (v, sh')"
    by (auto simp: Let_def step_hand_def split: if_splits)
  then show ?case
    using Suc.IH [of "step_hand sh"] Suc.IH [of "set_ref ?h False (step_hand sh)"] wf fields len
    by (auto simp: word_gt_0)
qed simp

text \<open>A sweep that finds nothing has cleared the bit of every unpinned frame it passed.\<close>

lemma clock_sweep_None:
  assumes "clock_sweep k sh = (None, sh')" and "shard_wf X sh" and "i < k"
    and "sh_pin_counts sh ! ((sh_clock_hand sh + i) mod length (sh_frames sh)) = 0"
  shows "sh_ref_bits sh ! ((sh_clock_hand sh + i) mod length (sh_frames sh))
    \<and> \<not> sh_ref_bits sh' ! ((sh_clock_hand sh + i) mod length (sh_frames sh))"
  using assms
proof (induction k arbitrary: sh i)
  case (Suc k)
  let ?h = "sh_clock_hand sh" and ?n = "length (sh_frames sh)"
  have len: "length (sh_frame_pages sh) = ?n" "?h < ?n" "length (sh_ref_bits sh) = ?n"
    using shard_wfD [OF Suc.prems(2)] by simp_all
  define next_sh where "next_sh = (if sh_pin_counts sh ! ?h > 0 then step_hand sh else set_ref ?h False (step_hand sh))"
  have run: "clock_sweep k next_sh = (None, sh')" and bit: "sh_pin_counts sh ! ?h = 0 \<longrightarrow> sh_ref_bits sh ! ?h"
    using Suc.prems(1) by (auto simp: next_sh_def Let_def step_hand_def split: if_splits)
  have sw: "swept sh next_sh" "swept next_sh sh'"
    using swept_step [of sh] clock_sweep_swept [OF run] by (auto simp: next_sh_def)
  have hand: "sh_clock_hand next_sh = (?h + 1) mod ?n"
    by (simp add: next_sh_def step_hand_def len)
  have wf: "shard_wf X next_sh"
    using shard_wf_step_hand [OF Suc.prems(2)] by (simp add: next_sh_def)
  have f: "(?h + i) mod ?n < ?n" using len(2) by (metis gr_implies_not0 mod_less_divisor neq0_conv)
  show ?case
  proof (cases i)
    case 0
    with sw(2) bit len show ?thesis
      using Suc.prems(4) by (auto simp: next_sh_def swept_def set_ref_def step_hand_def word_gt_0)
  next
    case (Suc j)
    have eq: "(sh_clock_hand next_sh + j) mod length (sh_frames next_sh) = (?h + i) mod ?n"
      using hand swept_fields [OF sw(1)] Suc by (simp add: mod_simps)
    from Suc.IH [OF run wf, of j] Suc.prems(3,4) \<open>i = Suc j\<close> show ?thesis
      using eq sw(1) f len swept_fields [OF sw(1)] by (auto simp: swept_def)
  qed
qed simp

lemma clock_sweep_add:
  "clock_sweep (a + b) sh = (case clock_sweep a sh of (Some f, sh') \<Rightarrow> (Some f, sh') | (None, sh') \<Rightarrow> clock_sweep b sh')"
  by (induction a arbitrary: sh) (simp_all add: Let_def)

lemma find_victim_None:
  assumes "find_victim sh = (None, sh')" and "shard_wf X sh" and "f < length (sh_frames sh)"
  shows "sh_pin_counts sh ! f \<noteq> 0"
proof
  let ?n = "length (sh_frames sh)" and ?h = "sh_clock_hand sh"
  assume free: "sh_pin_counts sh ! f = 0"
  have len: "length (sh_frame_pages sh) = ?n" "?h < ?n" using shard_wfD [OF assms(2)] by simp_all
  have "clock_sweep (?n + ?n) sh = (None, sh')"
    using assms(1) len(1) by (simp add: find_victim_def mult_2)
  then obtain sh1 where one: "clock_sweep ?n sh = (None, sh1)" and two: "clock_sweep ?n sh1 = (None, sh')"
    by (auto simp: clock_sweep_add split: prod.splits option.splits)
  note sw = clock_sweep_swept [OF one]
  have visit: "\<exists>i < ?n. (h + i) mod ?n = f" if "h < ?n" for h
  proof (intro exI conjI)
    show "(f + (?n - h)) mod ?n < ?n" using that by (metis gr_implies_not0 mod_less_divisor neq0_conv)
    have "h + (f + (?n - h)) = f + ?n" using that by simp
    then show "(h + (f + (?n - h)) mod ?n) mod ?n = f" using assms(3) by (simp add: mod_simps)
  qed
  from visit [OF len(2)] obtain i where i: "i < ?n" "(?h + i) mod ?n = f" by blast
  from clock_sweep_None [OF one assms(2) i(1)] free have "\<not> sh_ref_bits sh1 ! f" by (simp add: i(2))
  moreover have wf1: "shard_wf X sh1" using clock_sweep_wf [OF one assms(2)] by simp
  have "sh_clock_hand sh1 < ?n" using shard_wfD(4) [OF wf1] swept_fields(1) [OF sw] by simp
  from visit [OF this] obtain j where j: "j < ?n" "(sh_clock_hand sh1 + j) mod ?n = f" by blast
  with clock_sweep_None [OF two wf1 j(1)] free swept_fields [OF sw] have "sh_ref_bits sh1 ! f" by simp
  ultimately show False by simp
qed

subsection \<open>Taking, filling and returning frames\<close>

lemma map_of_table_remove [simp]: "map_of (table_remove pid t) = (map_of t)(pid := None)"
  by (induction t) (auto simp: table_remove_def fun_eq_iff)

lemma map_of_table_insert [simp]: "map_of (table_insert pid f t) = (map_of t)(pid \<mapsto> f)"
  using map_of_table_remove [of pid t] by (simp add: table_insert_def table_remove_def)

lemma distinct_table:
  "distinct (map fst t) \<Longrightarrow> distinct (map fst (table_remove pid t)) \<and> distinct (map fst (table_insert pid f t))"
  by (auto simp: table_remove_def table_insert_def distinct_map_filter)

lemma table_inj:
  "shard_wf X sh \<Longrightarrow> map_of (sh_page_table sh) a = Some f \<Longrightarrow> map_of (sh_page_table sh) b = Some f \<Longrightarrow> a = b"
  by (simp add: shard_wfD(7))

lemma shard_wf_pop:
  assumes "shard_wf {} sh" and "sh_free_frames sh \<noteq> []"
  shows "shard_wf {last (sh_free_frames sh)} (sh\<lparr>sh_free_frames := butlast (sh_free_frames sh)\<rparr>)"
proof -
  let ?free = "sh_free_frames sh"
  have split: "?free = butlast ?free @ [last ?free]" using assms(2) by simp
  have dist: "distinct ?free" and set: "set ?free = {f. f < length (sh_frames sh) \<and> sh_frame_pages sh ! f = None}"
    using shard_wfD [OF assms(1)] by auto
  from dist have "distinct (butlast ?free)" "last ?free \<notin> set (butlast ?free)"
    by (subst (asm) split, simp)+
  moreover have "set ?free = insert (last ?free) (set (butlast ?free))" by (subst split) simp
  ultimately show ?thesis using assms(1) set by (auto simp: shard_wf_def Let_def)
qed

definition evict :: "page_id \<Rightarrow> nat \<Rightarrow> shard \<Rightarrow> shard" where
  "evict pid f sh = sh\<lparr>sh_page_table := table_remove pid (sh_page_table sh),
     sh_frame_pages := (sh_frame_pages sh)[f := None]\<rparr>"

lemma shard_wf_evict:
  assumes "shard_wf {} sh" and "map_of (sh_page_table sh) pid = Some f" and "sh_pin_counts sh ! f = 0"
  shows "shard_wf {f} (evict pid f sh)"
proof -
  have f: "f < length (sh_frames sh)" "sh_frame_pages sh ! f = Some pid" using assms(1,2) shard_wfD(7) by blast+
  have "map_of (table_remove pid (sh_page_table sh)) a = Some g \<longleftrightarrow>
      g < length (sh_frames sh) \<and> (sh_frame_pages sh)[f := None] ! g = Some a" for a g
    using f shard_wfD(1) [OF assms(1)] shard_wfD(7) [OF assms(1), of a g] assms(2)
    by (cases "g = f") (auto simp: nth_list_update)
  moreover have "{g. g < length (sh_frames sh) \<and> (sh_frame_pages sh)[f := None] ! g = None} =
      insert f {g. g < length (sh_frames sh) \<and> sh_frame_pages sh ! g = None}"
    using f shard_wfD(1) [OF assms(1)] by (auto simp: nth_list_update)
  moreover have "f \<notin> set (sh_free_frames sh)" using f shard_wfD(9) [OF assms(1)] by auto
  moreover have "sh_pin_counts sh ! g = 0" if "g < length (sh_frames sh)" "(sh_frame_pages sh)[f := None] ! g = None" for g
    using that assms(3) shard_wfD(10) [OF assms(1)] by (cases "g = f") auto
  ultimately show ?thesis
    using assms(1) distinct_table [of "sh_page_table sh" pid]
    by (simp add: shard_wf_def evict_def Let_def) blast
qed

definition fill :: "page_id \<Rightarrow> nat \<Rightarrow> frame \<Rightarrow> shard \<Rightarrow> shard" where
  "fill pid f fr sh = sh\<lparr>sh_frames := (sh_frames sh)[f := fr],
     sh_page_table := table_insert pid f (sh_page_table sh),
     sh_frame_pages := (sh_frame_pages sh)[f := Some pid]\<rparr>"

lemma shard_wf_fill:
  assumes "shard_wf {f} sh" and "map_of (sh_page_table sh) pid = None"
  shows "shard_wf {} (fill pid f fr sh)"
proof -
  have f: "f < length (sh_frames sh)" "sh_frame_pages sh ! f = None" using shard_wfD(8) [OF assms(1)] by auto
  have "map_of (table_insert pid f (sh_page_table sh)) a = Some g \<longleftrightarrow>
      g < length (sh_frames sh) \<and> (sh_frame_pages sh)[f := Some pid] ! g = Some a" for a g
    using f shard_wfD(1) [OF assms(1)] shard_wfD(7) [OF assms(1), of a g] shard_wfD(7) [OF assms(1), of pid g] assms(2)
    by (cases "g = f") (auto simp: nth_list_update)
  moreover have "{g. g < length (sh_frames sh) \<and> (sh_frame_pages sh)[f := Some pid] ! g = None} =
      {g. g < length (sh_frames sh) \<and> sh_frame_pages sh ! g = None} - {f}"
    using f shard_wfD(1) [OF assms(1)] by (auto simp: nth_list_update)
  moreover have "sh_pin_counts sh ! g = 0" if "g < length (sh_frames sh)" "(sh_frame_pages sh)[f := Some pid] ! g = None" for g
    using that f shard_wfD(1,10) [OF assms(1)] by (cases "g = f") auto
  ultimately show ?thesis
    using assms(1) distinct_table [of "sh_page_table sh" pid f]
    by (simp add: shard_wf_def fill_def Let_def)
qed

lemma shard_wf_give_back:
  assumes "shard_wf {f} sh"
  shows "shard_wf {} (sh\<lparr>sh_free_frames := sh_free_frames sh @ [f]\<rparr>)"
  using assms shard_wfD(8,9) [OF assms] by (auto simp: shard_wf_def Let_def)

lemma shard_wf_pin_counts:
  "shard_wf X sh \<Longrightarrow> map_of (sh_page_table sh) pid = Some f \<Longrightarrow>
   shard_wf X (sh\<lparr>sh_pin_counts := (sh_pin_counts sh)[f := k]\<rparr>)"
  by (auto simp: shard_wf_def Let_def nth_list_update)

section \<open>Handles\<close>

text \<open>
  What a shard looks like after any sequence of calls, whatever the disk does, with handles \<open>hs\<close>
  outstanding. A pin count is a \<^verbatim>\<open>u32\<close>, so there are fewer than 2^32 handles. The system may change
  between calls, since the other shards use it too.
\<close>

inductive reach :: "disk_manager \<Rightarrow> nat \<Rightarrow> page_handle list \<Rightarrow> shard \<times> os \<Rightarrow> bool" for d n where
  start: "reach d n [] (shard_new n, s)"
| fetch: "reach d n hs ss \<Longrightarrow> Suc (length hs) < 2 ^ 32 \<Longrightarrow> shard_fetch_page d pid ss = (Inr h, ss') \<Longrightarrow> reach d n (h # hs) ss'"
| fetch_failed: "reach d n hs ss \<Longrightarrow> shard_fetch_page d pid ss = (Inl e, ss') \<Longrightarrow> reach d n hs ss'"
| install: "reach d n hs ss \<Longrightarrow> shard_install_page d pid page ss = (r, ss') \<Longrightarrow> reach d n hs ss'"
| flush: "reach d n hs ss \<Longrightarrow> shard_flush_page d pid ss = (r, ss') \<Longrightarrow> reach d n hs ss'"
| change: "reach d n hs (sh, s) \<Longrightarrow> h \<in> set hs \<Longrightarrow> reach d n hs (handle_write h f sh, s)"
| drop: "reach d n (hs1 @ h # hs2) (sh, s) \<Longrightarrow> reach d n (hs1 @ hs2) (handle_drop h sh, s)"
| elsewhere: "reach d n hs (sh, s) \<Longrightarrow> reach d n hs (sh, s')"

definition handles_on :: "page_handle list \<Rightarrow> nat \<Rightarrow> nat" where
  "handles_on hs f = length (filter (\<lambda>h. ph_frame_id h = f) hs)"

definition handles_ok :: "page_handle list \<Rightarrow> shard \<Rightarrow> bool" where
  "handles_ok hs sh \<longleftrightarrow>
     (\<forall>h \<in> set hs. map_of (sh_page_table sh) (ph_page_id h) = Some (ph_frame_id h)) \<and>
     (\<forall>f < length (sh_frames sh). sh_pin_counts sh ! f = of_nat (handles_on hs f))"

lemma handles_on_simps [simp]:
  "handles_on [] f = 0" "handles_on (h # hs) f = (if ph_frame_id h = f then Suc (handles_on hs f) else handles_on hs f)"
  "handles_on (hs @ hs') f = handles_on hs f + handles_on hs' f"
  by (simp_all add: handles_on_def)

lemma handles_on_le: "handles_on hs f \<le> length hs"
  by (simp add: handles_on_def)

lemma write_back_shard:
  "write_back d f pid (sh, s) = (r, (sh', s')) \<Longrightarrow> \<exists>fr. sh' = set_frame f fr sh"
proof (cases "fr_dirty (sh_frames sh ! f)")
  case False
  assume "write_back d f pid (sh, s) = (r, (sh', s'))"
  with False have "sh' = set_frame f (sh_frames sh ! f) sh" by (simp add: write_back_def set_frame_def)
  then show ?thesis ..
qed (auto simp: write_back_def Let_def split: prod.splits sum.splits)

lemma unpinned_no_handle:
  assumes "handles_ok hs sh" and "length hs < 2 ^ 32" and "f < length (sh_frames sh)" and "sh_pin_counts sh ! f = 0"
    and "h \<in> set hs"
  shows "ph_frame_id h \<noteq> f"
proof
  assume f: "ph_frame_id h = f"
  have "0 < handles_on hs f" using assms(5) f by (auto simp: handles_on_def filter_empty_conv)
  moreover have "handles_on hs f < 2 ^ 32" using handles_on_le [of hs f] assms(2) by linarith
  moreover have "(of_nat (handles_on hs f) :: u32) = 0" using assms(1,3,4) by (simp add: handles_ok_def)
  ultimately show False by (simp add: word_of_nat_eq_0_iff nat_dvd_not_less)
qed

lemma handles_ok_evict:
  assumes "shard_wf {} sh" and "handles_ok hs sh" and "length hs < 2 ^ 32"
    and "map_of (sh_page_table sh) old = Some f" and "sh_pin_counts sh ! f = 0"
  shows "handles_ok hs (evict old f sh)"
proof -
  have "f < length (sh_frames sh)" using shard_wfD(7) [OF assms(1)] assms(4) by blast
  from unpinned_no_handle [OF assms(2,3) this assms(5)] have "ph_page_id h \<noteq> old" if "h \<in> set hs" for h
    using that assms(2,4) by (auto simp: handles_ok_def)
  with assms(2) show ?thesis by (auto simp: handles_ok_def evict_def)
qed

lemma acquire_wf:
  assumes "shard_wf {} sh" and "handles_ok hs sh" and "length hs < 2 ^ 32" and "acquire_frame d (sh, s) = (r, (sh', s'))"
  shows "handles_ok hs sh' \<and> shard_wf (case r of Inl _ \<Rightarrow> {} | Inr f \<Rightarrow> {f}) sh'
    \<and> (\<forall>a. map_of (sh_page_table sh) a = None \<longrightarrow> map_of (sh_page_table sh') a = None)"
proof (cases "sh_free_frames sh = []")
  case False
  with assms(4) have "r = Inr (last (sh_free_frames sh))" "sh' = sh\<lparr>sh_free_frames := butlast (sh_free_frames sh)\<rparr>"
    by (auto simp: acquire_frame_def)
  with shard_wf_pop [OF assms(1) False] assms(2) show ?thesis by (simp add: handles_ok_def)
next
  case True
  obtain v sh1 where fv: "find_victim sh = (v, sh1)" by fastforce
  note sw = clock_sweep_swept [OF fv [unfolded find_victim_def]]
  note vic = clock_sweep_wf [OF fv [unfolded find_victim_def] assms(1)]
  have ok1: "handles_ok hs sh1" using assms(2) swept_fields [OF sw] by (simp add: handles_ok_def)
  show ?thesis
  proof (cases v)
    case None
    with True fv assms(4) have "r = Inl (ResourceExhausted (''all '' @ show_nat (length (sh_frames sh1))
        @ '' frames in a buffer pool shard are pinned''))" "sh' = sh1" by (auto simp: acquire_frame_def)
    with ok1 vic swept_fields [OF sw] show ?thesis by simp
  next
    case (Some f)
    then have free: "f < length (sh_frames sh1)" "sh_pin_counts sh1 ! f = 0" "shard_wf {} sh1"
      using vic swept_fields [OF sw] by auto
    then obtain old where old: "sh_frame_pages sh1 ! f = Some old"
      using shard_wfD(9) [OF free(3)] True swept_fields(5) [OF sw] by auto
    with free have at: "map_of (sh_page_table sh1) old = Some f" using shard_wfD(7) [OF free(3)] by auto
    obtain r2 sh2 s2 where wb: "write_back d f old (sh1, s) = (r2, (sh2, s2))" by (metis surj_pair)
    from write_back_shard [OF wb] obtain fr where sh2: "sh2 = set_frame f fr sh1" ..
    have res: "(\<exists>e. r = Inl e) \<and> sh' = sh2 \<or> r = Inr f \<and> sh' = evict old f sh2"
      using True fv Some old wb assms(4) by (cases r2) (auto simp: acquire_frame_def evict_def)
    have ok2: "handles_ok hs sh2" "shard_wf {} sh2" using ok1 free(3) by (simp_all add: sh2 handles_ok_def)
    have ev: "shard_wf {f} (evict old f sh2)" using at free ok2 by (intro shard_wf_evict) (simp_all add: sh2)
    have "handles_ok hs (evict old f sh2)" using at free by (intro handles_ok_evict [OF ok2(2,1) assms(3)]) (simp_all add: sh2)
    with res ok2 ev swept_fields [OF sw] show ?thesis by (auto simp: sh2 evict_def)
  qed
qed

lemma handles_ok_pin:
  assumes "shard_wf {} sh" and "handles_ok hs sh" and "map_of (sh_page_table sh) pid = Some f"
  shows "handles_ok (\<lparr>ph_frame_id = f, ph_page_id = pid\<rparr> # hs) (pin f sh)"
  using assms shard_wfD(2) [OF assms(1)] by (auto simp: handles_ok_def pin_def nth_list_update)

lemma handles_ok_unpin:
  assumes "shard_wf {} sh" and "handles_ok (hs1 @ h # hs2) sh"
  shows "handles_ok (hs1 @ hs2) (unpin (ph_frame_id h) sh)"
proof -
  have "(sh_pin_counts sh)[ph_frame_id h := sh_pin_counts sh ! ph_frame_id h - 1] ! f = of_nat (handles_on (hs1 @ hs2) f)"
    if "f < length (sh_frames sh)" for f
    using assms(2) that shard_wfD(2) [OF assms(1)] by (cases "f = ph_frame_id h") (auto simp: handles_ok_def)
  with assms(2) show ?thesis by (auto simp: handles_ok_def unpin_def)
qed

lemma handles_ok_fill:
  assumes "shard_wf {f} sh" and "handles_ok hs sh" and "map_of (sh_page_table sh) pid = None"
  shows "handles_ok hs (fill pid f fr sh)"
  using assms by (auto simp: handles_ok_def fill_def)

lemma handles_ok_simps [simp]: "handles_ok hs (set_ref f b sh) = handles_ok hs sh" "handles_ok hs (set_frame f fr sh) = handles_ok hs sh"
  by (simp_all add: handles_ok_def)

lemma fetch_handles:
  assumes wf: "shard_wf {} sh" and ok: "handles_ok hs sh" and "length hs < 2 ^ 32"
    and run: "shard_fetch_page d pid (sh, s) = (r, (sh', s'))"
  shows "shard_wf {} sh' \<and> handles_ok (case r of Inl _ \<Rightarrow> hs | Inr h \<Rightarrow> h # hs) sh'"
proof (cases "map_of (sh_page_table sh) pid")
  case (Some f)
  with run have "r = Inr \<lparr>ph_frame_id = f, ph_page_id = pid\<rparr>" "sh' = set_ref f True (pin f sh)"
    by (auto simp: shard_fetch_page_def)
  with handles_ok_pin [OF wf ok Some] shard_wf_pin [OF wf Some] show ?thesis by simp
next
  case None
  obtain r1 sh1 s1 where ac: "acquire_frame d (sh, s) = (r1, (sh1, s1))" by (metis surj_pair)
  note A = acquire_wf [OF wf ok assms(3) ac]
  show ?thesis
  proof (cases r1)
    case (Inl e)
    with A run None ac show ?thesis by (auto simp: shard_fetch_page_def and_then_def)
  next
    case (Inr f)
    have wf1: "shard_wf {f} sh1" and ok1: "handles_ok hs sh1" and none: "map_of (sh_page_table sh1) pid = None"
      using A Inr None by simp_all
    obtain r2 s2 where rd: "disk_read_page d pid s1 = (r2, s2)" by fastforce
    show ?thesis
    proof (cases r2)
      case (Inl e)
      then have "r = Inl e" "sh' = sh1\<lparr>sh_free_frames := sh_free_frames sh1 @ [f]\<rparr>"
        using run None ac rd \<open>r1 = Inr f\<close> by (auto simp: shard_fetch_page_def and_then_def)
      with shard_wf_give_back [OF wf1] ok1 show ?thesis by (simp add: handles_ok_def)
    next
      case (Inr page)
      let ?fr = "\<lparr>fr_page = page, fr_dirty = False\<rparr>"
      let ?sh = "(fill pid f ?fr sh1)\<lparr>sh_pin_counts := (sh_pin_counts sh1)[f := 1]\<rparr>"
      have res: "r = Inr \<lparr>ph_frame_id = f, ph_page_id = pid\<rparr>" "sh' = set_ref f True ?sh"
        using run None ac rd \<open>r1 = Inr f\<close> Inr
        by (auto simp: shard_fetch_page_def and_then_def Let_def fill_def set_frame_def set_ref_def)
      have f: "f < length (sh_frames sh1)" "sh_frame_pages sh1 ! f = None" using shard_wfD(8) [OF wf1] by auto
      then have "of_nat (handles_on hs f) = (0 :: u32)" using shard_wfD(10) [OF wf1] ok1 by (simp add: handles_ok_def)
      then have "?sh = pin f (fill pid f ?fr sh1)"
        using f ok1 by (simp add: pin_def fill_def handles_ok_def)
      moreover have wf2: "shard_wf {} (fill pid f ?fr sh1)" by (rule shard_wf_fill [OF wf1 none])
      moreover have at: "map_of (sh_page_table (fill pid f ?fr sh1)) pid = Some f" by (simp add: fill_def)
      ultimately show ?thesis
        using handles_ok_pin [OF wf2 handles_ok_fill [OF wf1 ok1 none] at] shard_wf_pin [OF wf2 at] by (simp add: res)
    qed
  qed
qed

lemma install_handles:
  assumes wf: "shard_wf {} sh" and ok: "handles_ok hs sh" and "length hs < 2 ^ 32"
    and run: "shard_install_page d pid page (sh, s) = (r, (sh', s'))"
  shows "shard_wf {} sh' \<and> handles_ok hs sh'"
proof (cases "map_of (sh_page_table sh) pid")
  case (Some f)
  let ?sh = "set_frame f \<lparr>fr_page = page, fr_dirty = True\<rparr> (set_ref f True (pin f sh))"
  have sh': "sh' = unpin f ?sh" using run Some by (auto simp: shard_install_page_def Let_def)
  have wf1: "shard_wf {} ?sh" using shard_wf_pin [OF wf Some] by simp
  have "handles_ok ([] @ \<lparr>ph_frame_id = f, ph_page_id = pid\<rparr> # hs) ?sh" using handles_ok_pin [OF wf ok Some] by simp
  from handles_ok_unpin [OF wf1 this] shard_wf_unpin [OF wf1, of pid f] Some show ?thesis by (simp add: sh')
next
  case None
  obtain r1 sh1 s1 where ac: "acquire_frame d (sh, s) = (r1, (sh1, s1))" by (metis surj_pair)
  note A = acquire_wf [OF wf ok assms(3) ac]
  show ?thesis
  proof (cases r1)
    case (Inl e)
    with A run None ac show ?thesis by (auto simp: shard_install_page_def and_then_def)
  next
    case (Inr f)
    then have "sh' = set_ref f True (fill pid f \<lparr>fr_page = page, fr_dirty = True\<rparr> sh1)"
      using run None ac by (auto simp: shard_install_page_def and_then_def Let_def fill_def set_frame_def set_ref_def)
    with A Inr None shard_wf_fill handles_ok_fill show ?thesis by simp
  qed
qed

lemma flush_handles:
  assumes wf: "shard_wf {} sh" and ok: "handles_ok hs sh" and run: "shard_flush_page d pid (sh, s) = (r, (sh', s'))"
  shows "shard_wf {} sh' \<and> handles_ok hs sh'"
proof (cases "map_of (sh_page_table sh) pid")
  case (Some f)
  obtain r1 sh1 s1 where wb: "write_back d f pid (pin f sh, s) = (r1, (sh1, s1))" by (metis surj_pair)
  from write_back_shard [OF wb] obtain fr where sh1: "sh1 = set_frame f fr (pin f sh)" ..
  have wf1: "shard_wf {} sh1" using shard_wf_pin [OF wf Some] by (simp add: sh1)
  have "handles_ok ([] @ \<lparr>ph_frame_id = f, ph_page_id = pid\<rparr> # hs) sh1" using handles_ok_pin [OF wf ok Some] by (simp add: sh1)
  from handles_ok_unpin [OF wf1 this] shard_wf_unpin [OF wf1, of pid f] Some run wb show ?thesis
    by (simp add: shard_flush_page_def sh1)
qed (use wf ok run in \<open>simp add: shard_flush_page_def\<close>)

lemma reach_ok:
  assumes "reach d n hs ss" and "0 < n"
  shows "shard_wf {} (fst ss) \<and> handles_ok hs (fst ss) \<and> length hs < 2 ^ 32"
  using assms
proof (induction rule: reach.induct)
  case (start s)
  then show ?case using shard_wf_new by (simp add: handles_ok_def shard_new_def)
next
  case (fetch hs ss pid h ss')
  then show ?case using fetch_handles [of "fst ss" hs d pid "snd ss" "Inr h" "fst ss'" "snd ss'"] by simp
next
  case (fetch_failed hs ss pid e ss')
  then show ?case using fetch_handles [of "fst ss" hs d pid "snd ss" "Inl e" "fst ss'" "snd ss'"] by simp
next
  case (install hs ss pid page r ss')
  then show ?case using install_handles [of "fst ss" hs d pid page "snd ss" r "fst ss'" "snd ss'"] by simp
next
  case (flush hs ss pid r ss')
  then show ?case using flush_handles [of "fst ss" hs d pid "snd ss" r "fst ss'" "snd ss'"] by simp
next
  case (change hs sh s h f)
  then show ?case by (simp add: handle_write_def)
next
  case (drop hs1 h hs2 sh s)
  then have wf: "shard_wf {} sh" and ok: "handles_ok (hs1 @ h # hs2) sh" by simp_all
  have "map_of (sh_page_table sh) (ph_page_id h) = Some (ph_frame_id h)" using ok by (simp add: handles_ok_def)
  with drop handles_ok_unpin [OF wf ok] shard_wf_unpin [OF wf] show ?case by (simp add: handle_drop_def)
next
  case (elsewhere hs sh s s')
  then show ?case by simp
qed

section \<open>The size of the pool\<close>

lemma ilog2_le: "0 < n \<Longrightarrow> 2 ^ ilog2 n \<le> n"
proof (induction n rule: ilog2.induct)
  case (1 n)
  show ?case
  proof (cases "n < 2")
    case False
    then have "2 ^ ilog2 (n div 2) \<le> n div 2" using 1 by simp
    with False have "2 ^ Suc (ilog2 (n div 2)) \<le> n" by simp
    with False show ?thesis by (subst ilog2.simps) simp
  qed (use 1 in \<open>simp add: ilog2.simps\<close>)
qed

lemma ilog2_mono: "n < 2 ^ Suc k \<Longrightarrow> ilog2 n \<le> k"
proof (induction k arbitrary: n)
  case 0
  then show ?case by (simp add: ilog2.simps)
next
  case (Suc k)
  then show ?case by (cases "n < 2") (auto simp: ilog2.simps [of n])
qed

lemma shard_count:
  assumes "0 < n"
  shows "\<exists>k \<le> 6. shard_count_for n = 2 ^ k" and "0 < shard_count_for n" and "shard_count_for n \<le> n"
proof -
  let ?w = "min (max (n div 64) 1) 64"
  have c: "shard_count_for n = 2 ^ ilog2 ?w" by (simp add: shard_count_for_def TARGET_SHARD_FRAMES_def MAX_SHARDS_def)
  have "ilog2 ?w \<le> 6" by (rule ilog2_mono) simp
  with c show "\<exists>k \<le> 6. shard_count_for n = 2 ^ k" by blast
  show "0 < shard_count_for n" by (simp add: c)
  have "2 ^ ilog2 ?w \<le> ?w" by (rule ilog2_le) simp
  also have "\<dots> \<le> n" using assms by auto
  finally show "shard_count_for n \<le> n" by (simp only: c)
qed

lemma sum_split: "sum_list (map (\<lambda>i. q + (if i < k then 1 else 0)) [0..<m]) = m * q + min k m"
  by (induction m) auto

lemma mask_mod: "n < 64 \<Longrightarrow> unat (and (w :: u64) (of_nat (2 ^ n - 1))) = unat w mod 2 ^ n"
proof -
  assume n: "n < 64"
  have "of_nat (2 ^ n - 1) = (mask n :: u64)" by (simp add: mask_eq_exp_minus_1 of_nat_diff)
  then have "unat (and w (of_nat (2 ^ n - 1))) = take_bit n (unat w)"
    by (simp only: unsigned_take_bit_eq flip: take_bit_eq_mask)
  then show ?thesis by (simp only: take_bit_eq_mod)
qed

section \<open>Properties\<close>

text \<open>
  A pinned page stays where its handle says. After any sequence of fetches, installs, flushes and
  writes through handles, successful or not, the page table and the frames agree, every frame has
  as many pins as there are handles to it, and every outstanding handle names the frame that
  holds its page: a page in use is never evicted.
\<close>
theorem handles_stay_valid:
  assumes "reach d n hs (sh, s)" and "0 < n"
  shows "shard_wf {} sh \<and> (\<forall>f < length (sh_frames sh). sh_pin_counts sh ! f = of_nat (handles_on hs f))
    \<and> (\<forall>h \<in> set hs. ph_frame_id h < length (sh_frames sh) \<and> sh_frame_pages sh ! ph_frame_id h = Some (ph_page_id h))"
proof -
  have wf: "shard_wf {} sh" and ok: "handles_ok hs sh" using reach_ok [OF assms] by simp_all
  with shard_wfD(7) [OF wf] show ?thesis by (auto simp: handles_ok_def)
qed

text \<open>
  C26: The clock always ends with an answer within two turns: it finds a victim exactly when some frame
  is not pinned, and when there are no free frames the victim holds a page, so that taking its
  page id cannot fail.
\<close>
theorem clock_finds_victim:
  assumes "shard_wf {} sh" and "sh_free_frames sh = []" and "find_victim sh = (v, sh')"
  shows "(v = None \<longleftrightarrow> (\<forall>f < length (sh_frames sh). sh_pin_counts sh ! f \<noteq> 0))
    \<and> (\<forall>f. v = Some f \<longrightarrow> f < length (sh_frames sh) \<and> sh_pin_counts sh ! f = 0 \<and> sh_frame_pages sh' ! f \<noteq> None)"
proof -
  note vic = clock_sweep_wf [OF assms(3) [unfolded find_victim_def] assms(1)]
  have pages: "sh_frame_pages sh' = sh_frame_pages sh"
    by (rule swept_fields(3) [OF clock_sweep_swept [OF assms(3) [unfolded find_victim_def]]])
  have "sh_frame_pages sh ! f \<noteq> None" if "f < length (sh_frames sh)" for f
    using shard_wfD(9) [OF assms(1)] assms(2) that by auto
  moreover have "v = None \<Longrightarrow> f < length (sh_frames sh) \<Longrightarrow> sh_pin_counts sh ! f \<noteq> 0" for f
    using find_victim_None [OF _ assms(1)] assms(3) by simp
  ultimately show ?thesis using vic pages by (cases v) auto
qed

definition example_shard :: shard where
  "example_shard = \<lparr>sh_frames = [\<lparr>fr_page = zeroed, fr_dirty = False\<rparr>, \<lparr>fr_page = zeroed, fr_dirty = False\<rparr>],
     sh_page_table = [(PageId 1, 0), (PageId 2, 1)], sh_frame_pages = [Some (PageId 1), Some (PageId 2)],
     sh_pin_counts = [1, 0], sh_ref_bits = [True, True], sh_clock_hand = 0, sh_free_frames = []\<rparr>"

theorem clock_finds_victim_witness:
  "fst (find_victim example_shard) = Some 1 \<and> 1 < length (sh_frames example_shard) \<and> sh_pin_counts example_shard ! 1 = 0
    \<and> sh_frame_pages (snd (find_victim example_shard)) ! 1 \<noteq> None"
proof -
  have wf: "shard_wf {} example_shard"
    by (auto simp: shard_wf_def example_shard_def less_Suc_eq nth_Cons' split: if_splits)
  have run: "fst (find_victim example_shard) = Some 1"
    by (simp add: find_victim_def example_shard_def set_ref_def numeral_eq_Suc)
  have free: "sh_free_frames example_shard = []" by (simp add: example_shard_def)
  from clock_finds_victim [OF wf free prod.collapse [symmetric]] run show ?thesis by blast
qed

text \<open>
  A pool of any positive capacity has exactly that many frames, spread over a power of two of at
  most 64 shards with at least one frame each and sizes that differ by at most one; a page belongs to the
  shard its hash selects modulo their number. A capacity of zero is refused.
\<close>
theorem pool_new_splits_capacity:
  "case pool_new n of
     Inl e \<Rightarrow> n = 0 \<and> e = InvalidArgument ''buffer pool capacity must be at least 1''
   | Inr pool \<Rightarrow> pool_capacity pool = n \<and> (\<exists>k \<le> 6. length pool = 2 ^ k)
       \<and> (\<forall>i < length pool. shard_wf {} (pool ! i)
            \<and> length (sh_frames (pool ! i)) - n div length pool \<le> 1 \<and> n div length pool \<le> length (sh_frames (pool ! i)))
       \<and> (\<forall>pid. shard_for pool pid = unat (drop_bit 32 (raw pid * HASH_MULTIPLIER)) mod length pool)"
proof (cases "n = 0")
  case False
  let ?m = "shard_count_for n"
  let ?size = "\<lambda>i. n div ?m + (if i < n mod ?m then 1 else 0)"
  let ?pool = "map (\<lambda>i. shard_new (?size i)) [0..<?m]"
  note m = shard_count [of n]
  have run: "pool_new n = Inr ?pool" using False by (simp add: pool_new_def Let_def)
  have "n mod ?m < ?m" using m False by simp
  then have "pool_capacity ?pool = n"
    by (simp add: pool_capacity_def shard_new_def comp_def sum_split min_absorb1)
  moreover have "0 < n div ?m" using m False by (simp add: div_greater_zero_iff)
  moreover have "shard_for ?pool pid = unat (drop_bit 32 (raw pid * HASH_MULTIPLIER)) mod ?m" for pid
  proof -
    obtain k where k: "k \<le> 6" "?m = 2 ^ k" using m False by blast
    have "length ?pool = ?m" by simp
    then show ?thesis using k(1) by (simp only: shard_for_def Let_def k(2)) (intro mask_mod, simp)
  qed
  ultimately show ?thesis using m False shard_wf_new by (simp add: run shard_new_def)
qed (simp add: pool_new_def)

end
