(* ===== verification/Page_Cache.thy ===== *)
theory Page_Cache
  imports Buffer_Pool
begin

text \<open>
  The buffer pool as a cache of the data file, under any sequence of faults: every page it serves has
  its committed contents, a page is only dropped once the file has it, and the file never loses a
  page that has no image in the log.
\<close>

section \<open>Reading through the cache\<close>

text \<open>
  What transactions do with a handle: fetch the page, look at it, and drop the handle, which
  unpins it.
\<close>

definition read_through :: "disk_manager \<Rightarrow> page_id \<Rightarrow> (buffer_pool \<times> os, error, page) prog" where
  "read_through d pid ps =
     (case fetch_page d pid ps of
        (Inl e, ps') \<Rightarrow> (Inl e, ps')
      | (Inr handle, (pool, s)) \<Rightarrow>
          let i = shard_for pool (ph_page_id handle);
              page = handle_read handle (pool ! i)
          in (Inr page, (pool[i := handle_drop handle (pool ! i)], s)))"

section \<open>The cache invariant\<close>

text \<open>
  What the pool promises, whatever the system does. \<open>C\<close> is the committed contents of the data
  pages and \<open>D\<close> the pages that may differ from the data file (those with an image in the log).
  Every cached page has its committed contents, only pages of \<open>D\<close> are dirty, and every page
  that is not dirty here or elsewhere (\<open>Q\<close>) is in the file. \<open>P\<close> is a property of every image
  a crash may leave of the file; it does not depend on the pages of \<open>D\<close>.
\<close>

definition cached :: "shard \<Rightarrow> page_id \<Rightarrow> frame option" where
  "cached sh pid = map_option (\<lambda>f. sh_frames sh ! f) (map_of (sh_page_table sh) pid)"

definition dirty_in :: "shard \<Rightarrow> page_id \<Rightarrow> bool" where
  "dirty_in sh pid \<longleftrightarrow> (\<exists>fr. cached sh pid = Some fr \<and> fr_dirty fr)"

definition cache_ctx :: "disk_manager \<Rightarrow> (bytes \<Rightarrow> bool) \<Rightarrow> page_id set \<Rightarrow> (page_id \<Rightarrow> page option) \<Rightarrow> bool" where
  "cache_ctx d P D C \<longleftrightarrow> (\<forall>pid p. C pid = Some p \<longrightarrow> valid_page pid p \<and> disk_addr d pid) \<and>
     (\<forall>pid \<in> D. \<forall>p. write_closed P (unat (file_offset pid)) (as_bytes p))"

definition frames_inv :: "page_id set \<Rightarrow> (page_id \<Rightarrow> page option) \<Rightarrow> shard \<Rightarrow> bool" where
  "frames_inv D C sh \<longleftrightarrow> (\<forall>pid fr. cached sh pid = Some fr \<longrightarrow> C pid = Some (fr_page fr) \<and> (fr_dirty fr \<longrightarrow> pid \<in> D))"

definition file_inv :: "disk_manager \<Rightarrow> (bytes \<Rightarrow> bool) \<Rightarrow> (page_id \<Rightarrow> page option) \<Rightarrow> (page_id \<Rightarrow> bool) \<Rightarrow> os \<Rightarrow> bool" where
  "file_inv d P C dirty s \<longleftrightarrow> (\<exists>f. files s (dk_file d) = Some f \<and> survives P f \<and>
     (\<forall>pid p. C pid = Some p \<longrightarrow> dirty pid \<or> page_at (unat (raw pid)) p (contents f)))"

definition shard_inv where
  "shard_inv d P D C Q X ss \<longleftrightarrow> shard_wf X (fst ss) \<and> frames_inv D C (fst ss)
     \<and> file_inv d P C (\<lambda>pid. dirty_in (fst ss) pid \<or> Q pid) (snd ss)"

lemma shard_invD:
  assumes "shard_inv d P D C Q X (sh, s)"
  shows "shard_wf X sh" "frames_inv D C sh" "file_inv d P C (\<lambda>pid. dirty_in sh pid \<or> Q pid) s"
  using assms by (simp_all add: shard_inv_def)

lemma file_inv_mono:
  "file_inv d P C dirty s \<Longrightarrow> (\<And>pid p. C pid = Some p \<Longrightarrow> dirty pid \<Longrightarrow> dirty' pid) \<Longrightarrow> file_inv d P C dirty' s"
  unfolding file_inv_def by meson

lemma cached_set_simps [simp]:
  "cached (pin f sh) = cached sh" "cached (unpin f sh) = cached sh" "cached (set_ref f b sh) = cached sh"
  "dirty_in (pin f sh) = dirty_in sh" "dirty_in (unpin f sh) = dirty_in sh" "dirty_in (set_ref f b sh) = dirty_in sh"
  by (simp_all add: cached_def dirty_in_def fun_eq_iff)

lemma frames_inv_simps [simp]:
  "frames_inv D C (pin f sh) = frames_inv D C sh" "frames_inv D C (unpin f sh) = frames_inv D C sh"
  "frames_inv D C (set_ref f b sh) = frames_inv D C sh"
  by (simp_all add: frames_inv_def)

lemma cached_set_frame:
  assumes "shard_wf X sh" and "map_of (sh_page_table sh) pid = Some f"
  shows "cached (set_frame f fr sh) = (cached sh)(pid \<mapsto> fr)"
proof
  fix a
  show "cached (set_frame f fr sh) a = ((cached sh)(pid \<mapsto> fr)) a"
  proof (cases "a = pid")
    case True
    have "f < length (sh_frames sh)" using assms shard_wfD(7) by blast
    with True assms(2) show ?thesis by (simp add: cached_def)
  next
    case False
    have "sh_frames (set_frame f fr sh) ! g = sh_frames sh ! g" if "map_of (sh_page_table sh) a = Some g" for g
      using table_inj [OF assms(1), of a g pid] that False assms(2) by (cases "g = f") auto
    with False show ?thesis by (cases "map_of (sh_page_table sh) a") (simp_all add: cached_def)
  qed
qed

lemma write_back_inv:
  assumes ctx: "cache_ctx d P D C" and inv: "shard_inv d P D C Q X (sh, s)"
    and at: "map_of (sh_page_table sh) pid = Some f" and run: "write_back d f pid (sh, s) = (r, (sh', s'))"
  shows "shard_inv d P D C Q X (sh', s') \<and> keeps (dk_file d) s s' \<and>
    (\<exists>b. sh' = set_frame f ((sh_frames sh ! f)\<lparr>fr_dirty := b\<rparr>) sh \<and> (r = Inr () \<longrightarrow> \<not> b))"
proof -
  note wf = shard_invD(1) [OF inv] and frames = shard_invD(2) [OF inv]
  let ?fr = "sh_frames sh ! f"
  have c: "cached sh pid = Some ?fr" by (simp add: cached_def at)
  then have Cp: "C pid = Some (fr_page ?fr)" using frames by (simp add: frames_inv_def)
  show ?thesis
  proof (cases "fr_dirty ?fr")
    case False
    then have "?fr\<lparr>fr_dirty := False\<rparr> = ?fr" by (cases "?fr") simp
    moreover have "set_frame f ?fr sh = sh" by (simp add: set_frame_def)
    moreover have "r = Inr ()" "sh' = sh" "s' = s" using run False by (auto simp: write_back_def Let_def)
    ultimately show ?thesis using inv by (intro conjI exI [of _ False]) simp_all
  next
    case True
    then have D: "pid \<in> D" using c frames by (auto simp: frames_inv_def)
    have v: "valid_page pid (fr_page ?fr)" "disk_addr d pid" and cl: "write_closed P (unat (file_offset pid)) (as_bytes (fr_page ?fr))"
      using ctx Cp D by (auto simp: cache_ctx_def)
    obtain g where g: "files s (dk_file d) = Some g" "survives P g"
      "\<And>a p. C a = Some p \<Longrightarrow> dirty_in sh a \<or> Q a \<or> page_at (unat (raw a)) p (contents g)"
      using shard_invD(3) [OF inv] by (auto simp: file_inv_def)
    obtain r1 q t where wr: "disk_write_page d pid (fr_page ?fr, s) = (r1, (q, t))" by (metis surj_pair)
    from disk_write_page_any [OF wr g(1) v g(2) cl] obtain h where q: "q = fr_page ?fr" "keeps (dk_file d) s t"
      and h: "files t (dk_file d) = Some h" "survives P h" "r1 = Inr () \<longrightarrow> page_at (unat (raw pid)) (fr_page ?fr) (contents h)"
        "\<And>n p. n \<noteq> unat (raw pid) \<Longrightarrow> page_at n p (contents g) \<Longrightarrow> page_at n p (contents h)"
      by blast
    define b where "b \<longleftrightarrow> (\<exists>e. r1 = Inl e)"
    have res: "sh' = set_frame f (?fr\<lparr>fr_dirty := b\<rparr>) sh \<and> s' = t \<and> (r = Inr () \<longrightarrow> \<not> b)"
    proof (cases r1)
      case (Inl e)
      then have b: "b = True" by (simp add: b_def)
      have same: "?fr\<lparr>fr_dirty := True\<rparr> = ?fr" "?fr\<lparr>fr_page := fr_page ?fr\<rparr> = ?fr" using True by (cases "?fr", simp)+
      show ?thesis using run True wr q(1) Inl by (auto simp: write_back_def b same)
    next
      case (Inr u)
      then have b: "b = False" by (simp add: b_def)
      have same: "?fr\<lparr>fr_dirty := False\<rparr> = \<lparr>fr_page = fr_page ?fr, fr_dirty = False\<rparr>" by (cases "?fr") simp
      show ?thesis using run True wr q(1) Inr by (auto simp: write_back_def b same)
    qed
    note cach = cached_set_frame [OF wf at, of "?fr\<lparr>fr_dirty := b\<rparr>"]
    have "frames_inv D C sh'" using frames Cp D unfolding frames_inv_def res [THEN conjunct1] cach by simp
    moreover have dirty: "dirty_in sh' a \<longleftrightarrow> (if a = pid then b else dirty_in sh a)" for a
      by (simp add: dirty_in_def res cach)
    have "file_inv d P C (\<lambda>a. dirty_in sh' a \<or> Q a) s'"
      unfolding file_inv_def
    proof (intro exI [of _ h] conjI allI impI)
      fix a p assume Ca: "C a = Some p"
      show "(dirty_in sh' a \<or> Q a) \<or> page_at (unat (raw a)) p (contents h)"
      proof (cases "a = pid")
        case True
        with h(3) Ca Cp dirty show ?thesis by (cases r1) (auto simp: b_def)
      next
        case False
        with g(3) [OF Ca] dirty h(4) page_ids_differ [OF False] show ?thesis by auto
      qed
    qed (use h res in simp_all)
    ultimately show ?thesis using wf q(2) res by (auto simp: shard_inv_def)
  qed
qed

subsection \<open>Taking, filling and returning frames\<close>

lemma cached_evict:
  assumes "shard_wf X sh" and "map_of (sh_page_table sh) pid = Some f"
  shows "cached (evict pid f sh) = (cached sh)(pid := None)"
  by (auto simp: cached_def evict_def fun_eq_iff)

lemma cached_fill:
  assumes "shard_wf {f} sh" and "map_of (sh_page_table sh) pid = None"
  shows "cached (fill pid f fr sh) = (cached sh)(pid \<mapsto> fr)"
proof
  fix a
  have f: "f < length (sh_frames sh)" "sh_frame_pages sh ! f = None" using shard_wfD(8) [OF assms(1)] by auto
  have "g \<noteq> f" if "map_of (sh_page_table sh) a = Some g" for g
    using that f shard_wfD(7) [OF assms(1), of a g] by auto
  with f show "cached (fill pid f fr sh) a = ((cached sh)(pid \<mapsto> fr)) a"
    by (cases "map_of (sh_page_table sh) a") (auto simp: cached_def fill_def)
qed

lemma cached_free_frames [simp]:
  "cached (sh\<lparr>sh_free_frames := x\<rparr>) = cached sh" "dirty_in (sh\<lparr>sh_free_frames := x\<rparr>) = dirty_in sh"
  "frames_inv D C (sh\<lparr>sh_free_frames := x\<rparr>) = frames_inv D C sh"
  by (simp_all add: cached_def dirty_in_def frames_inv_def fun_eq_iff)

lemma cached_swept:
  "swept sh sh' \<Longrightarrow> cached sh' = cached sh \<and> dirty_in sh' = dirty_in sh \<and> frames_inv D C sh' = frames_inv D C sh"
  by (simp add: cached_def dirty_in_def frames_inv_def fun_eq_iff swept_fields)

text \<open>The pinned pages of \<open>sh\<close> are still in their frames in \<open>sh'\<close>, unchanged.\<close>

definition pinned_kept :: "shard \<Rightarrow> shard \<Rightarrow> bool" where
  "pinned_kept sh sh' \<longleftrightarrow> (\<forall>pid f. map_of (sh_page_table sh) pid = Some f \<longrightarrow> sh_pin_counts sh ! f \<noteq> 0 \<longrightarrow>
     map_of (sh_page_table sh') pid = Some f \<and> fr_page (sh_frames sh' ! f) = fr_page (sh_frames sh ! f))"

lemma acquire_inv:
  assumes ctx: "cache_ctx d P D C" and inv: "shard_inv d P D C Q {} (sh, s)"
    and run: "acquire_frame d (sh, s) = (r, (sh', s'))"
  shows "keeps (dk_file d) s s' \<and> sh_pin_counts sh' = sh_pin_counts sh \<and> pinned_kept sh sh'
    \<and> length (sh_frames sh') = length (sh_frames sh)
    \<and> (\<forall>pid. map_of (sh_page_table sh) pid = None \<longrightarrow> map_of (sh_page_table sh') pid = None)
    \<and> (case r of Inl _ \<Rightarrow> shard_inv d P D C Q {} (sh', s') | Inr f \<Rightarrow> shard_inv d P D C Q {f} (sh', s'))"
proof (cases "sh_free_frames sh = []")
  case False
  then have "r = Inr (last (sh_free_frames sh))" "sh' = sh\<lparr>sh_free_frames := butlast (sh_free_frames sh)\<rparr>" "s' = s"
    using run by (auto simp: acquire_frame_def)
  with shard_wf_pop [OF shard_invD(1) [OF inv] False] inv show ?thesis
    by (simp add: shard_inv_def pinned_kept_def)
next
  case True
  note wf = shard_invD(1) [OF inv]
  obtain v sh1 where fv: "find_victim sh = (v, sh1)" by fastforce
  note sw = clock_sweep_swept [OF fv [unfolded find_victim_def]]
  have vic: "shard_wf {} sh1" "v = Some f \<Longrightarrow> f < length (sh_frames sh) \<and> sh_pin_counts sh ! f = 0" for f
    using clock_sweep_wf [OF fv [unfolded find_victim_def] wf] by auto
  have inv1: "shard_inv d P D C Q {} (sh1, s)"
    using inv vic(1) cached_swept [OF sw] by (simp add: shard_inv_def)
  show ?thesis
  proof (cases v)
    case None
    then have "r = Inl (ResourceExhausted (''all '' @ show_nat (length (sh_frames sh1))
        @ '' frames in a buffer pool shard are pinned''))" "sh' = sh1" "s' = s"
      using run True fv by (auto simp: acquire_frame_def)
    with inv1 swept_fields [OF sw] show ?thesis by (simp add: pinned_kept_def)
  next
    case (Some f)
    have free: "f < length (sh_frames sh)" "sh_pin_counts sh ! f = 0" using vic(2) Some by auto
    then obtain old where old: "sh_frame_pages sh ! f = Some old" using shard_wfD(9) [OF wf] True by auto
    have at: "map_of (sh_page_table sh1) old = Some f" "map_of (sh_page_table sh) old = Some f"
      using free old shard_wfD(7) [OF wf] swept_fields [OF sw] by auto
    obtain r2 sh2 s2 where wb: "write_back d f old (sh1, s) = (r2, (sh2, s2))" by (metis surj_pair)
    from write_back_inv [OF ctx inv1 at(1) wb] obtain b where inv2: "shard_inv d P D C Q {} (sh2, s2)"
      and t: "keeps (dk_file d) s s2" and sh2: "sh2 = set_frame f ((sh_frames sh1 ! f)\<lparr>fr_dirty := b\<rparr>) sh1"
      and clean: "r2 = Inr () \<longrightarrow> \<not> b" by blast
    have pages: "sh_page_table sh2 = sh_page_table sh" "sh_frame_pages sh2 = sh_frame_pages sh" "sh_pin_counts sh2 = sh_pin_counts sh"
      "sh_frames sh2 = (sh_frames sh)[f := (sh_frames sh ! f)\<lparr>fr_dirty := b\<rparr>]"
      using swept_fields [OF sw] by (simp_all add: sh2)
    have keep: "pinned_kept sh sh2" using pages free(2) by (auto simp: pinned_kept_def) (metis nth_list_update_neq)
    show ?thesis
    proof (cases r2)
      case (Inl e)
      then have "r = Inl e" "sh' = sh2" "s' = s2"
        using run True fv Some wb old swept_fields [OF sw] by (auto simp: acquire_frame_def)
      with inv2 t pages keep show ?thesis by simp
    next
      case (Inr u)
      then have res: "r = Inr f" "sh' = evict old f sh2" "s' = s2"
        using run True fv Some wb old swept_fields [OF sw] by (auto simp: acquire_frame_def evict_def)
      note wf2 = shard_invD(1) [OF inv2]
      have at2: "map_of (sh_page_table sh2) old = Some f" using at pages by simp
      have wf': "shard_wf {f} sh'"
        using shard_wf_evict [OF wf2 at2] free(2) by (simp add: res pages)
      note c = cached_evict [OF wf2 at2]
      have "\<not> dirty_in sh2 old" using at2 pages free(1) clean Inr by (simp add: dirty_in_def cached_def)
      then have dirty: "dirty_in sh' = dirty_in sh2"
        by (auto simp: dirty_in_def fun_eq_iff res c)
      have "frames_inv D C sh'" using shard_invD(2) [OF inv2] by (simp add: frames_inv_def res c)
      with wf' shard_invD(3) [OF inv2] dirty res have "shard_inv d P D C Q {f} (sh', s')"
        by (simp add: shard_inv_def)
      moreover have "pinned_kept sh sh'"
        using keep free(2) at(2) by (auto simp: pinned_kept_def res evict_def pages)
      ultimately show ?thesis using t pages by (auto simp: res evict_def)
    qed
  qed
qed

lemma pinned_kept_fill:
  assumes "pinned_kept sh sh1" and "shard_wf {f} sh1" and "map_of (sh_page_table sh1) pid = None"
    and "sh_page_table sh' = sh_page_table (fill pid f fr sh1)" and "sh_frames sh' = sh_frames (fill pid f fr sh1)"
  shows "pinned_kept sh sh'"
  unfolding pinned_kept_def
proof (intro allI impI)
  fix a g assume "map_of (sh_page_table sh) a = Some g" "sh_pin_counts sh ! g \<noteq> 0"
  with assms(1) have at: "map_of (sh_page_table sh1) a = Some g" and page: "fr_page (sh_frames sh1 ! g) = fr_page (sh_frames sh ! g)"
    by (auto simp: pinned_kept_def)
  have "sh_frame_pages sh1 ! f = None" using shard_wfD(8) [OF assms(2)] by auto
  with at shard_wfD(7) [OF assms(2), of a g] have "g \<noteq> f" by auto
  with at page assms(3) show "map_of (sh_page_table sh') a = Some g \<and> fr_page (sh_frames sh' ! g) = fr_page (sh_frames sh ! g)"
    by (auto simp: assms(4,5) fill_def)
qed

text \<open>Filling a frame that was taken, clean with what the file has or dirty with new contents.\<close>

lemma fill_inv:
  assumes inv: "shard_inv d P D C Q {f} (sh, s)" and none: "map_of (sh_page_table sh) pid = None"
    and new: "C' = C(pid \<mapsto> fr_page fr)" "D \<subseteq> D'" "fr_dirty fr \<longrightarrow> pid \<in> D'" "\<not> fr_dirty fr \<longrightarrow> C pid = Some (fr_page fr)"
    and sh': "shard_wf {} sh'" "sh_page_table sh' = sh_page_table (fill pid f fr sh)" "sh_frames sh' = sh_frames (fill pid f fr sh)"
  shows "shard_inv d P D' C' Q {} (sh', s)"
proof -
  have c: "cached sh' = (cached sh)(pid \<mapsto> fr)"
    using cached_fill [OF shard_invD(1) [OF inv] none, of fr] by (simp add: cached_def sh' fun_eq_iff)
  have clean: "\<not> dirty_in sh pid" by (simp add: dirty_in_def cached_def none)
  have dirty: "dirty_in sh' a \<longleftrightarrow> (if a = pid then fr_dirty fr else dirty_in sh a)" for a
    by (simp add: dirty_in_def c)
  have "frames_inv D' C' sh'"
    using shard_invD(2) [OF inv] new by (auto simp: frames_inv_def c)
  moreover have "file_inv d P C' (\<lambda>a. dirty_in sh' a \<or> Q a) s"
    using shard_invD(3) [OF inv] clean new unfolding file_inv_def by (auto simp: dirty)
  ultimately show ?thesis using sh'(1) by (simp add: shard_inv_def)
qed

lemma fill_wf_pinned:
  "shard_wf {f} sh \<Longrightarrow> map_of (sh_page_table sh) pid = None \<Longrightarrow>
   shard_wf {} (set_ref f True ((fill pid f fr sh)\<lparr>sh_pin_counts := (sh_pin_counts sh)[f := k]\<rparr>))"
  using shard_wf_pin_counts [OF shard_wf_fill [of f sh pid fr], of pid f k] by (simp add: fill_def)

subsection \<open>The operations of a shard\<close>

lemma fetch_inv:
  assumes ctx: "cache_ctx d P D C" and inv: "shard_inv d P D C Q {} (sh, s)" and Cp: "C pid = Some p" "\<not> Q pid"
    and run: "shard_fetch_page d pid (sh, s) = (r, (sh', s'))"
  shows "keeps (dk_file d) s s' \<and> shard_inv d P D C Q {} (sh', s') \<and> pinned_kept sh sh'
    \<and> (\<forall>a. map_of (sh_page_table sh) a = None \<longrightarrow> a \<noteq> pid \<longrightarrow> map_of (sh_page_table sh') a = None)
    \<and> (\<forall>h. r = Inr h \<longrightarrow> map_of (sh_page_table sh') pid = Some (ph_frame_id h) \<and> ph_page_id h = pid \<and> handle_read h sh' = p)"
proof (cases "map_of (sh_page_table sh) pid")
  case (Some f)
  then have res: "r = Inr \<lparr>ph_frame_id = f, ph_page_id = pid\<rparr>" "sh' = set_ref f True (pin f sh)" "s' = s"
    using run by (auto simp: shard_fetch_page_def)
  have "cached sh pid = Some (sh_frames sh ! f)" by (simp add: cached_def Some)
  then have "fr_page (sh_frames sh ! f) = p" using shard_invD(2) [OF inv] Cp by (auto simp: frames_inv_def)
  with Some inv res shard_wf_pin [OF shard_invD(1) [OF inv] Some] show ?thesis
    by (simp add: shard_inv_def pinned_kept_def handle_read_def)
next
  case None
  obtain r1 sh1 s1 where ac: "acquire_frame d (sh, s) = (r1, (sh1, s1))" by (metis surj_pair)
  note A = acquire_inv [OF ctx inv ac]
  show ?thesis
  proof (cases r1)
    case (Inl e)
    then have "r = Inl e" "sh' = sh1" "s' = s1" using run None ac by (auto simp: shard_fetch_page_def and_then_def)
    with A Inl show ?thesis by auto
  next
    case (Inr f)
    have inv1: "shard_inv d P D C Q {f} (sh1, s1)" and keep: "pinned_kept sh sh1"
      and gone: "\<And>a. map_of (sh_page_table sh) a = None \<Longrightarrow> map_of (sh_page_table sh1) a = None"
      using A Inr by auto
    from gone None have none: "map_of (sh_page_table sh1) pid = None" by simp
    obtain g where g: "files s1 (dk_file d) = Some g"
      "\<And>a q. C a = Some q \<Longrightarrow> dirty_in sh1 a \<or> Q a \<or> page_at (unat (raw a)) q (contents g)"
      using shard_invD(3) [OF inv1] by (auto simp: file_inv_def)
    have "\<not> dirty_in sh1 pid" by (simp add: dirty_in_def cached_def none)
    with g(2) [OF Cp(1)] Cp(2) have at: "page_at (unat (raw pid)) p (contents g)" by simp
    have addr: "disk_addr d pid" using ctx Cp(1) by (auto simp: cache_ctx_def)
    obtain r2 s2 where rd: "disk_read_page d pid s1 = (r2, s2)" by fastforce
    note R = disk_read_page_any [OF rd g(1) addr at]
    have file2: "file_inv d P C dirty s2 \<longleftrightarrow> file_inv d P C dirty s1" for dirty using R by (simp add: file_inv_def)
    have t: "keeps (dk_file d) s s2" using A R keeps_trans by blast
    show ?thesis
    proof (cases r2)
      case (Inl e)
      then have "r = Inl e" "sh' = sh1\<lparr>sh_free_frames := sh_free_frames sh1 @ [f]\<rparr>" "s' = s2"
        using run None ac rd \<open>r1 = Inr f\<close> by (auto simp: shard_fetch_page_def and_then_def)
      with inv1 A t file2 shard_wf_give_back [OF shard_invD(1) [OF inv1]] show ?thesis
        by (auto simp: shard_inv_def pinned_kept_def)
    next
      case (Inr q)
      with R have q: "q = p" by simp
      let ?fr = "\<lparr>fr_page = p, fr_dirty = False\<rparr>"
      have res: "r = Inr \<lparr>ph_frame_id = f, ph_page_id = pid\<rparr>" "s' = s2"
        "sh' = set_ref f True ((fill pid f ?fr sh1)\<lparr>sh_pin_counts := (sh_pin_counts sh1)[f := 1]\<rparr>)"
        using run None ac rd \<open>r1 = Inr f\<close> Inr q
        by (auto simp: shard_fetch_page_def and_then_def Let_def fill_def set_frame_def set_ref_def)
      have f: "f < length (sh_frames sh1)" using shard_wfD(8) [OF shard_invD(1) [OF inv1]] by auto
      have inv2: "shard_inv d P D C Q {f} (sh1, s2)" using inv1 file2 by (simp add: shard_inv_def)
      have "shard_inv d P D C Q {} (sh', s')" unfolding res(2)
        by (rule fill_inv [OF inv2 none, where fr = ?fr])
          (use Cp(1) fill_wf_pinned [OF shard_invD(1) [OF inv1] none] in \<open>auto simp: res(3)\<close>)
      moreover have "pinned_kept sh sh'"
        using res by (intro pinned_kept_fill [OF keep shard_invD(1) [OF inv1] none, where fr = ?fr]) simp_all
      moreover have "map_of (sh_page_table sh') a = None" if "map_of (sh_page_table sh) a = None" "a \<noteq> pid" for a
        using that gone by (simp add: res fill_def)
      moreover have "map_of (sh_page_table sh') pid = Some f" "sh_frames sh' ! f = ?fr" using f by (simp_all add: res fill_def)
      ultimately show ?thesis using t by (simp add: res handle_read_def)
    qed
  qed
qed

text \<open>Overwriting a cached page.\<close>

lemma overwrite_inv:
  assumes inv: "shard_inv d P D C Q {} (sh, s)" and at: "map_of (sh_page_table sh) pid = Some f"
  shows "shard_inv d P (insert pid D) (C(pid \<mapsto> page)) Q {} (set_frame f \<lparr>fr_page = page, fr_dirty = True\<rparr> sh, s)"
proof -
  let ?sh = "set_frame f \<lparr>fr_page = page, fr_dirty = True\<rparr> sh"
  have c: "cached ?sh = (cached sh)(pid \<mapsto> \<lparr>fr_page = page, fr_dirty = True\<rparr>)"
    by (rule cached_set_frame [OF shard_invD(1) [OF inv] at])
  have "frames_inv (insert pid D) (C(pid \<mapsto> page)) ?sh"
    using shard_invD(2) [OF inv] by (auto simp: frames_inv_def c)
  moreover have "dirty_in ?sh a \<longleftrightarrow> a = pid \<or> dirty_in sh a" for a by (auto simp: dirty_in_def c)
  then have "file_inv d P (C(pid \<mapsto> page)) (\<lambda>a. dirty_in ?sh a \<or> Q a) s"
    using shard_invD(3) [OF inv] by (auto simp: file_inv_def)
  ultimately show ?thesis using shard_invD(1) [OF inv] by (simp add: shard_inv_def)
qed

lemma install_inv:
  assumes ctx: "cache_ctx d P D C" and inv: "shard_inv d P D C Q {} (sh, s)"
    and run: "shard_install_page d pid page (sh, s) = (r, (sh', s'))"
  shows "keeps (dk_file d) s s'
    \<and> (\<forall>a. map_of (sh_page_table sh) a = None \<longrightarrow> a \<noteq> pid \<longrightarrow> map_of (sh_page_table sh') a = None)
    \<and> (case r of Inl _ \<Rightarrow> shard_inv d P D C Q {} (sh', s')
       | Inr _ \<Rightarrow> shard_inv d P (insert pid D) (C(pid \<mapsto> page)) Q {} (sh', s'))"
proof (cases "map_of (sh_page_table sh) pid")
  case (Some f)
  let ?fr = "\<lparr>fr_page = page, fr_dirty = True\<rparr>"
  have res: "r = Inr ()" "s' = s" "sh' = unpin f (set_frame f ?fr (set_ref f True (pin f sh)))"
    using run Some by (auto simp: shard_install_page_def Let_def)
  have "shard_inv d P D C Q {} (set_ref f True (pin f sh), s)"
    using inv shard_wf_pin [OF shard_invD(1) [OF inv] Some] by (simp add: shard_inv_def)
  from overwrite_inv [OF this, of pid f page] Some
  have "shard_inv d P (insert pid D) (C(pid \<mapsto> page)) Q {} (set_frame f ?fr (set_ref f True (pin f sh)), s)" by simp
  then have "shard_inv d P (insert pid D) (C(pid \<mapsto> page)) Q {} (sh', s)"
    using shard_wf_unpin [of "{}" "set_frame f ?fr (set_ref f True (pin f sh))" pid f] Some
    by (simp add: shard_inv_def res)
  then show ?thesis by (simp add: res)
next
  case None
  obtain r1 sh1 s1 where ac: "acquire_frame d (sh, s) = (r1, (sh1, s1))" by (metis surj_pair)
  note A = acquire_inv [OF ctx inv ac]
  show ?thesis
  proof (cases r1)
    case (Inl e)
    then have "r = Inl e" "sh' = sh1" "s' = s1" using run None ac by (auto simp: shard_install_page_def and_then_def)
    with A Inl show ?thesis by simp
  next
    case (Inr f)
    let ?fr = "\<lparr>fr_page = page, fr_dirty = True\<rparr>"
    have inv1: "shard_inv d P D C Q {f} (sh1, s1)" and none: "map_of (sh_page_table sh1) pid = None"
      using A Inr None by auto
    have res: "r = Inr ()" "s' = s1" "sh' = set_ref f True (fill pid f ?fr sh1)"
      using run None ac Inr
      by (auto simp: shard_install_page_def and_then_def Let_def fill_def set_frame_def set_ref_def)
    have "shard_inv d P (insert pid D) (C(pid \<mapsto> page)) Q {} (sh', s1)"
      by (rule fill_inv [OF inv1 none, where fr = ?fr])
        (use shard_wf_fill [OF shard_invD(1) [OF inv1] none] in \<open>auto simp: res(3)\<close>)
    with A show ?thesis by (simp add: res fill_def)
  qed
qed

lemma flush_inv:
  assumes ctx: "cache_ctx d P D C" and inv: "shard_inv d P D C Q {} (sh, s)"
    and run: "shard_flush_page d pid (sh, s) = (r, (sh', s'))"
  shows "keeps (dk_file d) s s' \<and> shard_inv d P D C Q {} (sh', s') \<and> sh_page_table sh' = sh_page_table sh
    \<and> (r = Inr () \<longrightarrow> \<not> dirty_in sh' pid) \<and> (\<forall>a. a \<noteq> pid \<longrightarrow> dirty_in sh' a = dirty_in sh a)"
proof (cases "map_of (sh_page_table sh) pid")
  case None
  with run inv show ?thesis by (auto simp: shard_flush_page_def dirty_in_def cached_def)
next
  case (Some f)
  obtain r1 sh1 s1 where wb: "write_back d f pid (pin f sh, s) = (r1, (sh1, s1))" by (metis surj_pair)
  have at: "map_of (sh_page_table (pin f sh)) pid = Some f" by (simp add: Some)
  have inv0: "shard_inv d P D C Q {} (pin f sh, s)"
    using inv shard_wf_pin [OF shard_invD(1) [OF inv] Some] by (simp add: shard_inv_def)
  from write_back_inv [OF ctx inv0 at wb] obtain b where inv1: "shard_inv d P D C Q {} (sh1, s1)"
    and t: "keeps (dk_file d) s s1" and sh1: "sh1 = set_frame f ((sh_frames (pin f sh) ! f)\<lparr>fr_dirty := b\<rparr>) (pin f sh)"
    and clean: "r1 = Inr () \<longrightarrow> \<not> b" by blast
  have res: "r = r1" "sh' = unpin f sh1" "s' = s1" using run Some wb by (auto simp: shard_flush_page_def)
  have table: "sh_page_table sh1 = sh_page_table sh" by (simp add: sh1)
  have c: "cached sh1 = (cached sh)(pid \<mapsto> (sh_frames sh ! f)\<lparr>fr_dirty := b\<rparr>)"
    using cached_set_frame [OF shard_invD(1) [OF inv0] at] by (simp add: sh1)
  have "shard_wf {} (unpin f sh1)" using shard_wf_unpin [OF shard_invD(1) [OF inv1]] Some table by simp
  with inv1 have "shard_inv d P D C Q {} (sh', s')" by (simp add: shard_inv_def res)
  moreover have "r = Inr () \<longrightarrow> \<not> dirty_in sh' pid" using clean by (simp add: res dirty_in_def c)
  ultimately show ?thesis using t table by (auto simp: res dirty_in_def c)
qed

lemma for_each_flush_inv:
  assumes ctx: "cache_ctx d P D C" and inv: "shard_inv d P D C Q {} (sh, s)"
    and run: "for_each (shard_flush_page d) pids (sh, s) = (r, (sh', s'))"
  shows "keeps (dk_file d) s s' \<and> shard_inv d P D C Q {} (sh', s') \<and> sh_page_table sh' = sh_page_table sh
    \<and> (r = Inr () \<longrightarrow> (\<forall>pid \<in> set pids. \<not> dirty_in sh' pid)) \<and> (\<forall>a. a \<notin> set pids \<longrightarrow> dirty_in sh' a = dirty_in sh a)"
  using inv run
proof (induction pids arbitrary: sh s)
  case Nil
  then show ?case by (auto simp: ok_def)
next
  case (Cons pid pids)
  obtain r1 sh1 s1 where fl: "shard_flush_page d pid (sh, s) = (r1, (sh1, s1))" by (metis surj_pair)
  note F = flush_inv [OF ctx Cons.prems(1) fl]
  show ?case
  proof (cases r1)
    case (Inl e)
    with Cons.prems(2) fl have "r = Inl e" "sh' = sh1" "s' = s1" by (auto simp: and_then_def)
    with F show ?thesis by auto
  next
    case (Inr u)
    with Cons.prems(2) fl have rest: "for_each (shard_flush_page d) pids (sh1, s1) = (r, (sh', s'))" by (simp add: and_then_def)
    from F have "shard_inv d P D C Q {} (sh1, s1)" by simp
    note IH = Cons.IH [OF this rest]
    have "keeps (dk_file d) s s'" using F IH keeps_trans by blast
    with F IH Inr show ?thesis by (cases "pid \<in> set pids") auto
  qed
qed

lemma flush_cached_inv:
  assumes "cache_ctx d P D C" and "shard_inv d P D C Q {} (sh, s)" and "flush_cached d (sh, s) = (r, (sh', s'))"
  shows "keeps (dk_file d) s s' \<and> shard_inv d P D C Q {} (sh', s') \<and> sh_page_table sh' = sh_page_table sh
    \<and> (r = Inr () \<longrightarrow> (\<forall>pid. \<not> dirty_in sh' pid))"
proof -
  note F = for_each_flush_inv [OF assms(1,2) assms(3) [unfolded flush_cached_def fst_conv]]
  have "\<not> dirty_in sh' pid" if "pid \<notin> set (map fst (sh_page_table sh))" for pid
  proof -
    have "map_of (sh_page_table sh') pid = None" using F that by (metis (no_types) list.set_map map_of_eq_None_iff)
    then show ?thesis by (simp add: dirty_in_def cached_def)
  qed
  with F show ?thesis by blast
qed

section \<open>The pool\<close>

lemma shard_for_less: "pool \<noteq> [] \<Longrightarrow> shard_for pool pid < length pool"
proof -
  assume "pool \<noteq> []"
  let ?n = "length pool - 1"
  have "unat (and (drop_bit 32 (raw pid * HASH_MULTIPLIER)) (of_nat ?n :: u64)) \<le> unat (of_nat ?n :: u64)"
    by (metis word_and_le1 word_le_nat_alt)
  also have "\<dots> \<le> ?n" by (simp add: unat_of_nat)
  finally show ?thesis using \<open>pool \<noteq> []\<close> by (cases pool) (simp_all add: shard_for_def Let_def)
qed

lemma shard_for_update [simp]: "shard_for (pool[i := sh]) = shard_for pool"
  by (simp add: shard_for_def fun_eq_iff)

definition dirty_at :: "buffer_pool \<Rightarrow> nat \<Rightarrow> page_id \<Rightarrow> bool" where
  "dirty_at pool i pid \<longleftrightarrow> i < length pool \<and> dirty_in (pool ! i) pid"

text \<open>Every shard is sound and caches only the pages that hash to it.\<close>

definition pool_inv where
  "pool_inv d P D C ps \<longleftrightarrow> fst ps \<noteq> [] \<and>
     (\<forall>i < length (fst ps). shard_wf {} (fst ps ! i) \<and> frames_inv D C (fst ps ! i)
        \<and> (\<forall>pid. map_of (sh_page_table (fst ps ! i)) pid \<noteq> None \<longrightarrow> shard_for (fst ps) pid = i))
     \<and> file_inv d P C (\<lambda>pid. \<exists>i. dirty_at (fst ps) i pid) (snd ps)"

lemma pool_inv_shard:
  assumes "pool_inv d P D C (pool, s)" and "i < length pool"
  shows "shard_inv d P D C (\<lambda>pid. \<exists>j. j \<noteq> i \<and> dirty_at pool j pid) {} (pool ! i, s)"
proof -
  have "(\<exists>j. dirty_at pool j pid) \<longleftrightarrow> dirty_in (pool ! i) pid \<or> (\<exists>j. j \<noteq> i \<and> dirty_at pool j pid)" for pid
    using assms(2) by (auto simp: dirty_at_def)
  with assms show ?thesis by (simp add: pool_inv_def shard_inv_def)
qed

lemma pool_inv_only_there:
  assumes "pool_inv d P D C (pool, s)"
  shows "\<not> (\<exists>j. j \<noteq> shard_for pool pid \<and> dirty_at pool j pid)"
proof
  assume "\<exists>j. j \<noteq> shard_for pool pid \<and> dirty_at pool j pid"
  then obtain j where j: "j \<noteq> shard_for pool pid" "j < length pool" "map_of (sh_page_table (pool ! j)) pid \<noteq> None"
    by (auto simp: dirty_at_def dirty_in_def cached_def)
  with assms show False by (auto simp: pool_inv_def)
qed

text \<open>Putting a shard back after an operation on it.\<close>

lemma pool_inv_update:
  assumes inv: "pool_inv d P D C (pool, s)" and i: "i < length pool"
    and new: "shard_inv d P D' C' (\<lambda>pid. \<exists>j. j \<noteq> i \<and> dirty_at pool j pid) {} (sh, s')"
    and pages: "\<And>a. map_of (sh_page_table (pool ! i)) a = None \<Longrightarrow> shard_for pool a \<noteq> i \<Longrightarrow> map_of (sh_page_table sh) a = None"
    and other: "D \<subseteq> D'" "\<And>a. shard_for pool a \<noteq> i \<Longrightarrow> C' a = C a"
  shows "pool_inv d P D' C' (pool[i := sh], s')"
proof -
  have "shard_wf {} (pool[i := sh] ! j) \<and> frames_inv D' C' (pool[i := sh] ! j)
      \<and> (\<forall>a. map_of (sh_page_table (pool[i := sh] ! j)) a \<noteq> None \<longrightarrow> shard_for pool a = j)" if j: "j < length pool" for j
  proof (cases "j = i")
    case True
    have here: "map_of (sh_page_table (pool ! i)) a \<noteq> None \<Longrightarrow> shard_for pool a = i" for a
      using inv i by (simp add: pool_inv_def)
    have "shard_for pool a = i" if "map_of (sh_page_table sh) a \<noteq> None" for a
      using that pages [of a] here [of a]
      by (cases "shard_for pool a = i"; cases "map_of (sh_page_table (pool ! i)) a") auto
    with True i new show ?thesis by (simp add: shard_inv_def)
  next
    case False
    have "shard_wf {} (pool ! j)" "frames_inv D C (pool ! j)"
      and here: "\<And>a. map_of (sh_page_table (pool ! j)) a \<noteq> None \<Longrightarrow> shard_for pool a = j"
      using inv j by (auto simp: pool_inv_def)
    moreover have "frames_inv D' C' (pool ! j)"
      unfolding frames_inv_def
    proof (intro allI impI)
      fix a fr assume c: "cached (pool ! j) a = Some fr"
      then have "shard_for pool a = j" by (intro here) (auto simp: cached_def)
      with False other(2) [of a] have "C' a = C a" by simp
      with c \<open>frames_inv D C (pool ! j)\<close> other(1) show "C' a = Some (fr_page fr) \<and> (fr_dirty fr \<longrightarrow> a \<in> D')"
        by (auto simp: frames_inv_def)
    qed
    ultimately show ?thesis using False by simp
  qed
  moreover have "(\<exists>j. dirty_at (pool[i := sh]) j a) \<longleftrightarrow> dirty_in sh a \<or> (\<exists>j. j \<noteq> i \<and> dirty_at pool j a)" for a
    using i by (auto simp: dirty_at_def nth_list_update)
  moreover have "pool \<noteq> []" using i by auto
  ultimately show ?thesis using new by (simp add: pool_inv_def shard_inv_def)
qed

lemma fetch_page_any:
  assumes ctx: "cache_ctx d P D C" and inv: "pool_inv d P D C (pool, s)" and Cp: "C pid = Some p"
    and run: "fetch_page d pid (pool, s) = (r, (pool', s'))"
  shows "keeps (dk_file d) s s' \<and> pool_inv d P D C (pool', s') \<and> length pool' = length pool
    \<and> (\<forall>h. r = Inr h \<longrightarrow> ph_page_id h = pid \<and> handle_read h (pool' ! shard_for pool' pid) = p
         \<and> map_of (sh_page_table (pool' ! shard_for pool' pid)) pid = Some (ph_frame_id h))"
proof -
  let ?i = "shard_for pool pid"
  have i: "?i < length pool" using inv by (intro shard_for_less) (simp add: pool_inv_def)
  obtain sh where sh: "shard_fetch_page d pid (pool ! ?i, s) = (r, (sh, s'))" and pool': "pool' = pool[?i := sh]"
    using run by (auto simp: fetch_page_def on_shard_def split: prod.splits)
  note F = fetch_inv [OF ctx pool_inv_shard [OF inv i] Cp pool_inv_only_there [OF inv] sh]
  have "pool_inv d P D C (pool', s')" unfolding pool'
    by (rule pool_inv_update [OF inv i]) (use F in auto)
  with F i show ?thesis by (simp add: pool')
qed

lemma install_page_any:
  assumes ctx: "cache_ctx d P D C" and inv: "pool_inv d P D C (pool, s)" and pid: "pid \<in> D" "get_page_id page = pid"
    and run: "install_page d pid page (pool, s) = (r, (pool', s'))"
  shows "keeps (dk_file d) s s' \<and> length pool' = length pool
    \<and> pool_inv d P D (if is_ok r then C(pid \<mapsto> page) else C) (pool', s')"
proof -
  let ?i = "shard_for pool pid"
  have i: "?i < length pool" using inv by (intro shard_for_less) (simp add: pool_inv_def)
  obtain sh where sh: "shard_install_page d pid page (pool ! ?i, s) = (r, (sh, s'))" and pool': "pool' = pool[?i := sh]"
    using run pid(2) by (auto simp: install_page_def on_shard_def split: prod.splits)
  note F = install_inv [OF ctx pool_inv_shard [OF inv i] sh]
  have D: "insert pid D = D" using pid(1) by blast
  have "pool_inv d P D (if is_ok r then C(pid \<mapsto> page) else C) (pool[?i := sh], s')"
    by (rule pool_inv_update [OF inv i]) (use F D in \<open>auto simp: is_ok_def split: sum.splits\<close>)
  with F show ?thesis by (simp add: pool')
qed

subsection \<open>Flushing everything\<close>

lemma flush_shards_any:
  assumes ctx: "cache_ctx d P D C" and inv: "pool_inv d P D C (pool, s)" and "set is \<subseteq> {..<length pool}"
    and run: "for_each (\<lambda>i. on_shard i (flush_cached d)) is (pool, s) = (r, (pool', s'))"
  shows "keeps (dk_file d) s s' \<and> length pool' = length pool \<and> pool_inv d P D C (pool', s')
    \<and> (r = Inr () \<longrightarrow> (\<forall>i pid. dirty_at pool' i pid \<longrightarrow> i \<notin> set is \<and> dirty_at pool i pid))"
  using inv run assms(3)
proof (induction "is" arbitrary: pool s)
  case Nil
  then show ?case by (auto simp: ok_def)
next
  case (Cons i "is")
  obtain r1 sh s1 where fl: "flush_cached d (pool ! i, s) = (r1, (sh, s1))" by (metis surj_pair)
  then have step: "on_shard i (flush_cached d) (pool, s) = (r1, (pool[i := sh], s1))" by (simp add: on_shard_def)
  have i: "i < length pool" using Cons.prems(3) by simp
  note F = flush_cached_inv [OF ctx pool_inv_shard [OF Cons.prems(1) i] fl]
  have inv1: "pool_inv d P D C (pool[i := sh], s1)"
    by (rule pool_inv_update [OF Cons.prems(1) i]) (use F in auto)
  show ?case
  proof (cases r1)
    case (Inl e)
    then have "r = Inl e" "pool' = pool[i := sh]" "s' = s1"
      using Cons.prems(2) step by (auto simp: and_then_def)
    with F inv1 show ?thesis by simp
  next
    case (Inr u)
    then have rest: "for_each (\<lambda>i. on_shard i (flush_cached d)) is (pool[i := sh], s1) = (r, (pool', s'))"
      using Cons.prems(2) step by (simp add: and_then_def)
    have IH: "keeps (dk_file d) s1 s' \<and> length pool' = length (pool[i := sh]) \<and> pool_inv d P D C (pool', s')
      \<and> (r = Inr () \<longrightarrow> (\<forall>j pid. dirty_at pool' j pid \<longrightarrow> j \<notin> set is \<and> dirty_at (pool[i := sh]) j pid))"
      using Cons.prems(3) by (intro Cons.IH [OF inv1 rest]) auto
    have "dirty_at (pool[i := sh]) j pid \<longrightarrow> j \<noteq> i \<and> dirty_at pool j pid" for j pid
      using F Inr i by (cases "j = i") (auto simp: dirty_at_def)
    with IH F show ?thesis by (auto intro: keeps_trans)
  qed
qed

text \<open>After a flush that succeeded the file itself has every page.\<close>

lemma flush_all_any:
  assumes ctx: "cache_ctx d P D C" and inv: "pool_inv d P D C (pool, s)"
    and run: "flush_all d (pool, s) = (r, (pool', s'))"
  shows "touches (dk_file d) s s' \<and> length pool' = length pool \<and> pool_inv d P D C (pool', s')
    \<and> (r = Inr () \<longrightarrow> keeps (dk_file d) s s' \<and> (\<forall>i pid. \<not> dirty_at pool' i pid))"
proof -
  obtain r1 pool1 s1 where fl: "for_each (\<lambda>i. on_shard i (flush_cached d)) [0..<length pool] (pool, s) = (r1, (pool1, s1))"
    by (metis surj_pair)
  have F: "keeps (dk_file d) s s1 \<and> length pool1 = length pool \<and> pool_inv d P D C (pool1, s1)
    \<and> (r1 = Inr () \<longrightarrow> (\<forall>i pid. dirty_at pool1 i pid \<longrightarrow> i \<notin> set [0..<length pool] \<and> dirty_at pool i pid))"
    by (rule flush_shards_any [OF ctx inv _ fl]) auto
  then have t: "touches (dk_file d) s s1" by (simp add: keeps_def)
  show ?thesis
  proof (cases r1)
    case (Inl e)
    then have "r = Inl e" "pool' = pool1" "s' = s1" using run fl by (auto simp: flush_all_def and_then_def)
    with F t show ?thesis by simp
  next
    case (Inr u)
    have "pool1 \<noteq> []" using F by (auto simp: pool_inv_def)
    then have sy: "disk_sync d s1 = (r, s')" and pool': "pool' = pool1"
      using run fl Inr by (auto simp: flush_all_def and_then_def on_snd_def split: list.splits prod.splits)
    obtain f where f: "files s1 (dk_file d) = Some f" "survives P f"
      and pages: "\<And>pid p. C pid = Some p \<Longrightarrow> (\<exists>i. dirty_at pool1 i pid) \<or> page_at (unat (raw pid)) p (contents f)"
      using F by (auto simp: pool_inv_def file_inv_def)
    note S = disk_sync_any [OF sy f]
    then obtain g where g: "files s' (dk_file d) = Some g" "survives P g" "contents g = contents f" by blast
    have "file_inv d P C (\<lambda>pid. \<exists>i. dirty_at pool1 i pid) s'"
      unfolding file_inv_def by (rule exI [of _ g]) (simp add: g pages)
    then have "pool_inv d P D C (pool', s')" using F by (simp add: pool_inv_def pool')
    moreover have "touches (dk_file d) s s'" using t S touches_trans by blast
    moreover have "keeps (dk_file d) s s'" if "r = Inr ()" using that F S keeps_trans by blast
    moreover have "\<not> dirty_at pool' i pid" for i pid
    proof
      assume d: "dirty_at pool' i pid"
      then have "i < length pool" using F by (simp add: dirty_at_def pool')
      moreover from d F Inr have "i \<notin> set [0..<length pool]" by (simp add: pool')
      ultimately show False by simp
    qed
    ultimately show ?thesis using F pool' by simp
  qed
qed

section \<open>Progress\<close>

text \<open>
  On a system without faults no operation fails, as long as some frame is not pinned. Between
  operations no page is pinned at all.
\<close>

definition idle :: "shard \<Rightarrow> bool" where
  "idle sh \<longleftrightarrow> set (sh_pin_counts sh) \<subseteq> {0}"

lemma idle_nth: "idle sh \<Longrightarrow> f < length (sh_pin_counts sh) \<Longrightarrow> sh_pin_counts sh ! f = 0"
  by (auto simp: idle_def dest: nth_mem)

lemma idle_pin_unpin: "idle sh \<Longrightarrow> sh_pin_counts sh' = (sh_pin_counts sh)[f := k] \<Longrightarrow> k = 1 \<Longrightarrow> idle (unpin f sh')"
  by (cases "f < length (sh_pin_counts sh)")
    (auto simp: idle_def unpin_def list_update_beyond dest: set_update_subset_insert [THEN subsetD])

lemma idle_set_simps [simp]: "idle (set_ref f b sh) = idle sh" "idle (set_frame f fr sh) = idle sh"
  by (simp_all add: idle_def)

lemma write_back_ok:
  assumes ctx: "cache_ctx d P D C" and inv: "shard_inv d P D C Q X (sh, s)" and up: "healthy s"
    and at: "map_of (sh_page_table sh) pid = Some f"
  shows "\<exists>sh' s'. write_back d f pid (sh, s) = (Inr (), (sh', s')) \<and> healthy s'"
proof -
  let ?fr = "sh_frames sh ! f"
  have "cached sh pid = Some ?fr" by (simp add: cached_def at)
  then have "C pid = Some (fr_page ?fr)" using shard_invD(2) [OF inv] by (simp add: frames_inv_def)
  then have v: "valid_page pid (fr_page ?fr)" "disk_addr d pid" using ctx by (auto simp: cache_ctx_def)
  obtain g where "files s (dk_file d) = Some g" using shard_invD(3) [OF inv] by (auto simp: file_inv_def)
  from write_page_run [OF up this, of pid "fr_page ?fr"] v up show ?thesis
    by (auto simp: write_back_def disk_addr_def valid_page_id Let_def)
qed

lemma acquire_ok:
  assumes ctx: "cache_ctx d P D C" and inv: "shard_inv d P D C Q {} (sh, s)" and up: "healthy s" and "idle sh"
  shows "\<exists>f sh' s'. acquire_frame d (sh, s) = (Inr f, (sh', s')) \<and> healthy s'"
proof (cases "sh_free_frames sh = []")
  case True
  note wf = shard_invD(1) [OF inv]
  obtain v sh1 where fv: "find_victim sh = (v, sh1)" by fastforce
  note sw = clock_sweep_swept [OF fv [unfolded find_victim_def]]
  note vic = clock_sweep_wf [OF fv [unfolded find_victim_def] wf]
  have n: "0 < length (sh_frames sh)" using shard_wfD(4) [OF wf] by linarith
  then have "sh_pin_counts sh ! 0 = 0" using shard_wfD(2) [OF wf] idle_nth [OF assms(4), of 0] by simp
  with n fv find_victim_None [OF _ wf] obtain f where v: "v = Some f" by (cases v) auto
  then obtain old where old: "sh_frame_pages sh ! f = Some old" using vic shard_wfD(9) [OF wf] True by auto
  then have at: "map_of (sh_page_table sh1) old = Some f"
    using v vic shard_wfD(7) [OF wf] swept_fields [OF sw] by auto
  have "shard_inv d P D C Q {} (sh1, s)"
    using inv vic cached_swept [OF sw] by (simp add: shard_inv_def)
  from write_back_ok [OF ctx this up at] show ?thesis
    using True fv v old swept_fields [OF sw] by (auto simp: acquire_frame_def)
qed (use up in \<open>simp add: acquire_frame_def\<close>)

lemma fetch_pins:
  assumes ctx: "cache_ctx d P D C" and inv: "shard_inv d P D C Q {} (sh, s)" and "idle sh"
    and run: "shard_fetch_page d pid (sh, s) = (r, (sh', s'))"
  shows "sh_pin_counts sh' = (case r of Inl _ \<Rightarrow> sh_pin_counts sh | Inr h \<Rightarrow> (sh_pin_counts sh)[ph_frame_id h := 1])"
proof (cases "map_of (sh_page_table sh) pid")
  case (Some f)
  have "f < length (sh_pin_counts sh)"
    using Some shard_wfD(2) [OF shard_invD(1) [OF inv]] shard_wfD(7) [OF shard_invD(1) [OF inv]] by simp
  with idle_nth [OF assms(3)] run Some show ?thesis by (auto simp: shard_fetch_page_def pin_def)
next
  case None
  obtain r1 sh1 s1 where ac: "acquire_frame d (sh, s) = (r1, (sh1, s1))" by (metis surj_pair)
  have "sh_pin_counts sh1 = sh_pin_counts sh" using acquire_inv [OF ctx inv ac] by simp
  with run None ac show ?thesis
    by (auto simp: shard_fetch_page_def and_then_def Let_def split: sum.splits prod.splits)
qed

lemma fetch_ok:
  assumes ctx: "cache_ctx d P D C" and inv: "shard_inv d P D C Q {} (sh, s)" and Cp: "C pid = Some p" "\<not> Q pid"
    and up: "healthy s" and "idle sh"
  shows "\<exists>h sh' s'. shard_fetch_page d pid (sh, s) = (Inr h, (sh', s')) \<and> healthy s'"
proof (cases "map_of (sh_page_table sh) pid")
  case (Some f)
  with up show ?thesis by (simp add: shard_fetch_page_def)
next
  case None
  from acquire_ok [OF ctx inv up assms(6)] obtain f sh1 s1 where ac: "acquire_frame d (sh, s) = (Inr f, (sh1, s1))"
    and up1: "healthy s1" by blast
  note A = acquire_inv [OF ctx inv ac]
  from A have inv1: "shard_inv d P D C Q {f} (sh1, s1)" and none: "map_of (sh_page_table sh1) pid = None"
    using None by auto
  obtain g where g: "files s1 (dk_file d) = Some g"
    "\<And>a q. C a = Some q \<Longrightarrow> dirty_in sh1 a \<or> Q a \<or> page_at (unat (raw a)) q (contents g)"
    using shard_invD(3) [OF inv1] by (auto simp: file_inv_def)
  have "\<not> dirty_in sh1 pid" by (simp add: dirty_in_def cached_def none)
  with g(2) [OF Cp(1)] Cp(2) have at: "page_at (unat (raw pid)) p (contents g)" by simp
  have "valid_page pid p" "disk_addr d pid" using ctx Cp(1) by (auto simp: cache_ctx_def)
  with read_page_valid [OF up1 g(1), of pid p] at have "disk_read_page d pid s1 = (Inr p, s1)"
    by (simp add: disk_addr_def page_at_def)
  with None ac up1 show ?thesis by (simp add: shard_fetch_page_def and_then_def Let_def)
qed

lemma install_idle:
  assumes ctx: "cache_ctx d P D C" and inv: "shard_inv d P D C Q {} (sh, s)" and "idle sh"
    and run: "shard_install_page d pid page (sh, s) = (r, (sh', s'))"
  shows "idle sh'"
proof (cases "map_of (sh_page_table sh) pid")
  case (Some f)
  have "f < length (sh_pin_counts sh)"
    using Some shard_wfD(2) [OF shard_invD(1) [OF inv]] shard_wfD(7) [OF shard_invD(1) [OF inv]] by simp
  with idle_nth [OF assms(3)] have "idle (unpin f (set_frame f fr (set_ref f True (pin f sh))))" for fr
    by (intro idle_pin_unpin [OF assms(3)]) (auto simp: pin_def)
  with run Some show ?thesis by (auto simp: shard_install_page_def Let_def)
next
  case None
  obtain r1 sh1 s1 where ac: "acquire_frame d (sh, s) = (r1, (sh1, s1))" by (metis surj_pair)
  have "sh_pin_counts sh1 = sh_pin_counts sh" using acquire_inv [OF ctx inv ac] by simp
  with ac None assms(3) run show ?thesis
    by (cases r1) (auto simp: shard_install_page_def and_then_def Let_def idle_def)
qed

lemma install_ok:
  assumes ctx: "cache_ctx d P D C" and inv: "shard_inv d P D C Q {} (sh, s)" and up: "healthy s" and "idle sh"
  shows "\<exists>sh' s'. shard_install_page d pid page (sh, s) = (Inr (), (sh', s')) \<and> healthy s'"
proof (cases "map_of (sh_page_table sh) pid")
  case (Some f)
  with up show ?thesis by (simp add: shard_install_page_def Let_def)
next
  case None
  with acquire_ok [OF ctx inv up assms(4)] show ?thesis by (auto simp: shard_install_page_def and_then_def Let_def)
qed

lemma flush_idle:
  assumes ctx: "cache_ctx d P D C" and inv: "shard_inv d P D C Q {} (sh, s)" and "idle sh"
    and run: "shard_flush_page d pid (sh, s) = (r, (sh', s'))"
  shows "idle sh'"
proof (cases "map_of (sh_page_table sh) pid")
  case (Some f)
  have inv0: "shard_inv d P D C Q {} (pin f sh, s)"
    using inv shard_wf_pin [OF shard_invD(1) [OF inv] Some] by (simp add: shard_inv_def)
  have at: "map_of (sh_page_table (pin f sh)) pid = Some f" by (simp add: Some)
  obtain r1 sh1 s1 where wb: "write_back d f pid (pin f sh, s) = (r1, (sh1, s1))" by (metis surj_pair)
  have "sh_pin_counts sh1 = sh_pin_counts (pin f sh)" using write_back_inv [OF ctx inv0 at wb] by auto
  moreover have "f < length (sh_pin_counts sh)"
    using Some shard_wfD(2) [OF shard_invD(1) [OF inv]] shard_wfD(7) [OF shard_invD(1) [OF inv]] by simp
  ultimately have "idle (unpin f sh1)" using idle_nth [OF assms(3)] by (intro idle_pin_unpin [OF assms(3)]) (auto simp: pin_def)
  with wb Some run show ?thesis by (simp add: shard_flush_page_def)
qed (use assms(3) run in \<open>simp add: shard_flush_page_def\<close>)

lemma flush_ok:
  assumes ctx: "cache_ctx d P D C" and inv: "shard_inv d P D C Q {} (sh, s)" and up: "healthy s"
  shows "\<exists>sh' s'. shard_flush_page d pid (sh, s) = (Inr (), (sh', s')) \<and> healthy s'"
proof (cases "map_of (sh_page_table sh) pid")
  case (Some f)
  have "shard_inv d P D C Q {} (pin f sh, s)"
    using inv shard_wf_pin [OF shard_invD(1) [OF inv] Some] by (simp add: shard_inv_def)
  from write_back_ok [OF ctx this up, of pid f] Some show ?thesis by (auto simp: shard_flush_page_def)
qed (use up in \<open>simp add: shard_flush_page_def\<close>)

lemma flush_cached_idle:
  assumes ctx: "cache_ctx d P D C" and inv: "shard_inv d P D C Q {} (sh, s)" and "idle sh"
    and run: "flush_cached d (sh, s) = (r, (sh', s'))"
  shows "idle sh'"
proof -
  have "idle sh'" if "for_each (shard_flush_page d) pids (sh, s) = (r, (sh', s'))" for pids
    using inv assms(3) that
  proof (induction pids arbitrary: sh s)
    case (Cons pid pids)
    obtain r1 sh1 s1 where fl: "shard_flush_page d pid (sh, s) = (r1, (sh1, s1))" by (metis surj_pair)
    note step = flush_inv [OF ctx Cons.prems(1) fl] flush_idle [OF ctx Cons.prems(1,2) fl]
    show ?case
    proof (cases r1)
      case (Inl e)
      with fl Cons.prems(3) step show ?thesis by (auto simp: and_then_def)
    next
      case (Inr u)
      with fl Cons.prems(3) have "for_each (shard_flush_page d) pids (sh1, s1) = (r, (sh', s'))" by (simp add: and_then_def)
      with Cons.IH step show ?thesis by blast
    qed
  qed (simp add: ok_def)
  with run show ?thesis by (simp add: flush_cached_def)
qed

lemma flush_cached_ok:
  assumes ctx: "cache_ctx d P D C" and inv: "shard_inv d P D C Q {} (sh, s)" and up: "healthy s"
  shows "\<exists>sh' s'. flush_cached d (sh, s) = (Inr (), (sh', s')) \<and> healthy s'"
proof -
  have "\<exists>sh' s'. for_each (shard_flush_page d) pids (sh, s) = (Inr (), (sh', s')) \<and> healthy s'" for pids
    using inv up
  proof (induction pids arbitrary: sh s)
    case (Cons pid pids)
    from flush_ok [OF ctx Cons.prems] obtain sh1 s1 where fl: "shard_flush_page d pid (sh, s) = (Inr (), (sh1, s1))"
      and up1: "healthy s1" by blast
    have "shard_inv d P D C Q {} (sh1, s1)" using flush_inv [OF ctx Cons.prems(1) fl] by simp
    from Cons.IH [OF this up1] fl show ?case by (auto simp: and_then_def)
  qed (simp add: ok_def)
  then show ?thesis by (simp add: flush_cached_def)
qed

subsection \<open>The operations of an idle pool\<close>

definition idle_pool :: "buffer_pool \<Rightarrow> bool" where
  "idle_pool pool \<longleftrightarrow> (\<forall>i < length pool. idle (pool ! i))"

lemma idle_pool_update: "idle_pool pool \<Longrightarrow> idle sh \<Longrightarrow> idle_pool (pool[i := sh])"
  unfolding idle_pool_def by (metis length_list_update nth_list_update_eq nth_list_update_neq)

lemma read_through_any:
  assumes ctx: "cache_ctx d P D C" and inv: "pool_inv d P D C (pool, s)" and Cp: "C pid = Some p" and "idle_pool pool"
    and run: "read_through d pid (pool, s) = (r, (pool', s'))"
  shows "keeps (dk_file d) s s' \<and> pool_inv d P D C (pool', s') \<and> idle_pool pool' \<and> (\<forall>q. r = Inr q \<longrightarrow> q = p)"
proof -
  let ?i = "shard_for pool pid"
  have i: "?i < length pool" using inv by (intro shard_for_less) (simp add: pool_inv_def)
  obtain r1 sh s1 where sh: "shard_fetch_page d pid (pool ! ?i, s) = (r1, (sh, s1))" by (metis surj_pair)
  then have fp: "fetch_page d pid (pool, s) = (r1, (pool[?i := sh], s1))" by (simp add: fetch_page_def on_shard_def)
  note F = fetch_page_any [OF ctx inv Cp fp]
  have "idle (pool ! ?i)" using assms(4) i by (simp add: idle_pool_def)
  note pins = fetch_pins [OF ctx pool_inv_shard [OF inv i] this sh]
  show ?thesis
  proof (cases r1)
    case (Inl e)
    with pins \<open>idle (pool ! ?i)\<close> have "idle sh" by (simp add: idle_def)
    with Inl fp run F idle_pool_update [OF assms(4)] show ?thesis by (auto simp: read_through_def)
  next
    case (Inr h)
    with F i have h: "ph_page_id h = pid" "handle_read h sh = p" "map_of (sh_page_table sh) pid = Some (ph_frame_id h)" by simp_all
    have inv1: "pool_inv d P D C (pool[?i := sh], s1)" using F by simp
    have res: "r = Inr p" "pool' = pool[?i := unpin (ph_frame_id h) sh]" "s' = s1"
      using run fp Inr h i by (auto simp: read_through_def Let_def handle_drop_def)
    have "pool_inv d P D C ((pool[?i := sh])[?i := unpin (ph_frame_id h) sh], s1)"
    proof (rule pool_inv_update [OF inv1])
      have "shard_inv d P D C (\<lambda>a. \<exists>j. j \<noteq> ?i \<and> dirty_at (pool[?i := sh]) j a) {} (sh, s1)"
        using pool_inv_shard [OF inv1, of ?i] i by simp
      then show "shard_inv d P D C (\<lambda>a. \<exists>j. j \<noteq> ?i \<and> dirty_at (pool[?i := sh]) j a) {} (unpin (ph_frame_id h) sh, s1)"
        using shard_wf_unpin [OF shard_invD(1) h(3)] by (simp add: shard_inv_def)
    qed (use i in auto)
    moreover have "idle (unpin (ph_frame_id h) sh)"
      using pins Inr by (intro idle_pin_unpin [OF \<open>idle (pool ! ?i)\<close>]) simp_all
    ultimately show ?thesis using F idle_pool_update [OF assms(4)] by (simp add: res)
  qed
qed

lemma read_through_ok:
  assumes ctx: "cache_ctx d P D C" and inv: "pool_inv d P D C (pool, s)" and Cp: "C pid = Some p" and "idle_pool pool"
    and up: "healthy s"
  shows "\<exists>ps'. read_through d pid (pool, s) = (Inr p, ps') \<and> healthy (snd ps')"
proof -
  let ?i = "shard_for pool pid"
  have i: "?i < length pool" using inv by (intro shard_for_less) (simp add: pool_inv_def)
  have "idle (pool ! ?i)" using assms(4) i by (simp add: idle_pool_def)
  from fetch_ok [OF ctx pool_inv_shard [OF inv i] Cp pool_inv_only_there [OF inv] up this] obtain h sh s1
    where "shard_fetch_page d pid (pool ! ?i, s) = (Inr h, (sh, s1))" and up1: "healthy s1" by blast
  then have "\<exists>q ps'. read_through d pid (pool, s) = (Inr q, ps') \<and> snd ps' = s1"
    by (simp add: read_through_def fetch_page_def on_shard_def Let_def)
  then obtain q pool' where run: "read_through d pid (pool, s) = (Inr q, (pool', s1))" by fastforce
  with read_through_any [OF assms(1-4) run] up1 show ?thesis by simp
qed

lemma install_page_idle:
  assumes ctx: "cache_ctx d P D C" and inv: "pool_inv d P D C (pool, s)" and "idle_pool pool" and pid: "get_page_id page = pid"
    and run: "install_page d pid page (pool, s) = (r, (pool', s'))"
  shows "idle_pool pool' \<and> (healthy s \<longrightarrow> r = Inr () \<and> healthy s')"
proof -
  let ?i = "shard_for pool pid"
  have i: "?i < length pool" using inv by (intro shard_for_less) (simp add: pool_inv_def)
  have id: "idle (pool ! ?i)" using assms(3) i by (simp add: idle_pool_def)
  obtain sh where sh: "shard_install_page d pid page (pool ! ?i, s) = (r, (sh, s'))" and pool': "pool' = pool[?i := sh]"
    using run pid by (auto simp: install_page_def on_shard_def split: prod.splits)
  have "idle sh" by (rule install_idle [OF ctx pool_inv_shard [OF inv i] id sh])
  moreover have "r = Inr () \<and> healthy s'" if "healthy s"
    using install_ok [OF ctx pool_inv_shard [OF inv i] that id, of pid page] sh by auto
  ultimately show ?thesis by (simp add: pool' idle_pool_update assms(3))
qed

lemma flush_shards_idle:
  assumes ctx: "cache_ctx d P D C" and inv: "pool_inv d P D C (pool, s)" and "idle_pool pool" and "set is \<subseteq> {..<length pool}"
    and run: "for_each (\<lambda>i. on_shard i (flush_cached d)) is (pool, s) = (r, (pool', s'))"
  shows "idle_pool pool' \<and> (healthy s \<longrightarrow> r = Inr () \<and> healthy s')"
  using inv assms(3) run assms(4)
proof (induction "is" arbitrary: pool s)
  case (Cons i "is")
  obtain r1 sh s1 where fl: "flush_cached d (pool ! i, s) = (r1, (sh, s1))" by (metis surj_pair)
  then have step: "on_shard i (flush_cached d) (pool, s) = (r1, (pool[i := sh], s1))" by (simp add: on_shard_def)
  have i: "i < length pool" using Cons.prems(4) by simp
  note sub = pool_inv_shard [OF Cons.prems(1) i]
  have "idle (pool ! i)" using Cons.prems(2) i by (simp add: idle_pool_def)
  from flush_cached_idle [OF ctx sub this fl] have id: "idle_pool (pool[i := sh])"
    using Cons.prems(2) by (simp add: idle_pool_update)
  have up: "r1 = Inr () \<and> healthy s1" if "healthy s" using flush_cached_ok [OF ctx sub that] fl by auto
  have inv1: "pool_inv d P D C (pool[i := sh], s1)"
    by (rule pool_inv_update [OF Cons.prems(1) i]) (use flush_cached_inv [OF ctx sub fl] in auto)
  show ?case
  proof (cases r1)
    case (Inl e)
    with step Cons.prems(3) id up show ?thesis by (auto simp: and_then_def)
  next
    case (Inr u)
    then have "for_each (\<lambda>i. on_shard i (flush_cached d)) is (pool[i := sh], s1) = (r, (pool', s'))"
      using Cons.prems(3) step by (simp add: and_then_def)
    from Cons.IH [OF inv1 id this] Cons.prems(4) up show ?thesis by simp
  qed
qed (auto simp: ok_def)

lemma flush_all_idle:
  assumes ctx: "cache_ctx d P D C" and inv: "pool_inv d P D C (pool, s)" and "idle_pool pool"
    and run: "flush_all d (pool, s) = (r, (pool', s'))"
  shows "idle_pool pool' \<and> (healthy s \<longrightarrow> r = Inr () \<and> healthy s')"
proof -
  obtain r1 pool1 s1 where fl: "for_each (\<lambda>i. on_shard i (flush_cached d)) [0..<length pool] (pool, s) = (r1, (pool1, s1))"
    by (metis surj_pair)
  have F: "idle_pool pool1 \<and> (healthy s \<longrightarrow> r1 = Inr () \<and> healthy s1)"
    by (rule flush_shards_idle [OF ctx inv assms(3) _ fl]) auto
  have inv1: "pool_inv d P D C (pool1, s1)" using flush_shards_any [OF ctx inv _ fl] by (simp add: atLeast0LessThan)
  then obtain f where f: "files s1 (dk_file d) = Some f" and "pool1 \<noteq> []" by (auto simp: pool_inv_def file_inv_def)
  then have rest: "r1 = Inr () \<Longrightarrow> try_io (sync_all (dk_file d)) s1 = (r, s')" and pool': "pool' = pool1"
    using run fl by (cases r1, auto simp: flush_all_def and_then_def on_snd_def disk_sync_def split: list.splits prod.splits)+
  have "r = Inr () \<and> healthy s'" if "healthy s"
    using F that rest f by (auto simp: sync_all_def os_simps try_io_def)
  with F pool' show ?thesis by simp
qed

section \<open>The cache contract\<close>

text \<open>
  What transactions rely on: reading a page gives its current contents, putting a page changes
  that page only, and an operation that fails changes nothing.
\<close>

locale page_cache =
  fixes inv :: "(page_id \<Rightarrow> page option) \<Rightarrow> 's \<Rightarrow> bool"
    and get :: "page_id \<Rightarrow> ('s, 'e, page) prog"
    and put :: "page_id \<Rightarrow> page \<Rightarrow> ('s, 'e, unit) prog"
    and accepts :: "page_id \<Rightarrow> page \<Rightarrow> bool"
  assumes get_any: "inv C s \<Longrightarrow> C a = Some p \<Longrightarrow> get a s = (r, s') \<Longrightarrow> inv C s' \<and> (\<forall>q. r = Inr q \<longrightarrow> q = p)"
    and put_any: "inv C s \<Longrightarrow> accepts a p \<Longrightarrow> put a p s = (res, s') \<Longrightarrow> inv (if is_ok res then C(a \<mapsto> p) else C) s'"
begin

lemma put_all:
  assumes "inv C s" and "\<forall>(a, p) \<in> set ws. accepts a p" and "for_each (\<lambda>(a, p). put a p) ws s = (r, s')"
  shows "\<exists>n. inv (C ++ map_of (rev (take n ws))) s' \<and> (r = Inr () \<longrightarrow> take n ws = ws)"
  using assms
proof (induction ws arbitrary: C s)
  case Nil
  then show ?case by (auto simp: ok_def)
next
  case (Cons w ws)
  obtain a p where w: "w = (a, p)" by (cases w)
  obtain r1 s1 where put: "put a p s = (r1, s1)" by fastforce
  note any = put_any [OF Cons.prems(1) _ put]
  show ?case
  proof (cases r1)
    case (Inl e)
    with Cons.prems put w have "r = Inl e" "s' = s1" by (auto simp: and_then_def)
    with any Inl Cons.prems(2) w show ?thesis by (intro exI [of _ 0]) (auto simp: is_ok_def)
  next
    case (Inr u)
    with any Cons.prems(2) w have "inv (C(a \<mapsto> p)) s1" by (simp add: is_ok_def)
    moreover have "for_each (\<lambda>(a, p). put a p) ws s1 = (r, s')"
      using Cons.prems(3) put Inr w by (simp add: and_then_def)
    ultimately obtain n where "inv (C(a \<mapsto> p) ++ map_of (rev (take n ws))) s' \<and> (r = Inr () \<longrightarrow> take n ws = ws)"
      using Cons.IH Cons.prems(2) by (metis list.set_intros(2))
    moreover have "C(a \<mapsto> p) ++ map_of (rev (take n ws)) = C ++ map_of (rev (take (Suc n) (w # ws)))"
      by (rule ext) (simp add: w map_add_def split: option.split)
    ultimately show ?thesis by (intro exI [of _ "Suc n"]) simp
  qed
qed

end

text \<open>The same on a system that does not fail.\<close>

locale live_page_cache = page_cache +
  fixes live :: "'s \<Rightarrow> bool"
  assumes get_live: "inv C s \<Longrightarrow> live s \<Longrightarrow> C a = Some p \<Longrightarrow> \<exists>s'. get a s = (Inr p, s') \<and> live s'"
    and put_live: "inv C s \<Longrightarrow> live s \<Longrightarrow> accepts a p \<Longrightarrow> \<exists>s'. put a p s = (Inr (), s') \<and> live s'"
begin

lemma put_all_live:
  "inv C s \<Longrightarrow> live s \<Longrightarrow> \<forall>(a, p) \<in> set ws. accepts a p \<Longrightarrow>
   \<exists>s'. for_each (\<lambda>(a, p). put a p) ws s = (Inr (), s') \<and> live s'"
proof (induction ws arbitrary: C s)
  case (Cons w ws)
  obtain a p where w: "w = (a, p)" by (cases w)
  with Cons.prems obtain s1 where put: "put a p s = (Inr (), s1)" "live s1" using put_live by fastforce
  from put_any [OF Cons.prems(1) _ put(1)] Cons.prems(3) w have "inv (C(a \<mapsto> p)) s1" by (simp add: is_ok_def)
  with Cons.IH [OF this put(2)] Cons.prems(3) put w show ?case by (auto simp: and_then_def)
qed (simp add: ok_def)

end

text \<open>The pool between two operations, the system having been \<open>s0\<close> when they began.\<close>

definition cache_state where
  "cache_state d P D s0 C ps \<longleftrightarrow> cache_ctx d P D C \<and> pool_inv d P D C ps \<and> idle_pool (fst ps) \<and> keeps (dk_file d) s0 (snd ps)"

definition cache_accepts where
  "cache_accepts d D pid page \<longleftrightarrow> pid \<in> D \<and> valid_page pid page \<and> disk_addr d pid"

interpretation pc: live_page_cache "cache_state d P D s0" "read_through d" "install_page d" "cache_accepts d D"
  "\<lambda>ps. healthy (snd ps)" for d P D s0
proof unfold_locales
  fix C ps a p r ps'
  assume st: "cache_state d P D s0 C ps" and C: "C a = Some p" and run: "read_through d a ps = (r, ps')"
  from st have cs: "cache_ctx d P D C" "pool_inv d P D C (fst ps, snd ps)" "idle_pool (fst ps)" by (simp_all add: cache_state_def)
  from run have "read_through d a (fst ps, snd ps) = (r, (fst ps', snd ps'))" by simp
  from read_through_any [OF cs(1,2) C cs(3) this] st show "cache_state d P D s0 C ps' \<and> (\<forall>q. r = Inr q \<longrightarrow> q = p)"
    by (auto simp: cache_state_def intro: keeps_trans)
next
  fix C ps a p r ps'
  assume st: "cache_state d P D s0 C ps" and a: "cache_accepts d D a p" and run: "install_page d a p ps = (r, ps')"
  from st have cs: "cache_ctx d P D C" "pool_inv d P D C (fst ps, snd ps)" "idle_pool (fst ps)" by (simp_all add: cache_state_def)
  from run have inst: "install_page d a p (fst ps, snd ps) = (r, (fst ps', snd ps'))" by simp
  have p: "a \<in> D" "get_page_id p = a" using a valid_page_id by (auto simp: cache_accepts_def)
  have "cache_ctx d P D (C(a \<mapsto> p))" using cs(1) a by (auto simp: cache_ctx_def cache_accepts_def)
  with install_page_any [OF cs(1,2) p inst] install_page_idle [OF cs p(2) inst] st
  show "cache_state d P D s0 (if is_ok r then C(a \<mapsto> p) else C) ps'"
    by (auto simp: cache_state_def intro: keeps_trans)
next
  fix C ps a p
  assume st: "cache_state d P D s0 C ps" and up: "healthy (snd ps)" and C: "C a = Some p"
  with read_through_ok [of d P D C "fst ps" "snd ps" a p] show "\<exists>ps'. read_through d a ps = (Inr p, ps') \<and> healthy (snd ps')"
    by (simp add: cache_state_def)
next
  fix C ps a p
  assume st: "cache_state d P D s0 C ps" and up: "healthy (snd ps)" and a: "cache_accepts d D a p"
  obtain r ps' where run: "install_page d a p ps = (r, ps')" by (metis surj_pair)
  then have "install_page d a p (fst ps, snd ps) = (r, (fst ps', snd ps'))" by simp
  with install_page_idle [of d P D C "fst ps" "snd ps" p a] st a up valid_page_id run
  show "\<exists>ps'. install_page d a p ps = (Inr (), ps') \<and> healthy (snd ps')"
    by (fastforce simp: cache_state_def cache_accepts_def)
qed

end
