(* ===== verification/Database.thy ===== *)
theory Database
  imports Recovery Page_Cache
begin

text \<open>
  The database handle (\<^verbatim>\<open>db/mod.rs\<close>): opening, checkpoints and poisoning. The handle is a
  record; its operations run on the handle together with the system. Each operation here is what runs
  while the mutex around the log and the lock between readers and publishing are held; how threads
  take them is the subject of \<open>Threads\<close>.
\<close>

section \<open>Definitions\<close>

record options =
  op_buffer_pool_pages :: nat
  op_create_if_missing :: bool
  op_auto_checkpoint_bytes :: "u64 option"

definition options_default :: options where
  "options_default = \<lparr>op_buffer_pool_pages = 4096, op_create_if_missing = True,
     op_auto_checkpoint_bytes = Some (4 * 1024 * 1024)\<rparr>"

record open_report =
  or_created :: bool
  or_recovery :: recovery_stats
  or_discarded_wal_tail :: "discarded_tail option"

definition open_report_default :: open_report where
  "open_report_default = \<lparr>or_created = False,
     or_recovery = \<lparr>rs_committed_txns = 0, rs_incomplete_txns = 0, rs_pages_restored = 0\<rparr>,
     or_discarded_wal_tail = None\<rparr>"

record database =
  db_disk :: disk_manager
  db_pool :: buffer_pool
  db_auto_checkpoint_bytes :: "u64 option"
  db_wal :: wal
  db_next_txn :: u64
  db_poisoned :: bool
  db_report :: open_report

definition wal_path_for :: "path \<Rightarrow> path result" where
  "wal_path_for path =
     (case file_name path of
        None \<Rightarrow> Inl (InvalidArgument (display_path path @ '' is not a file path''))
      | Some name \<Rightarrow> Inr (with_file_name (name @ ''-wal'') path))"

definition assemble :: "disk_manager \<Rightarrow> wal \<Rightarrow> options \<Rightarrow> open_report \<Rightarrow> database result" where
  "assemble disk w opts report =
     (case pool_new (op_buffer_pool_pages opts) of
        Inl e \<Rightarrow> Inl e
      | Inr pool \<Rightarrow> Inr \<lparr>db_disk = disk, db_pool = pool,
          db_auto_checkpoint_bytes = op_auto_checkpoint_bytes opts, db_wal = w,
          db_next_txn = 1, db_poisoned = False, db_report = report\<rparr>)"

definition database_create :: "path \<Rightarrow> path \<Rightarrow> options \<Rightarrow> (os, error, database) prog" where
  "database_create path wal_path opts =
     and_then (disk_create path) (\<lambda>disk.
     and_then (wal_create wal_path) (\<lambda>w.
     lift_res (assemble disk w opts (open_report_default\<lparr>or_created := True\<rparr>))))"

definition open_existing :: "path \<Rightarrow> path \<Rightarrow> options \<Rightarrow> (os, error, database) prog" where
  "open_existing path wal_path opts s =
     (case path_exists wal_path s of (wal_there, s) \<Rightarrow>
      if \<not> wal_there then
        and_then (disk_open path) (\<lambda>disk.
        and_then (wal_create wal_path) (\<lambda>w.
        lift_res (assemble disk w opts open_report_default))) s
      else
        and_then (wal_open wal_path) (\<lambda>opened.
        and_then (replay path (ow_records opened)) (\<lambda>recovery.
        and_then (disk_open path) (\<lambda>disk s.
          case wal_reset (ow_wal opened, s) of
            (Inl e, (w, s)) \<Rightarrow> (Inl e, s)
          | (Inr _, (w, s)) \<Rightarrow>
              lift_res (assemble disk w opts \<lparr>or_created = False, or_recovery = recovery,
                or_discarded_wal_tail = ow_discarded opened\<rparr>) s))) s)"

definition database_open :: "path \<Rightarrow> options \<Rightarrow> (os, error, database) prog" where
  "database_open path opts =
     and_then (lift_res (wal_path_for path)) (\<lambda>wal_path s.
       case path_exists path s of (there, s) \<Rightarrow>
       if there then open_existing path wal_path opts s
       else if \<not> op_create_if_missing opts
       then (Inl (InvalidArgument (''database '' @ display_path path @ '' does not exist'')), s)
       else case path_exists wal_path s of (wal_there, s) \<Rightarrow>
       if wal_there
       then (Inl (InvalidArgument (display_path wal_path @ '' exists but its database file ''
               @ display_path path @ '' does not'')), s)
       else database_create path wal_path opts s)"

definition database_page_count :: "database \<Rightarrow> u64" where
  "database_page_count db = disk_page_count (db_disk db)"

definition check_poisoned :: "database \<Rightarrow> unit result" where
  "check_poisoned db =
     (if db_poisoned db
      then Inl (Poisoned ''an earlier failure left the database in an unknown state; reopen it to recover'')
      else Inr ())"

definition poison :: "database \<Rightarrow> database" where
  "poison db = db\<lparr>db_poisoned := True\<rparr>"

definition next_txn_id :: "database \<Rightarrow> txn_id \<times> database" where
  "next_txn_id db = (TxnId (db_next_txn db), db\<lparr>db_next_txn := db_next_txn db + 1\<rparr>)"

text \<open>An operation of the pool, of the log and of the disk manager.\<close>

definition on_pool :: "(disk_manager \<Rightarrow> (buffer_pool \<times> os, error, 'a) prog) \<Rightarrow> (database \<times> os, error, 'a) prog" where
  "on_pool m ds =
     (case m (db_disk (fst ds)) (db_pool (fst ds), snd ds) of
        (r, (pool, s)) \<Rightarrow> (r, ((fst ds)\<lparr>db_pool := pool\<rparr>, s)))"

definition on_wal :: "(wal \<times> os, error, 'a) prog \<Rightarrow> (database \<times> os, error, 'a) prog" where
  "on_wal m ds =
     (case m (db_wal (fst ds), snd ds) of (r, (w, s)) \<Rightarrow> (r, ((fst ds)\<lparr>db_wal := w\<rparr>, s)))"

definition on_disk :: "(disk_manager \<Rightarrow> (os, error, 'a) prog) \<Rightarrow> (database \<times> os, error, 'a) prog" where
  "on_disk m ds = (case m (db_disk (fst ds)) (snd ds) of (r, s) \<Rightarrow> (r, (fst ds, s)))"

definition write_checkpoint :: "(database \<times> os, error, unit) prog" where
  "write_checkpoint =
     and_then (on_pool flush_all) (\<lambda>_.
     and_then (on_disk write_file_header) (\<lambda>_.
     and_then (on_disk disk_sync) (\<lambda>_.
     on_wal wal_reset)))"

definition checkpoint_locked :: "(database \<times> os, error, unit) prog" where
  "checkpoint_locked ds =
     (case write_checkpoint ds of
        (Inl e, (db, s)) \<Rightarrow> (Inl e, (poison db, s))
      | (Inr u, ds') \<Rightarrow> (Inr u, ds'))"

definition checkpoint :: "(database \<times> os, error, unit) prog" where
  "checkpoint ds =
     (case check_poisoned (fst ds) of
        Inl e \<Rightarrow> (Inl e, ds)
      | Inr _ \<Rightarrow> checkpoint_locked ds)"

definition close :: "(database \<times> os, error, unit) prog" where
  "close = checkpoint"

definition maybe_auto_checkpoint :: "(database \<times> os, error, unit) prog" where
  "maybe_auto_checkpoint ds =
     (case db_auto_checkpoint_bytes (fst ds) of
        Some limit \<Rightarrow> if wal_durable_len (db_wal (fst ds)) \<ge> unat limit then checkpoint_locked ds else (Inr (), ds)
      | None \<Rightarrow> (Inr (), ds))"

end
