(* ===== verification/Txn.thy ===== *)
theory Txn
  imports Database
begin

text \<open>
  Read and write transactions (\<^verbatim>\<open>db/txn.rs\<close>). A transaction holds a reference to the database and
  the lock that goes with it; its own state is the private pages and the page count. Where the
  source calls a closure with a page, or returns a mutable reference to one, the definition takes
  the function.
\<close>

section \<open>Definitions\<close>

definition check_data_page :: "page_id \<Rightarrow> u64 \<Rightarrow> unit result" where
  "check_data_page pid page_count =
     (if pid = HEADER \<or> raw pid \<ge> page_count
      then Inl (InvalidArgument (display_page_id pid @ '' is not a data page (database has ''
             @ show_word page_count @ '' pages)''))
      else Inr ())"

definition read_txn_new :: "database \<Rightarrow> unit result" where
  "read_txn_new db = check_poisoned db"

definition begin_read :: "database \<Rightarrow> unit result" where
  "begin_read db = read_txn_new db"

definition read_txn_page_count :: "database \<Rightarrow> u64" where
  "read_txn_page_count db = disk_page_count (db_disk db)"

definition read_txn_read_page :: "page_id \<Rightarrow> (page \<Rightarrow> 'r) \<Rightarrow> (database \<times> os, error, 'r) prog" where
  "read_txn_read_page pid f ds =
     (case check_data_page pid (read_txn_page_count (fst ds)) of
        Inl e \<Rightarrow> (Inl e, ds)
      | Inr _ \<Rightarrow> and_then (on_pool (\<lambda>d. read_through d pid)) (\<lambda>page. ok (f page)) ds)"

record write_txn =
  wt_dirty :: "(page_id, page) btree_map"
  wt_page_count :: u64

text \<open>The poison flag is checked before and after waiting for the log's lock.\<close>

definition write_txn_new :: "database \<Rightarrow> write_txn result" where
  "write_txn_new db =
     (case check_poisoned db of
        Inl e \<Rightarrow> Inl e
      | Inr _ \<Rightarrow>
          (case check_poisoned db of
             Inl e \<Rightarrow> Inl e
           | Inr _ \<Rightarrow> Inr \<lparr>wt_dirty = [], wt_page_count = disk_page_count (db_disk db)\<rparr>))"

definition begin_write :: "database \<Rightarrow> write_txn result" where
  "begin_write db = write_txn_new db"

definition write_txn_page_count :: "write_txn \<Rightarrow> u64" where
  "write_txn_page_count t = wt_page_count t"

definition write_txn_read_page :: "write_txn \<Rightarrow> page_id \<Rightarrow> (page \<Rightarrow> 'r) \<Rightarrow> (database \<times> os, error, 'r) prog" where
  "write_txn_read_page t pid f ds =
     (case check_data_page pid (wt_page_count t) of
        Inl e \<Rightarrow> (Inl e, ds)
      | Inr _ \<Rightarrow>
          (case map_of (wt_dirty t) pid of
             Some page \<Rightarrow> (Inr (f page), ds)
           | None \<Rightarrow> and_then (on_pool (\<lambda>d. read_through d pid)) (\<lambda>page. ok (f page)) ds))"

definition page_mut :: "page_id \<Rightarrow> (page \<Rightarrow> page) \<Rightarrow> (write_txn \<times> database \<times> os, error, unit) prog" where
  "page_mut pid change tds =
     (case tds of (t, ds) \<Rightarrow>
      case check_data_page pid (wt_page_count t) of
        Inl e \<Rightarrow> (Inl e, (t, ds))
      | Inr _ \<Rightarrow>
          (case map_of (wt_dirty t) pid of
             Some page \<Rightarrow> (Inr (), (t\<lparr>wt_dirty := bt_insert pid (change page) (wt_dirty t)\<rparr>, ds))
           | None \<Rightarrow>
               (case on_pool (\<lambda>d. read_through d pid) ds of
                  (Inl e, ds') \<Rightarrow> (Inl e, (t, ds'))
                | (Inr copy, ds') \<Rightarrow> (Inr (), (t\<lparr>wt_dirty := bt_insert pid (change copy) (wt_dirty t)\<rparr>, ds')))))"

definition allocate_page :: "page_type \<Rightarrow> write_txn \<Rightarrow> page_id \<times> write_txn" where
  "allocate_page ty t =
     (let pid = PageId (wt_page_count t);
          t = t\<lparr>wt_page_count := wt_page_count t + 1\<rparr>
      in (pid, t\<lparr>wt_dirty := bt_insert pid (page_new pid ty) (wt_dirty t)\<rparr>))"

text \<open>The loop at the beginning of \<^verbatim>\<open>commit\<close>.\<close>

fun seal_all :: "(page_id, page) btree_map \<Rightarrow> ((page_id, page) btree_map) result" where
  "seal_all [] = Inr []"
| "seal_all ((pid, page) # rest) =
     (let page = seal page in
      case verify page pid of
        Inl err \<Rightarrow> Inl (InvalidArgument (''transaction left '' @ display_page_id pid @ '' malformed: ''
                         @ display_error err))
      | Inr _ \<Rightarrow> (case seal_all rest of Inl e \<Rightarrow> Inl e | Inr rest \<Rightarrow> Inr ((pid, page) # rest)))"

definition commit_images :: "txn_id \<Rightarrow> bool \<Rightarrow> u64 \<Rightarrow> (page_id, page) btree_map \<Rightarrow> wal_record list" where
  "commit_images txn grew page_count dirty =
     (if grew then [PageImage txn HEADER (encode_file_header \<lparr>fh_page_count = page_count\<rparr>)] else [])
     @ map (\<lambda>(pid, page). PageImage txn pid page) dirty"

definition txn_log :: "txn_id \<Rightarrow> wal_record list \<Rightarrow> (wal \<times> os, error, unit) prog" where
  "txn_log txn imgs =
     and_then (for_each (\<lambda>record. on_fst (wal_append record)) imgs) (\<lambda>_.
     and_then (on_fst (wal_append (Commit txn))) (\<lambda>_.
     wal_flush))"

definition publish :: "u64 \<Rightarrow> wal_record list \<Rightarrow> (database \<times> os, error, unit) prog" where
  "publish page_count imgs ds =
     (case set_page_count page_count (db_disk (fst ds)) of
        (Inl e, disk) \<Rightarrow> (Inl e, ds)
      | (Inr _, disk) \<Rightarrow>
          for_each (\<lambda>record. case record of
              PageImage _ pid page \<Rightarrow> if pid \<noteq> HEADER then on_pool (\<lambda>d. install_page d pid page) else ok ()
            | Commit _ \<Rightarrow> ok ()) imgs ((fst ds)\<lparr>db_disk := disk\<rparr>, snd ds))"

definition commit :: "write_txn \<Rightarrow> (database \<times> os, error, unit) prog" where
  "commit t ds =
     (if wt_dirty t = [] then (Inr (), ds)
      else case seal_all (wt_dirty t) of
        Inl e \<Rightarrow> (Inl e, ds)
      | Inr dirty \<Rightarrow>
          (case next_txn_id (fst ds) of (txn, db) \<Rightarrow>
           let grew = wt_page_count t > disk_page_count (db_disk db);
               imgs = commit_images txn grew (wt_page_count t) dirty
           in case on_wal (txn_log txn imgs) (db, snd ds) of
             (Inl err, (db, s)) \<Rightarrow> (Inl err, (poison db, s))
           | (Inr _, ds) \<Rightarrow>
               (case publish (wt_page_count t) imgs ds of
                  (Inl err, (db, s)) \<Rightarrow> (Inl err, (poison db, s))
                | (Inr _, ds) \<Rightarrow> (Inr (), snd (maybe_auto_checkpoint ds)))))"

definition rollback :: "write_txn \<Rightarrow> (database \<times> os, error, unit) prog" where
  "rollback t = ok ()"

end
