(* ===== verification/Db_State.thy ===== *)
theory Db_State
  imports Txn
begin

text \<open>
  What a database contains, and the invariant that ties the handle, the buffer pool, the log and the
  data file together. The contents are the page count and the committed pages; \<open>view\<close> reads them off
  a handle and the system. The invariant says that the log has an image of every page the data file
  may not have, so that replaying it over whatever a power loss leaves gives the contents back.
\<close>

section \<open>The contents of a database\<close>

record contents_of_db =
  ad_count :: u64
  ad_pages :: "page_id \<Rightarrow> page option"

type_synonym adb = contents_of_db

definition empty_db :: adb where
  "empty_db = \<lparr>ad_count = 1, ad_pages = Map.empty\<rparr>"

text \<open>Every data page is there and valid. A page's offset does not wrap.\<close>

definition adb_ok :: "adb \<Rightarrow> bool" where
  "adb_ok a \<longleftrightarrow> 0 < ad_count a \<and> unat (ad_count a) < 2 ^ 52 \<and>
     dom (ad_pages a) = {pid. pid \<noteq> HEADER \<and> raw pid < ad_count a} \<and>
     (\<forall>pid p. ad_pages a pid = Some p \<longrightarrow> valid_page pid p)"

text \<open>The committed contents as the handle shows them: what the pool caches, else what the file has.\<close>

definition db_page :: "database \<Rightarrow> os \<Rightarrow> page_id \<Rightarrow> page option" where
  "db_page db s pid =
     (if pid = HEADER \<or> raw pid \<ge> database_page_count db then None
      else case cached (db_pool db ! shard_for (db_pool db) pid) pid of
        Some fr \<Rightarrow> Some (fr_page fr)
      | None \<Rightarrow> map_option (\<lambda>f. as_bytes_mut (file_page (unat (raw pid)) (contents f)) zeroed)
                  (files s (dk_file (db_disk db))))"

definition view :: "database \<Rightarrow> os \<Rightarrow> adb" where
  "view db s = \<lparr>ad_count = database_page_count db, ad_pages = db_page db s\<rparr>"

text \<open>What committing a transaction makes of the contents.\<close>

definition apply_txn :: "write_txn \<Rightarrow> adb \<Rightarrow> adb" where
  "apply_txn t a = \<lparr>ad_count = wt_page_count t,
     ad_pages = ad_pages a ++ (map_option seal \<circ> map_of (wt_dirty t))\<rparr>"

section \<open>The data file and the log together\<close>

text \<open>All pages of the file, its header included.\<close>

definition full :: "adb \<Rightarrow> page_id \<Rightarrow> page option" where
  "full a = (ad_pages a)(HEADER \<mapsto> encode_file_header \<lparr>fh_page_count = ad_count a\<rparr>)"

text \<open>The pages other than those of \<open>D\<close> are in the file.\<close>

definition safe :: "page_id set \<Rightarrow> adb \<Rightarrow> bytes \<Rightarrow> bool" where
  "safe D a bs \<longleftrightarrow> (\<forall>pid p. full a pid = Some p \<longrightarrow> pid \<notin> D \<longrightarrow> page_at (unat (raw pid)) p bs)"

text \<open>Everything the log would write is current.\<close>

definition log_ok :: "wal_record list \<Rightarrow> adb \<Rightarrow> bool" where
  "log_ok rs a \<longleftrightarrow> all_images_ok rs \<and> redo rs \<subseteq>\<^sub>m full a"

abbreviation logged :: "wal_record list \<Rightarrow> page_id set" where
  "logged rs \<equiv> dom (redo rs)"

lemma raw_HEADER [simp]: "raw HEADER = 0"
  by (simp add: HEADER_def)

lemma adb_ok_page:
  assumes "adb_ok a" and "ad_pages a pid = Some p"
  shows "valid_page pid p" and "pid \<noteq> HEADER" and "raw pid < ad_count a" and "no_wrap pid"
proof -
  from assms have "pid \<in> {pid. pid \<noteq> HEADER \<and> raw pid < ad_count a}" unfolding adb_ok_def by blast
  then show "pid \<noteq> HEADER" and b: "raw pid < ad_count a" by simp_all
  from assms show "valid_page pid p" unfolding adb_ok_def by blast
  from assms(1) have "unat (ad_count a) < 2 ^ 52" unfolding adb_ok_def by blast
  with b show "no_wrap pid" by (simp add: no_wrap_def word_less_nat_alt)
qed

lemma full_no_wrap: "adb_ok a \<Longrightarrow> full a pid = Some p \<Longrightarrow> no_wrap pid"
  by (cases "pid = HEADER") (auto simp: full_def no_wrap_def [of HEADER] adb_ok_page(4))

lemma logged_full: "log_ok rs a \<Longrightarrow> logged rs \<subseteq> dom (full a)"
  by (simp add: log_ok_def map_le_implies_dom_le)

lemma logged_no_wrap: "adb_ok a \<Longrightarrow> log_ok rs a \<Longrightarrow> pid \<in> logged rs \<Longrightarrow> no_wrap pid"
  using full_no_wrap logged_full by blast

lemma safe_closed:
  assumes "no_wrap pid" and "pid \<in> D \<or> full a pid = Some p"
  shows "write_closed (safe D a) (unat (file_offset pid)) (as_bytes p)"
  unfolding safe_def file_offset_nat [OF assms(1)]
proof (intro write_closed_All write_closed_imp)
  fix q x assume q: "full a q = Some x" "q \<notin> D"
  show "write_closed (page_at (unat (raw q)) x) (unat (raw pid) * 4096) (as_bytes p)"
  proof (cases "q = pid")
    case True
    with q assms(2) have "x = p" by simp
    with True show ?thesis by (simp add: page_at_same_closed)
  next
    case False
    then show ?thesis by (simp add: page_at_other_closed page_ids_differ)
  qed
qed

lemma safe_cache_ctx:
  assumes "adb_ok a" and "log_ok rs a" and "dk_page_count d = ad_count a"
  shows "cache_ctx d (safe (logged rs) a) (logged rs) (ad_pages a)"
  unfolding cache_ctx_def
proof (intro conjI allI impI ballI)
  fix pid p assume p: "ad_pages a pid = Some p"
  note page = adb_ok_page [OF assms(1) p]
  show "valid_page pid p" by (rule page)
  show "disk_addr d pid" using page assms(3) by (simp add: disk_addr_def)
next
  fix pid p assume D: "pid \<in> logged rs"
  show "write_closed (safe (logged rs) a) (unat (file_offset pid)) (as_bytes p)"
    by (rule safe_closed [OF logged_no_wrap [OF assms(1,2) D] disjI1 [OF D]])
qed

lemma survives_mono: "survives P f \<Longrightarrow> (\<And>bs. P bs \<Longrightarrow> Q bs) \<Longrightarrow> survives Q f"
  by (auto simp: survives_def)

section \<open>What can be recovered\<close>

text \<open>
  What the log file contains now, and every image of it in which tears are detected, reads as one
  of the \<open>R\<close>.
\<close>

definition log_may :: "os_file \<Rightarrow> wal_record list set \<Rightarrow> bool" where
  "log_may g R \<longleftrightarrow> (\<forall>bs. persists (f_base g) (f_ops g) bs \<longrightarrow> (bs = contents g \<or> crash_detected g bs) \<longrightarrow>
     (\<exists>first rs t. bs = wal_image first rs @ t \<and> no_record (first + of_nat (length rs)) t \<and> rs \<in> R))"

text \<open>Whatever a power loss leaves now, it determines one of the contents \<open>A\<close>.\<close>

definition recoverable :: "path \<Rightarrow> path \<Rightarrow> os \<Rightarrow> adb set \<Rightarrow> bool" where
  "recoverable p w s A \<longleftrightarrow> p \<noteq> w \<and> named s p \<and> named s w \<and>
     (\<exists>f g R. files s p = Some f \<and> files s w = Some g \<and> log_may g R \<and>
        (\<forall>rs \<in> R. length rs < 2 ^ 64 \<and> (\<exists>a \<in> A. adb_ok a \<and> log_ok rs a \<and> survives (safe (logged rs) a) f)))"

lemma log_may_synced: "log_may (disk_file (wal_image first rs)) {rs}"
  unfolding log_may_def disk_file_def
  by (auto intro!: exI [of _ first] exI [of _ rs] exI [of _ "[]"])

lemma recoverableI:
  assumes "p \<noteq> w" "named s p" "named s w" "files s p = Some f" "files s w = Some g" "log_may g R"
    and "\<And>rs. rs \<in> R \<Longrightarrow> length rs < 2 ^ 64 \<and> (\<exists>a \<in> A. adb_ok a \<and> log_ok rs a \<and> survives (safe (logged rs) a) f)"
  shows "recoverable p w s A"
  unfolding recoverable_def using assms by blast

lemma recoverable_mono: "recoverable p w s A \<Longrightarrow> A \<subseteq> B \<Longrightarrow> recoverable p w s B"
  unfolding recoverable_def by blast

section \<open>The invariant of an open database\<close>

definition db_inv :: "path \<Rightarrow> path \<Rightarrow> database \<Rightarrow> os \<Rightarrow> adb \<Rightarrow> u64 \<Rightarrow> wal_record list \<Rightarrow> bool" where
  "db_inv p w db s a first rs \<longleftrightarrow>
     p \<noteq> w \<and> named s p \<and> named s w \<and> dk_file (db_disk db) = p \<and> dk_page_count (db_disk db) = ad_count a \<and>
     wal_file (db_wal db) = w \<and> wal_holds (db_wal db) s first rs [] \<and> length rs < 2 ^ 64 \<and>
     adb_ok a \<and> log_ok rs a \<and> \<not> unsure s p \<and> \<not> db_poisoned db \<and>
     (\<forall>r \<in> set rs. committed_in rs (record_txn r) \<and> txn_raw (record_txn r) < db_next_txn db) \<and>
     idle_pool (db_pool db) \<and>
     pool_inv (db_disk db) (safe (logged rs) a) (logged rs) (ad_pages a) (db_pool db, s)"

lemma db_inv_file:
  assumes "db_inv p w db s a first rs"
  obtains f where "files s p = Some f" and "survives (safe (logged rs) a) f" and "\<not> f_unsure f"
    and "\<And>pid x. ad_pages a pid = Some x \<Longrightarrow> (\<exists>i. dirty_at (db_pool db) i pid) \<or> page_at (unat (raw pid)) x (contents f)"
  using assms by (auto simp: db_inv_def pool_inv_def file_inv_def unsure_def)

lemma db_inv_recoverable:
  assumes "db_inv p w db s a first rs"
  shows "recoverable p w s {a}"
proof -
  obtain f where "files s p = Some f" "survives (safe (logged rs) a) f" using assms by (rule db_inv_file)
  moreover have "files s w = Some (disk_file (wal_image first rs))" using assms by (auto simp: db_inv_def wal_holds_def)
  ultimately show ?thesis
    unfolding recoverable_def using assms log_may_synced [of first rs] by (auto simp: db_inv_def)
qed

lemma db_inv_ctx:
  "db_inv p w db s a first rs \<Longrightarrow> cache_ctx (db_disk db) (safe (logged rs) a) (logged rs) (ad_pages a)"
  by (rule safe_cache_ctx) (simp_all add: db_inv_def)

text \<open>The view of a database that satisfies the invariant is its contents.\<close>

lemma pool_inv_view:
  assumes pool: "pool_inv (db_disk db) P D (ad_pages a) (db_pool db, s)"
    and "dk_page_count (db_disk db) = ad_count a" and "adb_ok a"
  shows "view db s = a"
proof -
  let ?C = "ad_pages a"
  have count: "database_page_count db = ad_count a"
    using assms(2) by (simp add: database_page_count_def disk_page_count_def)
  have dom: "dom ?C = {pid. pid \<noteq> HEADER \<and> raw pid < ad_count a}" using assms(3) by (simp add: adb_ok_def)
  obtain f where df: "files s (dk_file (db_disk db)) = Some f" and pages: "\<And>pid x. ?C pid = Some x \<Longrightarrow>
      (\<exists>i. dirty_at (db_pool db) i pid) \<or> page_at (unat (raw pid)) x (contents f)"
    using pool by (auto simp: pool_inv_def file_inv_def)
  have "db_page db s pid = ?C pid" for pid
  proof (cases "?C pid")
    case None
    then have "pid \<notin> {pid. pid \<noteq> HEADER \<and> raw pid < ad_count a}" unfolding dom [symmetric] by blast
    then have "pid = HEADER \<or> ad_count a \<le> raw pid" by auto
    with None count show ?thesis by (simp add: db_page_def)
  next
    case (Some x)
    then have "pid \<in> {pid. pid \<noteq> HEADER \<and> raw pid < ad_count a}" unfolding dom [symmetric] by blast
    then have data: "\<not> (pid = HEADER \<or> ad_count a \<le> raw pid)" by auto
    let ?i = "shard_for (db_pool db) pid"
    have i: "?i < length (db_pool db)" using pool by (intro shard_for_less) (simp add: pool_inv_def)
    show ?thesis
    proof (cases "cached (db_pool db ! ?i) pid")
      case None
      then have "\<not> dirty_at (db_pool db) ?i pid" by (simp add: dirty_at_def dirty_in_def)
      moreover have "\<not> (\<exists>j. j \<noteq> ?i \<and> dirty_at (db_pool db) j pid)" by (rule pool_inv_only_there [OF pool])
      ultimately have "\<not> (\<exists>j. dirty_at (db_pool db) j pid)" by metis
      with pages [OF Some] have "page_at (unat (raw pid)) x (contents f)" by blast
      then have x: "as_bytes_mut (file_page (unat (raw pid)) (contents f)) zeroed = x"
        by (simp add: page_at_def page_eqI as_bytes_mut_all)
      show ?thesis unfolding db_page_def count df using data None x Some by (simp only: if_False option.case option.map)
    next
      case (Some fr)
      have "frames_inv D ?C (db_pool db ! ?i)"
        by (rule shard_invD(2) [OF pool_inv_shard [OF pool i]])
      with Some have "?C pid = Some (fr_page fr)" by (simp add: frames_inv_def)
      with data Some count show ?thesis by (simp add: db_page_def)
    qed
  qed
  with count show ?thesis by (simp add: view_def fun_eq_iff)
qed

lemma db_inv_view: "db_inv p w db s a first rs \<Longrightarrow> view db s = a"
  by (rule pool_inv_view [of db "safe (logged rs) a" "logged rs"]) (simp_all add: db_inv_def)

section \<open>Checkpoints\<close>

lemma redo_Nil [simp]: "redo [] = Map.empty"
  by (simp add: redo_def)

lemma log_ok_Nil [simp]: "log_ok [] a"
  by (simp add: log_ok_def all_images_ok_def)

lemma safe_mono: "D \<subseteq> D' \<Longrightarrow> safe D a bs \<Longrightarrow> safe D' a bs"
  by (auto simp: safe_def)

text \<open>While the log is as it was and the data file has what the log has not, nothing is lost.\<close>

lemma recoverable_data:
  assumes "db_inv p w db s a first rs" and "named s' = named s" and "files s' w = files s w"
    and "files s' p = Some f" and "survives (safe (logged rs) a) f"
  shows "recoverable p w s' {a}"
proof -
  have "files s w = Some (disk_file (wal_image first rs))" using assms(1) by (auto simp: db_inv_def wal_holds_def)
  with assms log_may_synced [of first rs] show ?thesis
    unfolding recoverable_def by (auto simp: db_inv_def)
qed

lemma pool_inv_clean:
  assumes "pool_inv d P D C (pool, s)" and "\<forall>i pid. \<not> dirty_at pool i pid" and "file_inv d P' C (\<lambda>_. False) s'"
  shows "pool_inv d P' {} C (pool, s')"
proof -
  have "frames_inv {} C (pool ! i)" if "i < length pool" for i
  proof -
    have "frames_inv D C (pool ! i)" by (rule shard_invD(2) [OF pool_inv_shard [OF assms(1) that]])
    moreover have "\<not> dirty_in (pool ! i) pid" for pid using assms(2) that by (auto simp: dirty_at_def)
    ultimately show ?thesis by (auto simp: frames_inv_def dirty_in_def)
  qed
  with assms show ?thesis by (simp add: pool_inv_def)
qed

lemma log_may_resetting:
  assumes "resetting first rs nxt g" and "nxt = first + of_nat (length rs)" and "length rs < 2 ^ 64"
  shows "log_may g {rs, []}"
proof -
  have "of_nat (length rs) \<noteq> (0 :: u64)" if "rs \<noteq> []"
    using assms(3) that by (simp add: word_of_nat_eq_0_iff nat_dvd_not_less)
  then have "rs = [] \<or> nxt \<noteq> first" using assms(2) by auto
  with resetting_crash [OF assms(1)] show ?thesis unfolding log_may_def by blast
qed

text \<open>The last step of a checkpoint, and of opening: the data file has everything, so the log can go.\<close>

lemma reset_any:
  assumes "p \<noteq> w" "named s p" "named s w" "adb_ok a" "log_ok rs a" "length rs < 2 ^ 64" "wal_file wl = w"
    and holds: "wal_holds wl s first rs []" and "whole_headers s"
    and f: "files s p = Some f" "survives (safe {} a) f"
    and run: "wal_reset (wl, s) = (r, (wl', s'))"
  shows "touches w s s' \<and> wal_file wl' = w \<and> recoverable p w s' {a}
    \<and> (r = Inr () \<longrightarrow> wal_holds wl' s' (wal_next_seq wl) [] [])"
proof -
  note R = wal_reset_any [OF holds assms(9) run]
  have t: "touches w s s'" using R assms(7) by (simp add: touches_def)
  have fp: "files s' p = Some f" using R f assms(1,7) by auto
  have all: "adb_ok a \<and> log_ok rs' a \<and> survives (safe (logged rs') a) f" if "rs' = rs \<or> rs' = []" for rs'
    using that assms(4,5) survives_mono [OF f(2) safe_mono [of "{}"]] by auto
  have seq: "wal_next_seq wl = first + of_nat (length rs)" using holds by (simp add: wal_holds_def)
  have "\<exists>g. files s' w = Some g \<and> log_may g {rs, []}"
    using R
  proof (elim conjE disjE exE)
    assume "wal_holds wl' s' (wal_next_seq wl) [] []" "wal_file wl' = wal_file wl"
    then have "files s' w = Some (disk_file (wal_image (wal_next_seq wl) []))" using assms(7) by (simp add: wal_holds_def)
    moreover have "log_may (disk_file (wal_image (wal_next_seq wl) [])) {rs, []}"
      using log_may_synced [of "wal_next_seq wl" "[]"] unfolding log_may_def by blast
    ultimately show ?thesis by blast
  next
    fix e g assume "files s' (wal_file wl) = Some g" "resetting first rs (wal_next_seq wl) g"
    with log_may_resetting seq assms(6,7) show ?thesis by blast
  qed
  then obtain g where g: "files s' w = Some g" "log_may g {rs, []}" by blast
  have "recoverable p w s' {a}"
    by (rule recoverableI [OF assms(1) _ _ fp g]) (use assms(2,3,6) R all in auto)
  with R t assms(7) show ?thesis by auto
qed

text \<open>
  Header and fsync, once no page is dirty: the file keeps every page whatever happens, and if both
  succeed it has everything, durably.
\<close>

lemma checkpoint_file:
  assumes d: "dk_file d = p" "dk_page_count d = ad_count a" and adb: "HEADER \<notin> dom (ad_pages a)"
    and clean: "\<forall>i pid. \<not> dirty_at pool i pid" and pool: "pool_inv d P D (ad_pages a) (pool, s1)"
    and cl: "write_closed P 0 (as_bytes (encode_file_header \<lparr>fh_page_count = ad_count a\<rparr>))"
    and run: "and_then (write_file_header d) (\<lambda>_. disk_sync d) s1 = (r, s2)"
  shows "touches p s1 s2 \<and> pool_inv d P D (ad_pages a) (pool, s2) \<and> (\<exists>g. files s2 p = Some g \<and> survives P g
    \<and> (r = Inr () \<and> \<not> unsure s1 p \<longrightarrow> g = disk_file (contents g) \<and> safe {} a (contents g)))"
proof -
  let ?h = "encode_file_header \<lparr>fh_page_count = ad_count a\<rparr>"
  obtain f where f: "files s1 (dk_file d) = Some f" "survives P f"
    and pages: "\<And>pid x. ad_pages a pid = Some x \<Longrightarrow> page_at (unat (raw pid)) x (contents f)"
    using pool clean by (auto simp: pool_inv_def file_inv_def)
  obtain r1 t where wh: "write_file_header d s1 = (r1, t)" by fastforce
  from write_file_header_any [OF wh f] cl obtain g1 where k1: "keeps p s1 t" and g1: "files t (dk_file d) = Some g1"
    "survives P g1" "r1 = Inr () \<longrightarrow> page_at 0 ?h (contents g1)"
    "\<And>n q. n \<noteq> 0 \<Longrightarrow> page_at n q (contents f) \<Longrightarrow> page_at n q (contents g1)" using d by auto
  have off: "unat (raw pid) \<noteq> 0" if "pid \<noteq> HEADER" for pid using that page_ids_differ [of pid HEADER] by simp
  have pages1: "page_at (unat (raw pid)) x (contents g1)" if "ad_pages a pid = Some x" for pid x
    using g1(4) [OF off [of pid]] pages [OF that] that adb by (metis domI)
  have keep: "pool_inv d P D (ad_pages a) (pool, s2)" if "files s2 p = Some g" "survives P g" "contents g = contents g1" for g
    using pool that pages1 d(1) by (auto simp: pool_inv_def file_inv_def)
  show ?thesis
  proof (cases r1)
    case (Inl e)
    then have "r = Inl e" "s2 = t" using run wh by (auto simp: and_then_def)
    with k1 g1 d keep show ?thesis by (auto simp: keeps_def)
  next
    case (Inr u)
    then have sy: "disk_sync d t = (r, s2)" using run wh by (simp add: and_then_def)
    from disk_sync_any [OF sy g1(1,2)] obtain g where k2: "touches p t s2" and g: "files s2 p = Some g"
      "survives P g" "contents g = contents g1" "r = Inr () \<longrightarrow> g = sync_file g1" using d by auto
    have "\<not> f_unsure g1" if "\<not> unsure s1 p" using k1 that g1(1) d by (auto simp: keeps_def unsure_def)
    then have dur: "r = Inr () \<and> \<not> unsure s1 p \<longrightarrow> g = disk_file (contents g)" using g(3,4) by (simp add: sync_file_eq)
    have "safe {} a (contents g)" using pages1 g1(3) Inr g(3) by (auto simp: safe_def full_def split: if_splits)
    with dur g k1 k2 keep show ?thesis by (auto simp: keeps_def intro: touches_trans)
  qed
qed

lemma touches_script: "touches p s s' \<Longrightarrow> set (script s') \<subseteq> set (script s)"
  by (simp add: touches_def)

lemma write_checkpoint_any:
  assumes inv: "db_inv p w db s a first rs" and whole: "whole_headers s"
    and run: "write_checkpoint (db, s) = (r, (db', s'))"
  shows "set (script s') \<subseteq> set (script s) \<and> named s' = named s \<and> recoverable p w s' {a}
    \<and> (r = Inr () \<longrightarrow> db_inv p w db' s' a (wal_next_seq (db_wal db)) [])"
proof -
  let ?d = "db_disk db"
  have b: "p \<noteq> w" "named s p" "named s w" "adb_ok a" "log_ok rs a" "length rs < 2 ^ 64" "wal_file (db_wal db) = w"
    "wal_holds (db_wal db) s first rs []" "dk_file ?d = p" "\<not> unsure s p"
    using inv by (simp_all add: db_inv_def)
  have pool: "pool_inv ?d (safe (logged rs) a) (logged rs) (ad_pages a) (db_pool db, s)" and idle: "idle_pool (db_pool db)"
    using inv by (simp_all add: db_inv_def)
  obtain r1 pool1 s1 where fl: "flush_all ?d (db_pool db, s) = (r1, (pool1, s1))" by (metis surj_pair)
  note F = flush_all_any [OF db_inv_ctx [OF inv] pool fl]
  have t1: "touches p s s1" using F b(9) by simp
  then have w1: "files s1 w = files s w" "named s1 = named s" using b(1) by (auto simp: touches_def)
  obtain f1 where f1: "files s1 p = Some f1" "survives (safe (logged rs) a) f1"
    using F b(9) by (auto simp: pool_inv_def file_inv_def)
  show ?thesis
  proof (cases r1)
    case (Inl e)
    then have "r = Inl e" "s' = s1" using run fl by (auto simp: write_checkpoint_def and_then_def on_pool_def)
    with recoverable_data [OF inv w1(2,1) f1] t1 w1 show ?thesis by (simp add: touches_script)
  next
    case (Inr u)
    let ?db = "db\<lparr>db_pool := pool1\<rparr>"
    have sure: "\<not> unsure s1 p" and clean: "\<forall>i pid. \<not> dirty_at pool1 i pid" using F Inr b(9,10) by (auto simp: keeps_def)
    obtain r2 s2 where hs: "and_then (write_file_header ?d) (\<lambda>_. disk_sync ?d) s1 = (r2, s2)" by fastforce
    from F have pool1: "pool_inv ?d (safe (logged rs) a) (logged rs) (ad_pages a) (pool1, s1)" by simp
    have "write_closed (safe (logged rs) a) (unat (file_offset HEADER)) (as_bytes (encode_file_header \<lparr>fh_page_count = ad_count a\<rparr>))"
      by (rule safe_closed) (simp_all add: no_wrap_def full_def)
    moreover have "HEADER \<notin> dom (ad_pages a)" using adb_ok_page(2) [OF b(4)] by blast
    ultimately obtain g where t2: "touches p s1 s2" and g: "files s2 p = Some g" "survives (safe (logged rs) a) g"
        "r2 = Inr () \<longrightarrow> g = disk_file (contents g) \<and> safe {} a (contents g)"
      using checkpoint_file [OF b(9) _ _ clean pool1 _ hs] sure inv by (auto simp: db_inv_def)
    have w2: "files s2 w = files s w" "named s2 = named s" using t2 w1 b(1) by (auto simp: touches_def)
    have scr2: "set (script s2) \<subseteq> set (script s)" using t1 t2 touches_script by blast
    have rest: "write_checkpoint (db, s) = (case r2 of Inl e \<Rightarrow> (Inl e, (?db, s2)) | Inr _ \<Rightarrow> on_wal wal_reset (?db, s2))"
      using fl Inr hs by (auto simp: write_checkpoint_def and_then_def on_pool_def on_disk_def split: sum.splits prod.splits)
    show ?thesis
    proof (cases r2)
      case (Inl e)
      then have "r = Inl e" "s' = s2" using run rest by simp_all
      with recoverable_data [OF inv w2(2,1) g(1,2)] scr2 w2 show ?thesis by simp
    next
      case (Inr u2)
      obtain wl where rs: "wal_reset (db_wal db, s2) = (r, (wl, s'))" and db': "db' = ?db\<lparr>db_wal := wl\<rparr>"
        using run rest Inr by (auto simp: on_wal_def split: prod.splits)
      have dur: "g = disk_file (contents g)" "safe {} a (contents g)" using g(3) Inr by auto
      have sv: "survives (safe {} a) g" by (subst dur(1)) (simp add: survives_synced dur(2))
      have holds: "wal_holds (db_wal db) s2 first rs []" using b(7,8) w2 by (simp add: wal_holds_def)
      have "touches w s2 s' \<and> wal_file wl = w \<and> recoverable p w s' {a}
          \<and> (r = Inr () \<longrightarrow> wal_holds wl s' (wal_next_seq (db_wal db)) [] [])"
        by (rule reset_any [OF b(1) _ _ b(4,5,6,7) holds _ g(1) sv rs])
          (use b w2 whole_headers_mono [OF scr2 whole] in simp_all)
      note R = this
      then have fp: "files s' p = Some g" "named s' = named s" "set (script s') \<subseteq> set (script s)"
        using g(1) w2 b(1) scr2 by (auto simp: touches_def)
      have "db_inv p w db' s' a (wal_next_seq (db_wal db)) []" if ok: "r = Inr ()"
      proof -
        have "page_at (unat (raw pid)) x (contents g)" if "ad_pages a pid = Some x" for pid x
          using dur(2) that adb_ok_page(2) [OF b(4) that] by (auto simp: safe_def full_def)
        then have "file_inv ?d (safe {} a) (ad_pages a) (\<lambda>_. False) s'"
          unfolding file_inv_def using fp(1) b(9) sv by blast
        from pool_inv_clean [OF pool1 clean this]
        have "pool_inv ?d (safe (logged []) a) (logged []) (ad_pages a) (pool1, s')" by simp
        moreover have "idle_pool pool1" using flush_all_idle [OF db_inv_ctx [OF inv] pool idle fl] by simp
        moreover have "\<not> unsure s' p" using fp(1) dur(1) by (metis f_unsure_simps(3) option.case(2) unsure_def)
        ultimately show ?thesis using inv R fp(2) ok by (simp add: db_inv_def db' del: redo_Nil)
      qed
      with R fp(2,3) show ?thesis by simp
    qed
  qed
qed

text \<open>The handle is poisoned, or its contents are \<open>a\<close> as the invariant says.\<close>

definition db_safe :: "path \<Rightarrow> path \<Rightarrow> database \<Rightarrow> os \<Rightarrow> adb set \<Rightarrow> bool" where
  "db_safe p w db s A \<longleftrightarrow> recoverable p w s A \<and> (db_poisoned db \<or> (\<exists>a first rs. A = {a} \<and> db_inv p w db s a first rs))"

lemma db_inv_safe: "db_inv p w db s a first rs \<Longrightarrow> db_safe p w db s {a}"
  unfolding db_safe_def using db_inv_recoverable by blast

lemma checkpoint_locked_any:
  assumes "db_inv p w db s a first rs" and "whole_headers s" and "checkpoint_locked (db, s) = (r, (db', s'))"
  shows "set (script s') \<subseteq> set (script s) \<and> db_safe p w db' s' {a}
    \<and> (r = Inr () \<longrightarrow> db_inv p w db' s' a (wal_next_seq (db_wal db)) [])"
proof -
  obtain r1 db1 s1 where wc: "write_checkpoint (db, s) = (r1, (db1, s1))" by (metis surj_pair)
  note W = write_checkpoint_any [OF assms(1,2) wc]
  show ?thesis
  proof (cases r1)
    case (Inl e)
    with wc assms(3) have "r = Inl e" "db' = poison db1" "s' = s1" by (auto simp: checkpoint_locked_def)
    with W show ?thesis by (simp add: db_safe_def poison_def)
  next
    case (Inr u)
    with wc assms(3) have "r = Inr ()" "db' = db1" "s' = s1" by (auto simp: checkpoint_locked_def)
    with W Inr db_inv_safe show ?thesis by auto
  qed
qed

text \<open>On a system without faults a checkpoint succeeds.\<close>

lemma write_checkpoint_ok:
  assumes inv: "db_inv p w db s a first rs" and up: "healthy s"
  shows "\<exists>db' s'. write_checkpoint (db, s) = (Inr (), (db', s')) \<and> healthy s'"
proof -
  let ?d = "db_disk db" and ?P = "safe (logged rs) a"
  have pool: "pool_inv ?d ?P (logged rs) (ad_pages a) (db_pool db, s)" and idle: "idle_pool (db_pool db)"
    and w: "wal_holds (db_wal db) s first rs []" "wal_file (db_wal db) \<noteq> dk_file ?d"
    using inv by (auto simp: db_inv_def)
  obtain r1 pool1 s1 where fl: "flush_all ?d (db_pool db, s) = (r1, (pool1, s1))" by (metis surj_pair)
  have r1: "r1 = Inr ()" "healthy s1" using flush_all_idle [OF db_inv_ctx [OF inv] pool idle fl] up by simp_all
  note F = flush_all_any [OF db_inv_ctx [OF inv] pool fl]
  then obtain f where f: "files s1 (dk_file ?d) = Some f" by (auto simp: pool_inv_def file_inv_def)
  from F w have w1: "wal_holds (db_wal db) s1 first rs []" by (simp add: wal_holds_def touches_def)
  obtain g where hd: "write_file_header ?d s1 = (Inr (), with_file (dk_file ?d) g s1)"
    using f r1(2) by (simp add: write_file_header_def write_all_at_def os_simps prog_simps Let_def)
  let ?s2 = "with_file (dk_file ?d) (sync_file g) s1"
  have sy: "disk_sync ?d (with_file (dk_file ?d) g s1) = (Inr (), ?s2)"
    using r1(2) by (simp add: disk_sync_def sync_all_def os_simps prog_simps)
  have "wal_holds (db_wal db) ?s2 first rs []" using w1 w(2) by (simp add: wal_holds_def)
  from wal_reset_run [OF this] r1(2) obtain wl s3 where "wal_reset (db_wal db, ?s2) = (Inr (), (wl, s3))" "healthy s3" by auto
  with fl r1 hd sy show ?thesis
    by (simp add: write_checkpoint_def and_then_def on_pool_def on_disk_def on_wal_def)
qed

lemma checkpoint_locked_ok:
  assumes "db_inv p w db s a first rs" and "healthy s"
  shows "\<exists>db' s'. checkpoint_locked (db, s) = (Inr (), (db', s')) \<and> healthy s'"
  using write_checkpoint_ok [OF assms] by (auto simp: checkpoint_locked_def)

lemma healthy_whole: "healthy s \<Longrightarrow> whole_headers s"
  by (simp add: healthy_def whole_headers_def)

lemma maybe_auto_checkpoint_any:
  assumes inv: "db_inv p w db s a first rs" and whole: "whole_headers s" and run: "maybe_auto_checkpoint (db, s) = (r, (db', s'))"
  shows "set (script s') \<subseteq> set (script s) \<and> db_safe p w db' s' {a}
    \<and> (healthy s \<longrightarrow> healthy s' \<and> (\<exists>first rs. db_inv p w db' s' a first rs))"
proof (cases "\<exists>limit. db_auto_checkpoint_bytes db = Some limit \<and> unat limit \<le> wal_durable_len (db_wal db)")
  case True
  then have ck: "checkpoint_locked (db, s) = (r, (db', s'))" using run by (auto simp: maybe_auto_checkpoint_def)
  note C = checkpoint_locked_any [OF inv whole ck]
  have "r = Inr () \<and> healthy s'" if "healthy s" using checkpoint_locked_ok [OF inv that] ck by auto
  with C show ?thesis by blast
next
  case False
  then have "db' = db" "s' = s" using run by (auto simp: maybe_auto_checkpoint_def split: option.splits)
  with inv db_inv_safe [OF inv] show ?thesis by blast
qed

end
