(* ===== verification/Db_Commit.thy ===== *)
theory Db_Commit
  imports Db_State
begin

text \<open>
  Committing a transaction, whatever the system does: the log gets all of its records or a prefix that
  does not count, and publishing keeps the invariant, with the contents the transaction made.
\<close>

section \<open>Transactions and the contents\<close>

text \<open>
  What begin, \<open>page_mut\<close> and \<open>allocate_page\<close> maintain: the private pages are data pages, and among
  them is every page that has been allocated.
\<close>

definition txn_ok :: "write_txn \<Rightarrow> adb \<Rightarrow> bool" where
  "txn_ok t a \<longleftrightarrow> bt_ordered (wt_dirty t) \<and> ad_count a \<le> wt_page_count t \<and>
     fst ` set (wt_dirty t) \<subseteq> {pid. pid \<noteq> HEADER \<and> raw pid < wt_page_count t} \<and>
     {pid. ad_count a \<le> raw pid \<and> raw pid < wt_page_count t} \<subseteq> fst ` set (wt_dirty t)"

lemma seal_all_Inr:
  "seal_all m = Inr m' \<Longrightarrow> m' = map (\<lambda>(pid, page). (pid, seal page)) m \<and> (\<forall>(pid, page) \<in> set m'. valid_page pid page)"
proof (induction m arbitrary: m')
  case (Cons x rest)
  obtain pid page where x: "x = (pid, page)" by (cases x)
  from Cons.prems x obtain rest' where rest: "seal_all rest = Inr rest'" "m' = (pid, seal page) # rest'"
    and ok: "is_ok (verify (seal page) pid)" by (auto simp: Let_def split: sum.splits)
  with Cons.IH [OF rest(1)] x show ?case by (auto simp: valid_page_def)
qed simp

lemma seal_all_ok:
  "(\<forall>(pid, page) \<in> set m. valid_page pid (seal page)) \<Longrightarrow> seal_all m = Inr (map (\<lambda>(pid, page). (pid, seal page)) m)"
  by (induction m rule: seal_all.induct) (auto simp: Let_def valid_page_def is_ok_iff)

lemma seal_all_Inl: "seal_all m = Inl e \<Longrightarrow> \<exists>msg. e = InvalidArgument msg"
  by (induction m rule: seal_all.induct) (auto simp: Let_def split: sum.splits)

subsection \<open>What a commit adds to the log\<close>

lemma images_none: "\<forall>r \<in> set rs. record_txn r = txn \<Longrightarrow> \<not> com txn \<Longrightarrow> images com rs = []"
  by (induction com rs rule: images.induct) auto

lemma images_pages: "com txn \<Longrightarrow> images com (map (\<lambda>(pid, page). PageImage txn pid page) ws) = ws"
  by (induction ws) auto

lemma committed_in_append: "committed_in (rs @ qs) txn \<longleftrightarrow> committed_in rs txn \<or> committed_in qs txn"
  by (auto simp: committed_in_def)

text \<open>A part of a transaction's records without the commit record changes nothing.\<close>

lemma images_partial:
  assumes "\<forall>r \<in> set rs. record_txn r \<noteq> txn" and "\<forall>r \<in> set part. record_txn r = txn" and "Commit txn \<notin> set part"
  shows "images (committed_in (rs @ part)) (rs @ part) = images (committed_in rs) rs"
proof -
  have none: "\<not> committed_in part t" for t using assms(2,3) by (force simp: committed_in_def)
  have "\<not> committed_in rs txn" using assms(1) by (force simp: committed_in_def)
  then have "images (committed_in (rs @ part)) part = []"
    using assms(2) none by (intro images_none) (auto simp: committed_in_append)
  moreover have "images (committed_in (rs @ part)) rs = images (committed_in rs) rs"
    using none by (intro images_cong) (auto simp: committed_in_append)
  ultimately show ?thesis by (simp add: images_append)
qed

lemma redo_partial:
  assumes "\<forall>r \<in> set rs. record_txn r \<noteq> txn" and "\<forall>r \<in> set part. record_txn r = txn" and "Commit txn \<notin> set part"
  shows "redo (rs @ part) = redo rs" and "log_ok (rs @ part) a = log_ok rs a"
  using images_partial [OF assms] by (simp_all add: redo_def log_ok_def all_images_ok_def)

text \<open>With the commit record all its images count.\<close>

definition txn_records :: "txn_id \<Rightarrow> (page_id \<times> page) list \<Rightarrow> wal_record list" where
  "txn_records txn ws = map (\<lambda>(pid, page). PageImage txn pid page) ws @ [Commit txn]"

lemma images_committed:
  assumes "\<forall>r \<in> set rs. record_txn r \<noteq> txn"
  shows "images (committed_in (rs @ txn_records txn ws)) (rs @ txn_records txn ws) = images (committed_in rs) rs @ ws"
proof -
  let ?qs = "txn_records txn ws"
  have com: "committed_in (rs @ ?qs) txn" by (simp add: txn_records_def committed_in_def)
  have "committed_in (rs @ ?qs) t \<longleftrightarrow> committed_in rs t" if "t \<in> record_txn ` set rs" for t
    using that assms by (auto simp: txn_records_def committed_in_def)
  then have "images (committed_in (rs @ ?qs)) rs = images (committed_in rs) rs" by (intro images_cong) blast
  moreover have "images (committed_in (rs @ ?qs)) ?qs = ws"
    using images_pages [of "committed_in (rs @ ?qs)" txn ws, OF com] by (simp add: txn_records_def images_append)
  ultimately show ?thesis by (simp add: images_append)
qed

lemma redo_committed:
  assumes "\<forall>r \<in> set rs. record_txn r \<noteq> txn"
  shows "redo (rs @ txn_records txn ws) = redo rs ++ map_of (rev ws)"
    and "all_images_ok (rs @ txn_records txn ws) \<longleftrightarrow> all_images_ok rs \<and> (\<forall>ip \<in> set ws. image_ok ip)"
  unfolding redo_def all_images_ok_def images_committed [OF assms] by auto

text \<open>The pages a commit logs: the header if the database grows, then the private pages.\<close>

definition txn_writes :: "bool \<Rightarrow> u64 \<Rightarrow> (page_id, page) btree_map \<Rightarrow> (page_id \<times> page) list" where
  "txn_writes grew n dirty = (if grew then [(HEADER, encode_file_header \<lparr>fh_page_count = n\<rparr>)] else []) @ dirty"

lemma commit_images_writes:
  "commit_images txn grew n dirty @ [Commit txn] = txn_records txn (txn_writes grew n dirty)"
  by (simp add: commit_images_def txn_writes_def txn_records_def)

lemma take_txn_records:
  "k < length (txn_records txn ws) \<Longrightarrow> Commit txn \<notin> set (take k (txn_records txn ws))"
  by (auto simp: txn_records_def dest!: in_set_takeD)

lemma record_txn_records: "r \<in> set (take k (txn_records txn ws)) \<Longrightarrow> record_txn r = txn"
  by (auto simp: txn_records_def dest!: in_set_takeD)

subsection \<open>The contents after a commit\<close>

lemma apply_txn_full:
  assumes ok: "txn_ok t a" and seal: "seal_all (wt_dirty t) = Inr dirty" and grew: "grew \<longleftrightarrow> wt_page_count t > ad_count a"
  defines "ws \<equiv> txn_writes grew (wt_page_count t) dirty"
  shows "distinct (map fst ws)" and "(pid, p) \<in> set ws \<Longrightarrow> full (apply_txn t a) pid = Some p"
    and "pid \<notin> fst ` set ws \<Longrightarrow> full (apply_txn t a) pid = full a pid"
proof -
  have dirty: "dirty = map (\<lambda>(pid, page). (pid, seal page)) (wt_dirty t)" using seal_all_Inr [OF seal] by simp
  have keys: "map fst dirty = map fst (wt_dirty t)" by (simp add: dirty case_prod_unfold comp_def)
  then have keys': "fst ` set dirty = fst ` set (wt_dirty t)" by (metis list.set_map)
  have dist: "distinct (map fst dirty)" using ok keys by (simp add: txn_ok_def bt_ordered_distinct)
  have data: "HEADER \<notin> fst ` set dirty" using ok keys' by (auto simp: txn_ok_def)
  then have "HEADER \<notin> set (map fst dirty)" by simp
  with dist show "distinct (map fst ws)" by (simp add: ws_def txn_writes_def)
  have map: "map_of dirty = map_option seal \<circ> map_of (wt_dirty t)" by (simp add: dirty map_of_map)
  show "full (apply_txn t a) pid = Some p" if "(pid, p) \<in> set ws"
  proof (cases "(pid, p) \<in> set dirty")
    case True
    then have "map_of dirty pid = Some p" using dist by simp
    moreover have "pid \<noteq> HEADER" using data True by force
    ultimately show ?thesis unfolding map by (auto simp: full_def apply_txn_def map_add_def)
  next
    case False
    with that show ?thesis by (auto simp: ws_def txn_writes_def full_def apply_txn_def split: if_splits)
  qed
  show "full (apply_txn t a) pid = full a pid" if "pid \<notin> fst ` set ws"
  proof (cases "pid = HEADER")
    case True
    with that have "\<not> grew" by (auto simp: ws_def txn_writes_def)
    then have "wt_page_count t = ad_count a" using grew ok by (simp add: txn_ok_def)
    with True show ?thesis by (simp add: full_def apply_txn_def)
  next
    case False
    have "pid \<notin> fst ` set dirty" using that by (auto simp: ws_def txn_writes_def)
    then have "map_of dirty pid = None" by (simp add: map_of_eq_None_iff)
    with False show ?thesis unfolding map by (auto simp: full_def apply_txn_def map_add_def)
  qed
qed

lemma apply_txn_ok:
  assumes a: "adb_ok a" and ok: "txn_ok t a" and seal: "seal_all (wt_dirty t) = Inr dirty" and "unat (wt_page_count t) < 2 ^ 52"
  shows "adb_ok (apply_txn t a)"
proof -
  have dirty: "dirty = map (\<lambda>(pid, page). (pid, seal page)) (wt_dirty t)"
    and valid: "\<forall>(pid, page) \<in> set dirty. valid_page pid page" using seal_all_Inr [OF seal] by simp_all
  have map: "map_of dirty = map_option seal \<circ> map_of (wt_dirty t)" by (simp add: dirty map_of_map)
  have pages: "ad_pages (apply_txn t a) = ad_pages a ++ map_of dirty" by (simp add: apply_txn_def map)
  have "fst ` set dirty = fst ` set (wt_dirty t)" by (simp add: dirty image_image case_prod_unfold)
  then have "dom (ad_pages (apply_txn t a)) = dom (ad_pages a) \<union> fst ` set (wt_dirty t)"
    by (auto simp: pages dom_map_of_conv_image_fst)
  moreover have "dom (ad_pages a) = {pid. pid \<noteq> HEADER \<and> raw pid < ad_count a}" using a by (simp add: adb_ok_def)
  ultimately have dom: "dom (ad_pages (apply_txn t a)) = {pid. pid \<noteq> HEADER \<and> raw pid < wt_page_count t}"
    using ok unfolding txn_ok_def by (auto simp: not_le [symmetric])
  have "valid_page pid p" if "ad_pages (apply_txn t a) pid = Some p" for pid p
  proof (cases "map_of dirty pid")
    case (Some q)
    with that have "p = q" by (simp add: pages map_add_def)
    with valid map_of_SomeD [OF Some] show ?thesis by blast
  next
    case None
    with that adb_ok_page(1) [OF a] show ?thesis by (simp add: pages map_add_def)
  qed
  moreover have "0 < wt_page_count t" using a ok unfolding adb_ok_def txn_ok_def by (metis order_less_le_trans)
  ultimately show ?thesis using dom assms(4) unfolding adb_ok_def by (simp add: apply_txn_def)
qed

lemma commit_log_ok:
  assumes a: "adb_ok a" and lg: "log_ok rs a" and ok: "txn_ok t a" and seal: "seal_all (wt_dirty t) = Inr dirty"
    and grew: "grew \<longleftrightarrow> wt_page_count t > ad_count a" and fresh: "\<forall>r \<in> set rs. record_txn r \<noteq> txn"
    and small: "unat (wt_page_count t) < 2 ^ 52"
  defines "qs \<equiv> txn_records txn (txn_writes grew (wt_page_count t) dirty)"
  shows "log_ok (rs @ qs) (apply_txn t a)"
    and "logged (rs @ qs) = logged rs \<union> fst ` set (txn_writes grew (wt_page_count t) dirty)"
    and "safe (logged rs) a bs \<Longrightarrow> safe (logged (rs @ qs)) (apply_txn t a) bs"
proof -
  let ?ws = "txn_writes grew (wt_page_count t) dirty"
  note full = apply_txn_full [OF ok seal grew]
  note redo = redo_committed [OF fresh, of ?ws]
  have redo_eq: "redo (rs @ qs) = redo rs ++ map_of (rev ?ws)" unfolding qs_def by (rule redo(1))
  have mo: "map_of (rev ?ws) pid = Some p \<Longrightarrow> (pid, p) \<in> set ?ws" for pid p by (metis map_of_SomeD set_rev)
  have mn: "map_of (rev ?ws) pid = None \<longleftrightarrow> pid \<notin> fst ` set ?ws" for pid by (simp add: map_of_eq_None_iff)
  show dom: "logged (rs @ qs) = logged rs \<union> fst ` set ?ws"
    unfolding redo_eq dom_map_add by (auto simp: dom_map_of_conv_image_fst)
  have "wt_page_count t \<noteq> 0" using apply_txn_ok [OF a ok seal small] unfolding adb_ok_def apply_txn_def by auto
  then have hd: "is_ok (decode_file_header (encode_file_header \<lparr>fh_page_count = wt_page_count t\<rparr>))"
    by (simp add: decode_encode)
  have "image_ok ip" if "ip \<in> set ?ws" for ip
  proof (cases "ip \<in> set dirty")
    case True
    obtain pid p where ip: "ip = (pid, p)" by (cases ip)
    from True ip seal_all_Inr [OF seal] have "valid_page pid p" and "pid \<in> fst ` set (wt_dirty t)" by (auto intro: rev_image_eqI)
    moreover from this(2) ok have "pid \<noteq> HEADER" by (auto simp: txn_ok_def)
    ultimately show ?thesis by (simp add: image_ok_def ip)
  next
    case False
    with that hd show ?thesis by (auto simp: txn_writes_def image_ok_def split: if_splits)
  qed
  with lg have imgs: "all_images_ok (rs @ qs)" unfolding qs_def redo(2) by (simp add: log_ok_def)
  have le: "redo (rs @ qs) pid = Some p \<Longrightarrow> full (apply_txn t a) pid = Some p" for pid p
  proof -
    assume r: "redo (rs @ qs) pid = Some p"
    show ?thesis
    proof (cases "map_of (rev ?ws) pid")
      case None
      with r have "redo rs pid = Some p" by (simp add: redo_eq map_add_def)
      with lg have "full a pid = Some p" unfolding log_ok_def by (metis domI map_le_def)
      with None mn full(3) show ?thesis by metis
    next
      case (Some q)
      with r have "q = p" by (simp add: redo_eq map_add_def)
      with Some mo full(2) show ?thesis by blast
    qed
  qed
  with imgs show "log_ok (rs @ qs) (apply_txn t a)" by (auto simp: log_ok_def map_le_def)
  show "safe (logged (rs @ qs)) (apply_txn t a) bs" if "safe (logged rs) a bs"
    unfolding safe_def dom
  proof (intro allI impI)
    fix pid p assume p: "full (apply_txn t a) pid = Some p" and out: "pid \<notin> logged rs \<union> fst ` set ?ws"
    then have "full a pid = Some p" using full(3) [of pid] by simp
    with that out show "page_at (unat (raw pid)) p bs" unfolding safe_def by blast
  qed
qed

lemma flushing_contents:
  assumes "flushing first rs qs g"
  shows "crash_detected g (contents g)"
proof (cases "f_ops g = []")
  case False
  then obtain k where k: "f_base g = wal_image first rs" "f_ops g = [Write (length (wal_image first rs)) (take k (encode_all (first + of_nat (length rs)) qs))]"
    using assms by (auto simp: flushing_def)
  have "tears_detected x x" for x using tears_detected_prefix [of x "length x"] by simp
  with k show ?thesis by (simp add: crash_detected_def contents_def write_bytes_end)
qed (simp add: crash_detected_def)

lemma log_may_flushing:
  assumes "flushing first rs qs g"
  shows "log_may g (range (\<lambda>k. rs @ take k qs))"
  unfolding log_may_def using flushing_crash [OF assms] flushing_contents [OF assms] by (metis rangeI)

section \<open>Publishing\<close>

lemma publish_installs:
  assumes "HEADER \<notin> fst ` set dirty"
  shows "for_each (\<lambda>record. case record of
        PageImage _ pid page \<Rightarrow> if pid \<noteq> HEADER then on_pool (\<lambda>d. install_page d pid page) else ok ()
      | Commit _ \<Rightarrow> ok ()) (commit_images txn grew n dirty) (db, s) =
    (case for_each (\<lambda>(pid, page). install_page (db_disk db) pid page) dirty (db_pool db, s) of
       (r, (pool, s')) \<Rightarrow> (r, (db\<lparr>db_pool := pool\<rparr>, s')))"
proof -
  let ?f = "\<lambda>record. case record of
        PageImage _ pid page \<Rightarrow> if pid \<noteq> HEADER then on_pool (\<lambda>d. install_page d pid page) else ok ()
      | Commit _ \<Rightarrow> ok ()"
  have pages: "for_each ?f (map (\<lambda>(pid, page). PageImage txn pid page) dirty) (db, s) =
    (case for_each (\<lambda>(pid, page). install_page (db_disk db) pid page) dirty (db_pool db, s) of
       (r, (pool, s')) \<Rightarrow> (r, (db\<lparr>db_pool := pool\<rparr>, s')))"
    using assms
  proof (induction dirty arbitrary: db s)
    case Nil
    then show ?case by (simp add: ok_def)
  next
    case (Cons x dirty)
    obtain pid page where x: "x = (pid, page)" by (cases x)
    obtain r pool s1 where i: "install_page (db_disk db) pid page (db_pool db, s) = (r, (pool, s1))" by (metis surj_pair)
    have "pid \<noteq> HEADER" using Cons.prems x by auto
    with i have "?f (PageImage txn pid page) (db, s) = (r, (db\<lparr>db_pool := pool\<rparr>, s1))" by (simp add: on_pool_def)
    with i Cons.IH [of "db\<lparr>db_pool := pool\<rparr>" s1] Cons.prems x show ?case
      by (cases r) (auto simp: and_then_def split: prod.splits)
  qed
  show ?thesis
    unfolding commit_images_def for_each_append using pages by (simp add: and_then_def ok_def)
qed

lemma pool_inv_weaken:
  assumes "pool_inv d P D C (pool, s)" and "dk_file d' = dk_file d" and "\<And>bs. P bs \<Longrightarrow> P' bs" and "D \<subseteq> D'"
  shows "pool_inv d' P' D' C (pool, s)"
proof -
  have "frames_inv D' C sh" if "frames_inv D C sh" for sh using that assms(4) by (auto simp: frames_inv_def)
  moreover have "file_inv d' P' C dirty s" if "file_inv d P C dirty s" for dirty
    using that assms(2) survives_mono [OF _ assms(3)] by (auto simp: file_inv_def)
  ultimately show ?thesis using assms(1) by (simp add: pool_inv_def)
qed

lemma publish_any:
  assumes a: "adb_ok a" "adb_ok (apply_txn t a)" and ok: "txn_ok t a"
    and seal: "seal_all (wt_dirty t) = Inr dirty" and D: "fst ` set dirty \<subseteq> D"
    and d: "dk_page_count (db_disk db) = ad_count a" "db_disk db = d" and idle: "idle_pool (db_pool db)"
    and pool: "pool_inv d P D (ad_pages a) (db_pool db, s)"
    and ctx': "cache_ctx (d\<lparr>dk_page_count := wt_page_count t\<rparr>) P D (ad_pages (apply_txn t a))"
    and run: "publish (wt_page_count t) (commit_images txn grew n dirty) (db, s) = (r, (db', s'))"
  defines "d' \<equiv> d\<lparr>dk_page_count := wt_page_count t\<rparr>"
  shows "keeps (dk_file d) s s' \<and> (healthy s \<longrightarrow> r = Inr () \<and> healthy s')
    \<and> (\<exists>pool'. db' = db\<lparr>db_disk := d', db_pool := pool'\<rparr> \<and> idle_pool pool'
    \<and> (\<exists>C. pool_inv d' P D C (pool', s') \<and> (r = Inr () \<longrightarrow> C = ad_pages (apply_txn t a))))"
proof -
  let ?a = "apply_txn t a"
  have dirty: "dirty = map (\<lambda>(pid, page). (pid, seal page)) (wt_dirty t)"
    and valid: "\<forall>(pid, page) \<in> set dirty. valid_page pid page" using seal_all_Inr [OF seal] by simp_all
  have keys: "fst ` set dirty = fst ` set (wt_dirty t)" by (simp add: dirty image_image case_prod_unfold)
  have grow: "ad_count a \<le> wt_page_count t" using ok by (simp add: txn_ok_def)
  have ctx: "cache_ctx d' P D (ad_pages a)"
    using ctx' adb_ok_page [OF a(1)] order_less_le_trans [OF _ grow]
    by (auto simp: cache_ctx_def disk_addr_def d'_def)
  have sp: "set_page_count (wt_page_count t) d = (Inr (), d')"
    using d grow by (simp add: set_page_count_def disk_page_count_def d'_def not_less Let_def)
  have hdr: "HEADER \<notin> fst ` set dirty" using ok keys by (auto simp: txn_ok_def)
  obtain r1 pool' s1 where ins: "for_each (\<lambda>(pid, page). install_page d' pid page) dirty (db_pool db, s) = (r1, (pool', s1))"
    by (metis surj_pair)
  have res: "r = r1" "s' = s1" "db' = db\<lparr>db_disk := d', db_pool := pool'\<rparr>"
    using run publish_installs [OF hdr, of txn grew n "db\<lparr>db_disk := d'\<rparr>" s] ins sp d by (simp_all add: publish_def)
  have acc: "\<forall>(pid, page) \<in> set dirty. cache_accepts d' D pid page"
  proof
    fix x assume x: "x \<in> set dirty"
    obtain pid page where xp: "x = (pid, page)" by (cases x)
    from x xp keys have k: "pid \<in> fst ` set (wt_dirty t)" by (metis fst_conv image_eqI)
    then have b: "pid \<noteq> HEADER" "raw pid < wt_page_count t" using ok by (auto simp: txn_ok_def)
    have "pid \<in> D" using x xp D by force
    moreover have "no_wrap pid"
      using b(2) a(2) by (simp add: adb_ok_def apply_txn_def no_wrap_def word_less_nat_alt)
    ultimately show "case x of (pid, page) \<Rightarrow> cache_accepts d' D pid page"
      using x xp valid b by (auto simp: cache_accepts_def disk_addr_def d'_def)
  qed
  have st: "cache_state d' P D s (ad_pages a) (db_pool db, s)"
    using ctx idle pool_inv_weaken [OF pool, of d' P D] by (simp add: cache_state_def d'_def)
  have live: "r1 = Inr () \<and> healthy s1" if "healthy s" using pc.put_all_live [OF st _ acc] ins that by auto
  from pc.put_all [OF st acc ins] obtain k where st': "cache_state d' P D s (ad_pages a ++ map_of (rev (take k dirty))) (pool', s1)"
    and k: "r1 = Inr () \<longrightarrow> take k dirty = dirty" by blast
  have "distinct (map fst dirty)"
    using ok by (simp add: dirty txn_ok_def bt_ordered_distinct case_prod_unfold comp_def)
  then have "map_of (rev dirty) = map_of dirty"
    by (metis distinct_rev map_of_inject_set rev_map set_rev)
  then have full: "ad_pages a ++ map_of (rev dirty) = ad_pages ?a" by (simp add: apply_txn_def dirty map_of_map)
  from st' have "keeps (dk_file d) s s1" "idle_pool pool'" by (simp_all add: cache_state_def d'_def)
  moreover have "pool_inv d' P D (ad_pages a ++ map_of (rev (take k dirty))) (pool', s1)"
    using st' by (simp add: cache_state_def)
  moreover have "r = Inr () \<longrightarrow> ad_pages a ++ map_of (rev (take k dirty)) = ad_pages ?a" using k full res(1) by metis
  ultimately show ?thesis using res live by blast
qed

section \<open>Committing\<close>

text \<open>Page ids, transaction ids and the log's length stay within 64 bits.\<close>

definition commit_fits :: "write_txn \<Rightarrow> database \<Rightarrow> bool" where
  "commit_fits t db \<longleftrightarrow> unat (wt_page_count t) < 2 ^ 52 \<and> unat (db_next_txn db) < 2 ^ 64 - 1
     \<and> wal_durable_len (db_wal db) + length (wt_dirty t) + 2 < 2 ^ 64"

lemma length_encode_all: "length rs \<le> length (encode_all n rs)"
proof (induction rs arbitrary: n)
  case (Cons r rs)
  have "0 < length (enc r n)" using record_len_ge [of r] by simp
  with Cons [of "n + 1"] show ?case by simp
qed simp

lemma txn_log_group:
  "txn_log txn imgs = and_then (for_each (\<lambda>r. on_fst (wal_append r)) (imgs @ [Commit txn])) (\<lambda>_. wal_flush)"
  unfolding txn_log_def for_each_append
  by (auto simp: fun_eq_iff and_then_def ok_def split: prod.splits sum.splits)

lemma for_each_on_fst: "for_each (\<lambda>r. on_fst (f r)) rs (w, s) = (r, (w', s')) \<Longrightarrow> s' = s"
proof (induction rs arbitrary: w)
  case (Cons x rs)
  obtain r1 w1 where "f x w = (r1, w1)" by fastforce
  with Cons show ?case by (cases r1) (auto simp: and_then_def on_fst_def)
qed (simp add: ok_def)

lemma txn_log_ok:
  assumes "wal_holds wl s first rs []" and "healthy s"
  shows "\<exists>wl' s'. txn_log txn imgs (wl, s) = (Inr (), (wl', s')) \<and> healthy s'"
proof -
  have "log_holds (wal_file wl) first s (wl, s) rs []" using assms(1) by (simp add: log_holds_def)
  from wl.for_each_app [OF this, of "imgs @ [Commit txn]"] obtain wl1 s1
    where app: "for_each (\<lambda>r. on_fst (wal_append r)) (imgs @ [Commit txn]) (wl, s) = (Inr (), (wl1, s1))"
      and h: "log_holds (wal_file wl) first s (wl1, s1) rs (imgs @ [Commit txn])" by fastforce
  have "s1 = s" by (rule for_each_on_fst [OF app])
  with h have "wal_holds wl1 s first rs (imgs @ [Commit txn])" by (simp add: log_holds_def)
  from wal_flush_run [OF this assms(2)] app \<open>s1 = s\<close> show ?thesis
    unfolding txn_log_group and_then_def by auto
qed

lemma log_step:
  assumes inv: "db_inv p w db s a first rs" and same: "db_wal db1 = db_wal db"
    and run: "on_wal (txn_log txn imgs) (db1, s) = (r, (db2, s2))"
  shows "touches w s s2 \<and> (healthy s \<longrightarrow> r = Inr () \<and> healthy s2) \<and> (\<exists>wl. db2 = db1\<lparr>db_wal := wl\<rparr> \<and> wal_file wl = w
    \<and> (r = Inr () \<and> wal_holds wl s2 first (rs @ imgs @ [Commit txn]) []
       \<or> (\<exists>e. r = Inl e) \<and> (\<exists>g. files s2 w = Some g \<and> flushing first rs (imgs @ [Commit txn]) g)))"
proof -
  obtain wl where tl: "txn_log txn imgs (db_wal db, s) = (r, (wl, s2))" and db2: "db2 = db1\<lparr>db_wal := wl\<rparr>"
    using run same by (auto simp: on_wal_def split: prod.splits)
  have "log_holds w first s (db_wal db, s) rs []" using inv by (simp add: log_holds_def db_inv_def)
  note group = wl.log_group [OF this tl [unfolded txn_log_group]]
  have "wal_holds (db_wal db) s first rs []" using inv by (simp add: db_inv_def)
  from txn_log_ok [OF this, of txn imgs] tl have "r = Inr () \<and> healthy s2" if "healthy s" using that by auto
  with group show ?thesis using db2 by (auto simp: log_holds_def log_broken_def)
qed

lemma apply_txn_empty:
  assumes "txn_ok t a" and "wt_dirty t = []"
  shows "apply_txn t a = a"
proof -
  have "{pid. ad_count a \<le> raw pid \<and> raw pid < wt_page_count t} = {}" and le: "ad_count a \<le> wt_page_count t"
    using assms unfolding txn_ok_def by simp_all
  then have "\<not> (ad_count a \<le> raw (PageId (ad_count a)) \<and> raw (PageId (ad_count a)) < wt_page_count t)" by blast
  with le have "wt_page_count t = ad_count a" by simp
  with assms(2) show ?thesis by (simp add: apply_txn_def comp_def map_add_def)
qed

text \<open>A commit that fails while logging: nothing or everything has been committed.\<close>

lemma log_failure_recoverable:
  assumes inv: "db_inv p w db s a first rs" and a': "adb_ok a'" "log_ok (rs @ txn_records txn ws) a'"
    and fresh: "\<forall>r \<in> set rs. record_txn r \<noteq> txn" and len: "length (rs @ txn_records txn ws) < 2 ^ 64"
    and safe: "\<And>bs. safe (logged rs) a bs \<Longrightarrow> safe (logged (rs @ txn_records txn ws)) a' bs"
    and t: "touches w s s2" and g: "files s2 w = Some g" "flushing first rs (txn_records txn ws) g"
  shows "recoverable p w s2 {a, a'}"
proof -
  let ?qs = "txn_records txn ws"
  obtain f where f: "files s p = Some f" "survives (safe (logged rs) a) f" using inv by (rule db_inv_file)
  have b: "p \<noteq> w" "named s p" "named s w" "adb_ok a" "log_ok rs a" using inv by (simp_all add: db_inv_def)
  then have fp: "files s2 p = Some f" and n: "named s2 p" "named s2 w" using t f by (auto simp: touches_def)
  show ?thesis
  proof (rule recoverableI [OF b(1) n fp g(1) log_may_flushing [OF g(2)]])
    fix rs' assume "rs' \<in> range (\<lambda>k. rs @ take k ?qs)"
    then obtain k where k: "rs' = rs @ take k ?qs" by blast
    show "length rs' < 2 ^ 64 \<and> (\<exists>x \<in> {a, a'}. adb_ok x \<and> log_ok rs' x \<and> survives (safe (logged rs') x) f)"
    proof (cases "k < length ?qs")
      case True
      note part = redo_partial [OF fresh ballI [OF record_txn_records] take_txn_records [OF True]]
      have "length rs' < 2 ^ 64" using len k by simp
      with part b f show ?thesis by (auto simp: k)
    next
      case False
      then have "rs' = rs @ ?qs" by (simp add: k)
      moreover have "survives (safe (logged (rs @ ?qs)) a') f" by (rule survives_mono [OF f(2)]) (rule safe)
      ultimately show ?thesis using a' len by blast
    qed
  qed
qed

text \<open>The transaction ids in the log stay below the next one.\<close>

lemma commit_ids:
  assumes "\<forall>r \<in> set rs. committed_in rs (record_txn r) \<and> txn_raw (record_txn r) < n" and "unat n < 2 ^ 64 - 1"
    and "q \<in> set (rs @ txn_records (TxnId n) ws)"
  shows "committed_in (rs @ txn_records (TxnId n) ws) (record_txn q) \<and> txn_raw (record_txn q) < n + 1"
proof -
  have "unat (n + 1) = unat n + 1" using assms(2) by (simp add: unat_word_ariths)
  then have less: "x \<le> n \<Longrightarrow> x < n + 1" for x by (simp add: word_less_nat_alt word_le_nat_alt)
  show ?thesis
  proof (cases "q \<in> set rs")
    case True
    with assms(1) less show ?thesis by (auto simp: committed_in_append intro: less_imp_le)
  next
    case False
    with assms(3) have "record_txn q = TxnId n" by (auto simp: txn_records_def)
    moreover have "committed_in (rs @ txn_records (TxnId n) ws) (TxnId n)" by (simp add: committed_in_def txn_records_def)
    ultimately show ?thesis using less by simp
  qed
qed

text \<open>The part of \<^verbatim>\<open>commit\<close> from the transaction id to the end of \<^verbatim>\<open>log\<close>; it returns the images.\<close>

definition log_commit :: "write_txn \<Rightarrow> (page_id, page) btree_map \<Rightarrow> (database \<times> os, error, wal_record list) prog" where
  "log_commit t dirty ds =
     (case next_txn_id (fst ds) of (txn, db) \<Rightarrow>
      let grew = wt_page_count t > disk_page_count (db_disk db);
          imgs = commit_images txn grew (wt_page_count t) dirty
      in case on_wal (txn_log txn imgs) (db, snd ds) of
           (Inl err, ds) \<Rightarrow> (Inl err, ds)
         | (Inr _, ds) \<Rightarrow> (Inr imgs, ds))"

lemma commit_after_log:
  assumes "wt_dirty t \<noteq> []" and "seal_all (wt_dirty t) = Inr dirty" and "log_commit t dirty (db, s) = (r, (db1, s1))"
  shows "commit t (db, s) =
    (case r of Inl err \<Rightarrow> (Inl err, (poison db1, s1))
     | Inr imgs \<Rightarrow> (case publish (wt_page_count t) imgs (db1, s1) of
         (Inl err, (db, s)) \<Rightarrow> (Inl err, (poison db, s))
       | (Inr _, ds) \<Rightarrow> (Inr (), snd (maybe_auto_checkpoint ds))))"
  using assms by (auto simp: commit_def log_commit_def next_txn_id_def Let_def split: prod.splits sum.splits)

text \<open>The state in between: the log has the transaction, the cache and the page count do not.\<close>

definition txn_logged ::
    "path \<Rightarrow> path \<Rightarrow> write_txn \<Rightarrow> (page_id, page) btree_map \<Rightarrow> u64 \<Rightarrow> wal_record list \<Rightarrow> database \<Rightarrow> os \<Rightarrow> adb \<Rightarrow> bool" where
  "txn_logged p w t dirty first rs db s a \<longleftrightarrow>
     p \<noteq> w \<and> named s p \<and> named s w \<and> dk_file (db_disk db) = p \<and> dk_page_count (db_disk db) = ad_count a \<and>
     wal_file (db_wal db) = w \<and> wal_holds (db_wal db) s first rs [] \<and> length rs < 2 ^ 64 \<and>
     adb_ok a \<and> txn_ok t a \<and> seal_all (wt_dirty t) = Inr dirty \<and> fst ` set dirty \<subseteq> logged rs \<and>
     adb_ok (apply_txn t a) \<and> log_ok rs (apply_txn t a) \<and> \<not> unsure s p \<and> \<not> db_poisoned db \<and>
     (\<forall>r \<in> set rs. committed_in rs (record_txn r) \<and> txn_raw (record_txn r) < db_next_txn db) \<and>
     idle_pool (db_pool db) \<and>
     pool_inv (db_disk db) (safe (logged rs) (apply_txn t a)) (logged rs) (ad_pages a) (db_pool db, s)"

lemma txn_logged_recoverable:
  assumes "txn_logged p w t dirty first rs db s a"
  shows "recoverable p w s {apply_txn t a}"
proof -
  have b: "p \<noteq> w" "named s p" "named s w" "adb_ok (apply_txn t a)" "log_ok rs (apply_txn t a)" "length rs < 2 ^ 64"
    using assms by (simp_all add: txn_logged_def)
  have g: "files s w = Some (disk_file (wal_image first rs))" using assms by (auto simp: txn_logged_def wal_holds_def)
  obtain f where "files s p = Some f" "survives (safe (logged rs) (apply_txn t a)) f"
    using assms by (auto simp: txn_logged_def pool_inv_def file_inv_def)
  with b show ?thesis by (intro recoverableI [OF b(1-3) _ g log_may_synced]) auto
qed

text \<open>Logging a commit: on failure nothing or everything of it has been committed.\<close>

lemma log_commit_any:
  assumes inv: "db_inv p w db s a first rs" and ok: "txn_ok t a" and fits: "commit_fits t db"
    and seal: "seal_all (wt_dirty t) = Inr dirty" and run: "log_commit t dirty (db, s) = (r, (db2, s2))"
  shows "touches w s s2 \<and> (healthy s \<longrightarrow> is_ok r \<and> healthy s2) \<and> (\<forall>e. r = Inl e \<longrightarrow> recoverable p w s2 {a, apply_txn t a})
    \<and> (\<forall>imgs. r = Inr imgs \<longrightarrow> (\<exists>txn grew rs'. imgs = commit_images txn grew (wt_page_count t) dirty
         \<and> txn_logged p w t dirty first rs' db2 s2 a))"
proof -
  let ?txn = "TxnId (db_next_txn db)" and ?grew = "wt_page_count t > ad_count a"
  let ?ws = "txn_writes ?grew (wt_page_count t) dirty" and ?imgs = "commit_images ?txn ?grew (wt_page_count t) dirty"
  let ?rs = "rs @ txn_records ?txn ?ws" and ?db1 = "db\<lparr>db_next_txn := db_next_txn db + 1\<rparr>" and ?a = "apply_txn t a"
  have b: "p \<noteq> w" "adb_ok a" "log_ok rs a" "dk_page_count (db_disk db) = ad_count a" "dk_file (db_disk db) = p"
    and ids: "\<forall>r \<in> set rs. committed_in rs (record_txn r) \<and> txn_raw (record_txn r) < db_next_txn db"
    and pool: "pool_inv (db_disk db) (safe (logged rs) a) (logged rs) (ad_pages a) (db_pool db, s)"
    and len: "wal_durable_len (db_wal db) = length (wal_image first rs)"
    using inv by (simp_all add: db_inv_def wal_holds_def)
  have small: "unat (wt_page_count t) < 2 ^ 52" "unat (db_next_txn db) < 2 ^ 64 - 1" using fits by (simp_all add: commit_fits_def)
  have fresh: "\<forall>r \<in> set rs. record_txn r \<noteq> ?txn" using ids by force
  note a' = apply_txn_ok [OF b(2) ok seal small(1)]
  note lg = commit_log_ok [OF b(2,3) ok seal refl fresh small(1)]
  have "length (txn_records ?txn ?ws) \<le> length (wt_dirty t) + 2"
    using seal_all_Inr [OF seal] by (simp add: txn_records_def txn_writes_def)
  moreover have "length rs \<le> length (wal_image first rs)" using length_encode_all [of rs first] by (simp add: length_wal_image)
  ultimately have len': "length ?rs < 2 ^ 64" using fits len by (simp add: commit_fits_def)
  obtain r1 where lr: "on_wal (txn_log ?txn ?imgs) (?db1, s) = (r1, (db2, s2))" and r: "r = (case r1 of Inl e \<Rightarrow> Inl e | Inr _ \<Rightarrow> Inr ?imgs)"
    using run b(4) by (auto simp: log_commit_def next_txn_id_def disk_page_count_def Let_def split: prod.splits sum.splits)
  from log_step [OF inv _ lr] obtain wl where t2: "touches w s s2" and live: "healthy s \<longrightarrow> r1 = Inr () \<and> healthy s2"
    and db2: "db2 = ?db1\<lparr>db_wal := wl\<rparr>" "wal_file wl = w"
    and log: "r1 = Inr () \<and> wal_holds wl s2 first ?rs [] \<or> (\<exists>e. r1 = Inl e)
      \<and> (\<exists>g. files s2 w = Some g \<and> flushing first rs (txn_records ?txn ?ws) g)"
    by (auto simp: commit_images_writes)
  have "recoverable p w s2 {a, ?a}" if "r1 = Inl e" for e
    using log that log_failure_recoverable [OF inv a' lg(1) fresh len' lg(3) t2] by auto
  moreover have "txn_logged p w t dirty first ?rs db2 s2 a" if "r1 = Inr ()"
  proof -
    have p2: "files s2 p = files s p" "named s2 = named s" using t2 b(1) by (auto simp: touches_def)
    have "pool_inv (db_disk db) (safe (logged rs) a) (logged rs) (ad_pages a) (db_pool db, s2)"
      using pool p2 b(5) by (simp add: pool_inv_def file_inv_def)
    then have pool2: "pool_inv (db_disk db) (safe (logged ?rs) ?a) (logged ?rs) (ad_pages a) (db_pool db, s2)"
      by (rule pool_inv_weaken) (use lg(2,3) in auto)
    have "fst ` set dirty \<subseteq> logged ?rs" unfolding lg(2) by (auto simp: txn_writes_def)
    with pool2 inv p2 db2 that log ok seal a' lg(1) len' commit_ids [OF ids small(2), of _ ?ws] show ?thesis
      unfolding txn_logged_def db_inv_def by (auto simp: unsure_def)
  qed
  ultimately show ?thesis using t2 live r by (cases r1) auto
qed

text \<open>Publishing once the log has the transaction.\<close>

lemma publish_logged:
  assumes st: "txn_logged p w t dirty first rs db s a"
    and run: "publish (wt_page_count t) (commit_images txn grew (wt_page_count t) dirty) (db, s) = (r, (db', s'))"
  shows "touches p s s' \<and> recoverable p w s' {apply_txn t a} \<and> (healthy s \<longrightarrow> r = Inr () \<and> healthy s')
    \<and> (r = Inr () \<longrightarrow> db_inv p w db' s' (apply_txn t a) first rs)"
proof -
  let ?a = "apply_txn t a" and ?d = "(db_disk db)\<lparr>dk_page_count := wt_page_count t\<rparr>"
  have b: "p \<noteq> w" "named s p" "named s w" "adb_ok a" "dk_file (db_disk db) = p" "\<not> unsure s p"
    "dk_page_count (db_disk db) = ad_count a" "idle_pool (db_pool db)" "\<not> db_poisoned db" "wal_file (db_wal db) = w"
    and a': "adb_ok ?a" "log_ok rs ?a" "length rs < 2 ^ 64" and ok: "txn_ok t a" "seal_all (wt_dirty t) = Inr dirty" "fst ` set dirty \<subseteq> logged rs"
    and pool: "pool_inv (db_disk db) (safe (logged rs) ?a) (logged rs) (ad_pages a) (db_pool db, s)"
    and holds: "wal_holds (db_wal db) s first rs []"
    and ids: "\<forall>r \<in> set rs. committed_in rs (record_txn r) \<and> txn_raw (record_txn r) < db_next_txn db"
    using st by (simp_all add: txn_logged_def)
  have "cache_ctx ?d (safe (logged rs) ?a) (logged rs) (ad_pages ?a)"
    by (rule safe_cache_ctx [OF a'(1,2)]) (simp add: apply_txn_def)
  from publish_any [OF b(4) a'(1) ok b(7) refl b(8) pool this run]
  obtain pool' C where k: "keeps p s s'" and live: "healthy s \<longrightarrow> r = Inr () \<and> healthy s'"
    and db': "db' = db\<lparr>db_disk := ?d, db_pool := pool'\<rparr>" and idle: "idle_pool pool'"
    and pool': "pool_inv ?d (safe (logged rs) ?a) (logged rs) C (pool', s')" and C: "r = Inr () \<longrightarrow> C = ad_pages ?a"
    using b(5) by auto
  have t: "touches p s s'" using k by (simp add: keeps_def)
  have n: "files s' w = files s w" "named s' = named s" using t b(1) by (auto simp: touches_def)
  have wal: "wal_holds (db_wal db) s' first rs []" using holds n b(10) by (simp add: wal_holds_def)
  obtain f where f: "files s' p = Some f" "survives (safe (logged rs) ?a) f"
    using pool' b(5) by (auto simp: pool_inv_def file_inv_def)
  have g: "files s' w = Some (disk_file (wal_image first rs))" using wal b(10) by (simp add: wal_holds_def)
  have rec: "recoverable p w s' {?a}"
    by (rule recoverableI [OF b(1) _ _ f(1) g log_may_synced]) (use b(2,3) n a' f(2) in auto)
  have "\<not> unsure s' p" using k b(6) by (auto simp: keeps_def)
  then have "db_inv p w db' s' ?a first rs" if "r = Inr ()"
    using that C pool' idle wal a' b n db' ids unfolding db_inv_def by (simp add: apply_txn_def)
  with t rec live show ?thesis by blast
qed

lemma commit_any:
  assumes inv: "db_inv p w db s a first rs" and ok: "txn_ok t a" and fits: "commit_fits t db" and whole: "whole_headers s"
    and run: "commit t (db, s) = (r, (db', s'))"
  shows "set (script s') \<subseteq> set (script s) \<and> (\<exists>A \<subseteq> {a, apply_txn t a}. db_safe p w db' s' A)
    \<and> (r = Inr () \<longrightarrow> db_safe p w db' s' {apply_txn t a})
    \<and> (healthy s \<longrightarrow> seal_all (wt_dirty t) = Inr dirty \<longrightarrow>
         r = Inr () \<and> healthy s' \<and> (\<exists>first rs. db_inv p w db' s' (apply_txn t a) first rs))"
proof (cases "wt_dirty t = []")
  case True
  with run have "r = Inr ()" "db' = db" "s' = s" by (simp_all add: commit_def)
  with inv db_inv_safe [OF inv] apply_txn_empty [OF ok True] show ?thesis by auto
next
  case False
  show ?thesis
  proof (cases "seal_all (wt_dirty t)")
    case (Inl e)
    with False run have "r = Inl e" "db' = db" "s' = s" by (simp_all add: commit_def)
    with db_inv_safe [OF inv] Inl show ?thesis by auto
  next
    case seal: (Inr dirty)
    obtain r1 db2 s2 where lr: "log_commit t dirty (db, s) = (r1, (db2, s2))" by (metis surj_pair)
    note L = log_commit_any [OF inv ok fits seal lr] and cm = commit_after_log [OF False seal lr]
    then have t2: "touches w s s2" by blast
    show ?thesis
    proof (cases r1)
      case (Inl e)
      then have "r = Inl e" "db' = poison db2" "s' = s2" using run cm by auto
      with L Inl t2 show ?thesis by (auto simp: db_safe_def poison_def touches_script)
    next
      case r1: (Inr imgs)
      then obtain txn grew rs' where imgs: "imgs = commit_images txn grew (wt_page_count t) dirty"
        and lg: "txn_logged p w t dirty first rs' db2 s2 a" using L by blast
      obtain r3 db3 s3 where pb: "publish (wt_page_count t) imgs (db2, s2) = (r3, (db3, s3))" by (metis surj_pair)
      note P = publish_logged [OF lg pb [unfolded imgs]]
      then have scr: "set (script s3) \<subseteq> set (script s)" using t2 touches_script by blast
      show ?thesis
      proof (cases r3)
        case (Inl e)
        then have "r = Inl e" "db' = poison db3" "s' = s3" using run cm r1 pb by auto
        with P L scr Inl r1 show ?thesis by (auto simp: db_safe_def poison_def)
      next
        case (Inr u3)
        obtain r4 db4 s4 where ck: "maybe_auto_checkpoint (db3, s3) = (r4, (db4, s4))" by (metis surj_pair)
        then have res: "r = Inr ()" "db' = db4" "s' = s4" using run cm r1 pb Inr by auto
        have inv3: "db_inv p w db3 s3 (apply_txn t a) first rs'" using P Inr by simp
        from maybe_auto_checkpoint_any [OF inv3 whole_headers_mono [OF scr whole] ck] res scr L P show ?thesis by auto
      qed
    qed
  qed
qed

end
