(* ===== verification/Db_Open.thy ===== *)
theory Db_Open
  imports Db_Commit
begin

text \<open>
  Opening a database after a power loss, whatever the system does meanwhile: the contents are not lost,
  and a handle that is returned shows them.
\<close>

section \<open>Reading calls\<close>

lemma io_read_any:
  assumes "io_read q s = (r, s')"
  shows "files s' = files s" and "named s' = named s" and "set (script s') \<subseteq> set (script s)" and "r = Inr x \<Longrightarrow> q s' = Inr x"
proof -
  show "files s' = files s" "named s' = named s" using io_read_same [OF assms] by (simp_all add: same_disk_def)
  show "set (script s') \<subseteq> set (script s)" by (rule io_read_script [OF assms])
  show "q s' = Inr x" if "r = Inr x" using io_read_Inr [of q s x s'] assms that by auto
qed

lemma looks_touches:
  "files s' = files s \<Longrightarrow> named s' = named s \<Longrightarrow> set (script s') \<subseteq> set (script s) \<Longrightarrow> touches p s s'"
  by (simp add: touches_def)

text \<open>Only looked at: no file has changed.\<close>

definition looked :: "os \<Rightarrow> os \<Rightarrow> bool" where
  "looked s s' \<longleftrightarrow> files s' = files s \<and> named s' = named s \<and> set (script s') \<subseteq> set (script s)"

lemma looked_refl [simp, intro]: "looked s s"
  by (simp add: looked_def)

lemma looked_trans: "looked s t \<Longrightarrow> looked t u \<Longrightarrow> looked s u"
  by (auto simp: looked_def)

lemma io_read_looked: "io_read q s = (r, s') \<Longrightarrow> looked s s'"
  using io_read_any(1,2,3) [of q s r s'] by (simp add: looked_def)

lemma try_read_any:
  assumes "try_io (io_read q) s = (r, s')"
  shows "looked s s'" and "r = Inr x \<Longrightarrow> q s' = Inr x"
proof -
  obtain r1 where rd: "io_read q s = (r1, s')" and r: "r = Inr x \<Longrightarrow> r1 = Inr x" for x
    using assms by (cases "io_read q s") (auto simp: try_io_def split: sum.splits)
  show "looked s s'" by (rule io_read_looked [OF rd])
  show "q s' = Inr x" if "r = Inr x" by (rule io_read_any(4) [OF rd r [OF that]])
qed

lemma path_exists_any:
  assumes "path_exists p s = (b, s')"
  shows "looked s s'" and "b \<Longrightarrow> files s p \<noteq> None"
proof -
  obtain r where rd: "io_read (\<lambda>s. Inr (files s p \<noteq> None)) s = (r, s')" and b: "b \<longleftrightarrow> r = Inr True"
    using assms by (auto simp: path_exists_def split: prod.splits sum.splits)
  show "looked s s'" by (rule io_read_looked [OF rd])
  show "files s p \<noteq> None" if b using io_read_any(1,4) [OF rd] that b by auto
qed

lemma disk_open_any:
  assumes "disk_open p s = (r, s')"
  shows "looked s s'"
    and "r = Inr d \<Longrightarrow> files s p = Some f \<Longrightarrow> file_page 0 (contents f) = as_bytes (encode_file_header h) \<Longrightarrow>
      fh_page_count h \<noteq> 0 \<Longrightarrow> d = \<lparr>dk_file = p, dk_page_count = fh_page_count h\<rparr>"
proof -
  obtain r1 s1 where o1: "try_io (open_file p) s = (r1, s1)" by fastforce
  obtain r2 s2 where o2: "try_io (metadata_len p) s1 = (r2, s2)" by fastforce
  obtain r3 s3 where o3: "try_io (read_exact_at p (unat (file_offset HEADER)) PAGE_SIZE) s2 = (r3, s3)" by fastforce
  note l1 = try_read_any(1) [OF o1 [unfolded open_file_def]]
  note l2 = looked_trans [OF l1 try_read_any(1) [OF o2 [unfolded metadata_len_def]]]
  note l3 = looked_trans [OF l2 try_read_any(1) [OF o3 [unfolded read_exact_at_def]]]
  have cases: "s' = s1 \<and> (\<exists>e. r1 = Inl e) \<or> s' = s2 \<and> (\<exists>u. r1 = Inr u) \<or> s' = s3 \<and> (\<exists>u. r1 = Inr u)"
    using assms o1 o2 o3 by (auto simp: disk_open_def and_then_def throw_def lift_res_def ok_def Let_def split: sum.splits if_splits)
  with l1 l2 l3 show "looked s s'" by auto
  assume r: "r = Inr d" and f: "files s p = Some f" and hdr: "file_page 0 (contents f) = as_bytes (encode_file_header h)"
    and n: "fh_page_count h \<noteq> 0"
  from r assms o1 o2 o3 obtain bytes h' where r3: "r3 = Inr bytes" and h': "decode_file_header (as_bytes_mut bytes zeroed) = Inr h'"
    and d: "d = \<lparr>dk_file = p, dk_page_count = fh_page_count h'\<rparr>"
    by (auto simp: disk_open_def and_then_def throw_def lift_res_def ok_def Let_def split: sum.splits if_splits)
  have "files s3 p = Some f" using l3 f by (simp add: looked_def)
  with try_read_any(2) [OF o3 [unfolded read_exact_at_def] r3] have "bytes = file_page 0 (contents f)"
    by (auto simp: file_page_def split: if_splits)
  then have "as_bytes_mut bytes zeroed = encode_file_header h" using hdr by (simp add: page_eqI as_bytes_mut_all)
  with h' n d show "d = \<lparr>dk_file = p, dk_page_count = fh_page_count h\<rparr>" by (simp add: decode_encode)
qed

section \<open>Opening the log, whatever the system does\<close>

text \<open>Cutting off the tail of a log file does not change what it reads as.\<close>

definition cutting :: "u64 \<Rightarrow> wal_record list \<Rightarrow> bytes \<Rightarrow> os_file \<Rightarrow> bool" where
  "cutting first rs t g \<longleftrightarrow> f_base g = wal_image first rs @ t \<and> f_ops g \<in> {[], [Set_Len (length (wal_image first rs))]}"

lemma log_may_cutting:
  assumes "cutting first rs t g" and "no_record (first + of_nat (length rs)) t"
  shows "log_may g {rs}"
  unfolding log_may_def
proof (intro allI impI)
  fix bs assume "persists (f_base g) (f_ops g) bs"
  with assms(1) have "bs = wal_image first rs @ t \<or> bs = wal_image first rs @ []"
    by (auto simp: cutting_def persists_simps set_len_bytes_truncate)
  with assms(2) no_record_Nil show "\<exists>first rs' t. bs = wal_image first rs' @ t \<and> no_record (first + of_nat (length rs')) t \<and> rs' \<in> {rs}"
    by blast
qed

lemma cut_calls_any:
  assumes "and_then (try_io (set_file_len p n)) (\<lambda>_. try_io (sync_all p)) s = (r, s')"
    and f: "files s p = Some (disk_file (wal_image first rs @ t))" and n: "n = length (wal_image first rs)"
  shows "touches p s s' \<and> (\<exists>g. files s' p = Some g
    \<and> (r = Inr () \<and> g = disk_file (wal_image first rs) \<or> (\<exists>e. r = Inl e) \<and> cutting first rs t g))"
proof -
  let ?f = "disk_file (wal_image first rs @ t)"
  obtain r1 s1 where sl: "set_file_len p n s = (r1, s1)" by fastforce
  show ?thesis
    using sl [unfolded set_file_len_def] f
  proof (cases rule: io_write_cases)
    case (1 g)
    have cut: "cutting first rs t ?f" "cutting first rs t (add_op (Set_Len n) ?f)"
      by (simp_all add: cutting_def add_op_def disk_file_def n)
    show ?thesis
    proof (cases r1)
      case (Inl e)
      then have "r = Inl (Io e)" "s' = s1" using assms(1) sl by (auto simp: prog_simps)
      with 1 Inl cut show ?thesis by (auto simp: touches_def)
    next
      case (Inr u)
      then have g: "files s1 p = Some (add_op (Set_Len n) ?f)" using 1 by auto
      obtain r2 s2 where sy: "sync_all p s1 = (r2, s2)" by fastforce
      have s': "s' = s2" "r = (case r2 of Inl e \<Rightarrow> Inl (Io e) | Inr u \<Rightarrow> Inr u)"
        using assms(1) sl sy Inr by (auto simp: prog_simps try_io_def from_io_error_def split: sum.splits)
      show ?thesis
        using sy [unfolded sync_all_def] g
      proof (cases rule: io_write_cases)
        case (1 g2)
        have "sync_file (add_op (Set_Len n) ?f) = disk_file (wal_image first rs)"
          by (simp add: sync_file_eq set_len_bytes_truncate n)
        moreover have "cutting first rs t (add_op (Set_Len n) ?f\<lparr>f_unsure := True\<rparr>)" using cut(2) by (simp add: cutting_def)
        moreover have "touches p s s2" using 1(1-3) \<open>files s1 = (files s)(p \<mapsto> g)\<close> \<open>named s1 = named s\<close>
            \<open>set (script s1) \<subseteq> set (script s)\<close> by (auto simp: touches_def)
        ultimately show ?thesis using 1 cut(2) s' by auto
      qed
    qed
  qed
qed

lemma wal_open_any:
  assumes run: "wal_open p s = (r, s')" and f: "files s p = Some (disk_file (wal_image first rs @ t))"
    and t: "no_record (first + of_nat (length rs)) t"
  shows "touches p s s' \<and> (\<exists>g. files s' p = Some g \<and> log_may g {rs})
    \<and> (\<forall>opened. r = Inr opened \<longrightarrow> ow_records opened = numbered first rs \<and> wal_file (ow_wal opened) = p
         \<and> wal_holds (ow_wal opened) s' first rs [])"
proof -
  let ?bs = "wal_image first rs @ t" and ?len = "length (wal_image first rs)"
  obtain r1 s1 where o1: "try_io (open_file p) s = (r1, s1)" by fastforce
  obtain r2 s2 where o2: "try_io (read_to_end p) s1 = (r2, s2)" by fastforce
  note l1 = try_read_any(1) [OF o1 [unfolded open_file_def]]
  note l2 = looked_trans [OF l1 try_read_any(1) [OF o2 [unfolded read_to_end_def]]]
  have may: "log_may (disk_file ?bs) {rs}" by (rule log_may_cutting [OF _ t]) (simp add: cutting_def disk_file_def)
  have stay: "touches p s u \<and> (\<exists>g. files u p = Some g \<and> log_may g {rs})" if "looked s u" for u
    using that f may by (simp add: looked_def touches_def)
  obtain why where why: "read_records ?bs 24 first = (numbered first rs, ?len, first + of_nat (length rs), why)"
    "why = None \<longleftrightarrow> t = []"
    using read_records_longest [OF t, of "wal_encode_header first"] by (auto simp: wal_image_def)
  have hd: "wal_decode_header ?bs = Inr first" by (simp add: wal_image_def wal_decode_encode_header)
  show ?thesis
  proof (cases "r1 = Inr () \<and> (\<exists>bs. r2 = Inr bs)")
    case False
    then have "(s' = s1 \<or> s' = s2) \<and> (\<exists>e. r = Inl e)"
      using run o1 o2 by (cases r1; cases r2) (auto simp: wal_open_def and_then_def)
    with stay l1 l2 show ?thesis by auto
  next
    case True
    then obtain bs where r: "r1 = Inr ()" "r2 = Inr bs" by blast
    have f2: "files s2 p = Some (disk_file ?bs)" using l2 f by (simp add: looked_def)
    with try_read_any(2) [OF o2 [unfolded read_to_end_def] r(2)] have bs: "bs = ?bs" by simp
    let ?w = "\<lparr>wal_file = p, wal_durable_len = ?len, wal_pending = [], wal_next_seq = first + of_nat (length rs), wal_poisoned = False\<rparr>"
    obtain r3 where last: "(if t \<noteq> [] then and_then (try_io (set_file_len p ?len)) (\<lambda>_. try_io (sync_all p)) else ok ()) s2 = (r3, s')"
      and rr: "r = (case r3 of Inl e \<Rightarrow> Inl e | Inr _ \<Rightarrow> Inr \<lparr>ow_wal = ?w, ow_records = numbered first rs,
        ow_discarded = map_option (\<lambda>reason. \<lparr>dt_bytes = length ?bs - ?len, dt_reason = reason\<rparr>) why\<rparr>)"
      using run o1 o2 r bs hd why
      by (auto simp: wal_open_def and_then_def lift_res_def ok_def Let_def split: sum.splits prod.splits if_splits)
    show ?thesis
    proof (cases "t = []")
      case True
      then have "s' = s2" using last by (simp add: ok_def)
      with True stay [OF l2] rr f2 show ?thesis by (auto simp: wal_holds_def split: sum.splits)
    next
      case False
      with last have "and_then (try_io (set_file_len p ?len)) (\<lambda>_. try_io (sync_all p)) s2 = (r3, s')" by simp
      from cut_calls_any [OF this f2 refl] obtain g where t2: "touches p s2 s'" and g: "files s' p = Some g"
        "r3 = Inr () \<and> g = disk_file (wal_image first rs) \<or> (\<exists>e. r3 = Inl e) \<and> cutting first rs t g" by blast
      have "touches p s s2" using l2 by (simp add: looked_def touches_def)
      with t2 have ts: "touches p s s'" by (rule touches_trans [rotated])
      have "log_may g {rs}" using g(2) log_may_synced log_may_cutting [OF _ t] by blast
      with ts g rr show ?thesis by (auto simp: wal_holds_def)
    qed
  qed
qed

section \<open>Recovery\<close>

text \<open>The files of a closed database with contents \<open>a\<close>, all of it on the disk.\<close>

definition settled :: "path \<Rightarrow> path \<Rightarrow> os \<Rightarrow> adb \<Rightarrow> bool" where
  "settled p w s a \<longleftrightarrow> p \<noteq> w \<and> named s p \<and> named s w \<and> adb_ok a \<and>
     (\<exists>bs first rs t. files s p = Some (disk_file bs) \<and> files s w = Some (disk_file (wal_image first rs @ t)) \<and>
        no_record (first + of_nat (length rs)) t \<and> length rs < 2 ^ 64 \<and> log_ok rs a \<and> safe (logged rs) a bs)"

text \<open>The checksums detect every tear that the power loss has left in the log.\<close>

definition tears_found :: "path \<Rightarrow> os \<Rightarrow> os \<Rightarrow> bool" where
  "tears_found w s c \<longleftrightarrow> (\<forall>f g. files s w = Some f \<longrightarrow> files c w = Some g \<longrightarrow> crash_detected f (contents g))"

lemma crash_settles:
  assumes rec: "recoverable p w s A" and crash: "crash_os s c" and det: "tears_found w s c"
  shows "\<exists>a \<in> A. settled p w c a"
proof -
  obtain f g R where b: "p \<noteq> w" "named s p" "named s w" and f: "files s p = Some f" and g: "files s w = Some g"
    and may: "log_may g R"
    and all: "\<And>rs. rs \<in> R \<Longrightarrow> length rs < 2 ^ 64 \<and> (\<exists>a \<in> A. adb_ok a \<and> log_ok rs a \<and> survives (safe (logged rs) a) f)"
    using rec unfolding recoverable_def by blast
  obtain bs where bs: "files c p = Some (disk_file bs)" "persists (f_base f) (f_ops f) bs"
    using crash_os_file [OF crash b(2) f] .
  obtain ws where ws: "files c w = Some (disk_file ws)" "persists (f_base g) (f_ops g) ws"
    using crash_os_file [OF crash b(3) g] .
  have "crash_detected g ws" using det g ws(1) by (simp add: tears_found_def)
  then obtain first rs t where img: "ws = wal_image first rs @ t" "no_record (first + of_nat (length rs)) t" "rs \<in> R"
    using may ws(2) unfolding log_may_def by blast
  from all [OF img(3)] obtain a where a: "length rs < 2 ^ 64" "a \<in> A" "adb_ok a" "log_ok rs a" "survives (safe (logged rs) a) f"
    by blast
  then have "safe (logged rs) a bs" using bs(2) by (simp add: survives_def)
  moreover have "named c p" "named c w" using crash bs(1) ws(1) by (simp_all add: crash_os_def)
  ultimately show ?thesis using a img bs(1) ws(1) b(1) unfolding settled_def by blast
qed

text \<open>After a replay the data file alone has everything.\<close>

lemma redo_bytes_safe:
  assumes "adb_ok a" and "log_ok rs a" and "safe (logged rs) a bs"
  shows "safe {} a (redo_bytes (latest rs) bs)"
  unfolding safe_def
proof (intro allI impI)
  fix pid x assume x: "full a pid = Some x"
  have nw: "\<forall>pid \<in> dom (redo rs). no_wrap pid" using logged_no_wrap [OF assms(1,2)] by blast
  show "page_at (unat (raw pid)) x (redo_bytes (latest rs) bs)"
  proof (cases "redo rs pid")
    case None
    then have "page_at (unat (raw pid)) x bs" using x assms(3) by (auto simp: safe_def)
    then show ?thesis by (rule redo_bytes_latest(2) [OF nw None])
  next
    case (Some q)
    then have "full a pid = Some q" using assms(2) unfolding log_ok_def map_le_def by (metis domI)
    with x redo_bytes_latest(1) [OF nw Some] show ?thesis by simp
  qed
qed

lemma replay_closed:
  assumes "adb_ok a" and "log_ok rs a"
  shows "\<forall>(pid, page) \<in> set (latest rs). write_closed (safe (logged rs) a) (unat (file_offset pid)) (as_bytes page)"
proof
  fix x assume x: "x \<in> set (latest rs)"
  obtain pid page where xp: "x = (pid, page)" by (cases x)
  then have D: "pid \<in> logged rs" using x map_of_latest [of rs] by (metis dom_map_of_conv_image_fst fst_conv image_eqI)
  have "write_closed (safe (logged rs) a) (unat (file_offset pid)) (as_bytes page)"
    by (rule safe_closed [OF logged_no_wrap [OF assms D] disjI1 [OF D]])
  with xp show "case x of (pid, page) \<Rightarrow> write_closed (safe (logged rs) a) (unat (file_offset pid)) (as_bytes page)" by simp
qed

lemma replay_step:
  assumes "adb_ok a" and "log_ok rs a" and "files s p = Some (disk_file bs)" and "safe (logged rs) a bs"
    and "replay p (numbered first rs) s = (r, s')"
  shows "touches p s s' \<and> (\<exists>g. files s' p = Some g \<and> survives (safe (logged rs) a) g
    \<and> (\<forall>st. r = Inr st \<longrightarrow> g = disk_file (contents g) \<and> safe {} a (contents g)))"
proof -
  have sv: "survives (safe (logged rs) a) (disk_file bs)" using assms(4) by (simp add: survives_synced)
  from replay_any [OF assms(5,3) sv] replay_closed [OF assms(1,2)]
  obtain g where g: "files s' = (files s)(p \<mapsto> g)" "named s' = named s" "set (script s') \<subseteq> set (script s)"
    "survives (safe (logged rs) a) g"
    "\<And>st. r = Inr st \<Longrightarrow> contents g = redo_bytes (latest rs) bs
       \<and> (if latest rs = [] then g = disk_file bs else g = disk_file (redo_bytes (latest rs) bs))"
    by (auto split: if_splits)
  have "g = disk_file (contents g) \<and> safe {} a (contents g)" if "r = Inr st" for st
    using g(5) [OF that] redo_bytes_safe [OF assms(1,2,4)] by (auto split: if_splits)
  with g show ?thesis by (auto simp: touches_def)
qed

lemma adb_ok_count: "adb_ok a \<Longrightarrow> ad_count a \<noteq> 0"
  unfolding adb_ok_def by auto

lemma safe_header:
  assumes "safe {} a bs"
  shows "file_page 0 bs = as_bytes (encode_file_header \<lparr>fh_page_count = ad_count a\<rparr>)"
proof -
  have "page_at 0 (encode_file_header \<lparr>fh_page_count = ad_count a\<rparr>) bs"
    using assms unfolding safe_def full_def by (metis empty_iff fun_upd_same raw_HEADER unat_0)
  then show ?thesis by (simp add: page_at_def)
qed

lemma safe_length:
  assumes "adb_ok a" and "safe {} a bs"
  shows "unat (ad_count a) * 4096 \<le> length bs"
proof -
  let ?pid = "PageId (ad_count a - 1)"
  have pos: "0 < ad_count a" and dom: "dom (ad_pages a) = {pid. pid \<noteq> HEADER \<and> raw pid < ad_count a}"
    using assms(1) unfolding adb_ok_def by blast+
  then have u: "unat (ad_count a - 1) = unat (ad_count a) - 1" "0 < unat (ad_count a)"
    by (simp_all add: unat_minus_one word_greater_zero_iff unat_gt_0)
  then have "raw ?pid < ad_count a" by (simp add: word_less_nat_alt)
  then have "?pid = HEADER \<or> ?pid \<in> dom (ad_pages a)" unfolding dom by simp
  then obtain x where "full a ?pid = Some x" by (cases "?pid = HEADER") (auto simp: full_def)
  then have "page_at (unat (raw ?pid)) x bs" using assms(2) unfolding safe_def by blast
  then have "unat (raw ?pid) * 4096 + 4096 \<le> length bs" by (simp add: page_at_def)
  moreover have "unat (ad_count a) * 4096 = unat (raw ?pid) * 4096 + 4096" using u by (simp add: algebra_simps)
  ultimately show ?thesis by simp
qed

section \<open>A new handle\<close>

lemma fresh_pool:
  assumes "pool_new n = Inr pool" and "file_inv d P C (\<lambda>_. False) s"
  shows "pool_inv d P {} C (pool, s)" and "idle_pool pool"
proof -
  have n: "n \<noteq> 0" using assms(1) by (auto simp: pool_new_def split: if_splits)
  let ?m = "shard_count_for n"
  note m = shard_count [of n]
  have pool: "pool = map (\<lambda>i. shard_new (n div ?m + (if i < n mod ?m then 1 else 0))) [0..<?m]"
    using assms(1) n by (simp add: pool_new_def Let_def)
  have pos: "0 < n div ?m" using m n by (simp add: div_greater_zero_iff)
  have sh: "\<exists>k > 0. pool ! i = shard_new k" if "i < length pool" for i
    using that pos by (auto simp: pool)
  have new: "cached (shard_new k) pid = None" "map_of (sh_page_table (shard_new k)) pid = None" "idle (shard_new k)" for k pid
    by (auto simp: cached_def shard_new_def idle_def)
  have "\<not> dirty_at pool i pid" for i pid using sh [of i] new(1) by (auto simp: dirty_at_def dirty_in_def)
  then have "file_inv d P C (\<lambda>pid. \<exists>i. dirty_at pool i pid) s" using assms(2) by simp
  moreover have "shard_wf {} (pool ! i) \<and> frames_inv {} C (pool ! i) \<and> (\<forall>pid. map_of (sh_page_table (pool ! i)) pid \<noteq> None \<longrightarrow> shard_for pool pid = i)"
    if "i < length pool" for i
    using sh [OF that] shard_wf_new new by (auto simp: frames_inv_def)
  moreover have "pool \<noteq> []" using m n by (simp add: pool)
  ultimately show "pool_inv d P {} C (pool, s)" by (simp add: pool_inv_def)
  show "idle_pool pool" unfolding idle_pool_def using sh new(3) by metis
qed

text \<open>A handle over a data file that has everything and an empty log.\<close>

lemma assemble_inv:
  assumes "assemble d wl opts report = Inr db" and "p \<noteq> w" "named s p" "named s w" "adb_ok a"
    and "d = \<lparr>dk_file = p, dk_page_count = ad_count a\<rparr>" and "wal_file wl = w" "wal_holds wl s first [] []"
    and f: "files s p = Some f" "\<not> f_unsure f" and sv: "survives (safe {} a) f"
  shows "db_inv p w db s a first []"
proof -
  from assms(1) obtain pool where pool: "pool_new (op_buffer_pool_pages opts) = Inr pool"
    and db: "db = \<lparr>db_disk = d, db_pool = pool, db_auto_checkpoint_bytes = op_auto_checkpoint_bytes opts, db_wal = wl,
          db_next_txn = 1, db_poisoned = False, db_report = report\<rparr>"
    by (auto simp: assemble_def split: sum.splits)
  have "page_at (unat (raw pid)) x (contents f)" if "ad_pages a pid = Some x" for pid x
    using survives_contents [OF sv] that adb_ok_page(2) [OF assms(5) that] by (auto simp: safe_def full_def)
  then have "file_inv d (safe {} a) (ad_pages a) (\<lambda>_. False) s"
    unfolding file_inv_def using assms(6) f sv by auto
  note P = fresh_pool [OF pool this]
  have "\<not> unsure s p" using f by (simp add: unsure_def)
  with P assms show ?thesis by (simp add: db_inv_def db)
qed

section \<open>Opening a database, whatever the system does\<close>

lemma create_existing:
  assumes "create_new q s = (r, s')" and "files s q \<noteq> None"
  shows "looked s s' \<and> (\<exists>e. r = Inl e)"
proof -
  obtain x s1 where n: "next_outcome s = (x, s1)" by fastforce
  note same = next_outcome_same [OF n] next_outcome_script [OF n]
  with assms n show ?thesis
    by (cases x) (auto simp: create_new_def looked_def same_disk_def split: if_splits)
qed

lemma settled_recoverable:
  assumes "settled p w s a"
  shows "recoverable p w s {a}"
proof -
  obtain bs first rs t where b: "p \<noteq> w" "named s p" "named s w" "adb_ok a" "files s p = Some (disk_file bs)"
    "files s w = Some (disk_file (wal_image first rs @ t))" "no_record (first + of_nat (length rs)) t" "length rs < 2 ^ 64"
    "log_ok rs a" "safe (logged rs) a bs"
    using assms unfolding settled_def by blast
  have "log_may (disk_file (wal_image first rs @ t)) {rs}"
    by (rule log_may_cutting [OF _ b(7)]) (simp add: cutting_def disk_file_def)
  with b show ?thesis by (intro recoverableI [of p w s]) (auto simp: survives_synced)
qed

lemma settled_looked: "settled p w s a \<Longrightarrow> looked s s' \<Longrightarrow> settled p w s' a"
  unfolding settled_def looked_def by simp

lemma recoverable_looked: "recoverable p w s A \<Longrightarrow> looked s s' \<Longrightarrow> recoverable p w s' A"
  unfolding recoverable_def looked_def by simp

lemma looked_script: "looked s s' \<Longrightarrow> set (script s') \<subseteq> set (script s) \<and> named s' = named s"
  by (simp add: looked_def)

text \<open>The data file has everything: opening it, emptying the log and making the handle.\<close>

lemma finish_open_any:
  assumes b: "p \<noteq> w" "named s p" "named s w" "adb_ok a" "log_ok rs a" "length rs < 2 ^ 64"
    and wl: "wal_file wl = w" "wal_holds wl s first rs []" and whole: "whole_headers s"
    and f: "files s p = Some (disk_file bs)" "safe {} a bs"
    and run: "and_then (disk_open p) (\<lambda>disk s. case wal_reset (wl, s) of
        (Inl e, (w, s)) \<Rightarrow> (Inl e, s) | (Inr _, (w, s)) \<Rightarrow> lift_res (assemble disk w opts report) s) s = (r, s')"
  shows "set (script s') \<subseteq> set (script s) \<and> named s' = named s \<and> recoverable p w s' {a}
    \<and> (\<forall>db. r = Inr db \<longrightarrow> (\<exists>first. db_inv p w db s' a first []))"
proof -
  have gw: "files s w = Some (disk_file (wal_image first rs))" using wl by (simp add: wal_holds_def)
  have sv: "survives (safe {} a) (disk_file bs)" using f(2) by (simp add: survives_synced)
  have rec: "recoverable p w s {a}"
    by (rule recoverableI [OF b(1-3) f(1) gw log_may_synced])
      (use b survives_mono [OF sv safe_mono [of "{}"]] in auto)
  obtain r1 s1 where o: "disk_open p s = (r1, s1)" by fastforce
  note lk = disk_open_any(1) [OF o]
  show ?thesis
  proof (cases r1)
    case (Inl e)
    then have "r = Inl e" "s' = s1" using run o by (simp_all add: and_then_def)
    with recoverable_looked [OF rec lk] looked_script [OF lk] show ?thesis by simp
  next
    case (Inr d)
    have hdr: "file_page 0 (contents (disk_file bs)) = as_bytes (encode_file_header \<lparr>fh_page_count = ad_count a\<rparr>)"
      using safe_header [OF f(2)] by simp
    have d: "d = \<lparr>dk_file = p, dk_page_count = ad_count a\<rparr>"
      using disk_open_any(2) [OF o Inr f(1) hdr] adb_ok_count [OF b(4)] by simp
    have at1: "named s1 = named s" "files s1 = files s" "whole_headers s1"
      using lk whole_headers_mono [OF _ whole] by (simp_all add: looked_def)
    obtain r2 wl' s2 where rs: "wal_reset (wl, s1) = (r2, (wl', s2))" by (metis surj_pair)
    have "wal_holds wl s1 first rs []" using wl(2) at1 by (simp add: wal_holds_def)
    with b wl(1) at1 f(1) sv rs have R: "touches w s1 s2 \<and> wal_file wl' = w \<and> recoverable p w s2 {a}
        \<and> (r2 = Inr () \<longrightarrow> wal_holds wl' s2 (wal_next_seq wl) [] [])"
      by (intro reset_any [of p w s1]) simp_all
    have fp: "files s2 p = Some (disk_file bs)" "named s2 = named s" "set (script s2) \<subseteq> set (script s)"
      using R f(1) at1 b(1) lk by (auto simp: touches_def looked_def)
    have s': "s' = s2" using run o Inr rs by (auto simp: and_then_def lift_res_def split: sum.splits)
    have "\<exists>first. db_inv p w db s2 a first []" if "r = Inr db" for db
    proof -
      have "r2 = Inr ()" and as: "assemble d wl' opts report = Inr db"
        using that run o Inr rs by (auto simp: and_then_def lift_res_def split: sum.splits)
      with R have h: "wal_file wl' = w" "wal_holds wl' s2 (wal_next_seq wl) [] []" by simp_all
      show ?thesis
        by (rule exI, rule assemble_inv [OF as b(1) _ _ b(4) d h fp(1) _ sv]) (use b fp(2) in simp_all)
    qed
    with R fp s' show ?thesis by simp
  qed
qed

lemma open_existing_any:
  assumes set: "settled p w s a" and whole: "whole_headers s" and run: "open_existing p w opts s = (r, s')"
  shows "set (script s') \<subseteq> set (script s) \<and> named s' = named s \<and> recoverable p w s' {a}
    \<and> (\<forall>db. r = Inr db \<longrightarrow> (\<exists>first. db_inv p w db s' a first []))"
proof -
  obtain b s1 where pe: "path_exists w s = (b, s1)" by fastforce
  note l1 = path_exists_any(1) [OF pe]
  note s1 = settled_looked [OF set l1]
  have unchanged: ?thesis if "looked s s'" "r = Inl e" for e
    using that settled_recoverable [OF settled_looked [OF set that(1)]] looked_script by auto
  obtain bs first rs t where b: "p \<noteq> w" "named s1 p" "named s1 w" "adb_ok a" "files s1 p = Some (disk_file bs)"
    "files s1 w = Some (disk_file (wal_image first rs @ t))" "no_record (first + of_nat (length rs)) t" "length rs < 2 ^ 64"
    "log_ok rs a" "safe (logged rs) a bs"
    using s1 unfolding settled_def by blast
  show ?thesis
  proof (cases b)
    case False
    obtain r2 s2 where o: "disk_open p s1 = (r2, s2)" by fastforce
    note l2 = looked_trans [OF l1 disk_open_any(1) [OF o]]
    obtain r3 s3 where c: "create_new w s2 = (r3, s3)" by fastforce
    have "files s2 w \<noteq> None" using disk_open_any(1) [OF o] b(6) by (simp add: looked_def)
    from create_existing [OF c this] obtain e where c3: "looked s2 s3" "r3 = Inl e" by blast
    have "s' = s2 \<and> (\<exists>e. r = Inl e) \<or> s' = s3 \<and> (\<exists>e. r = Inl e)"
      using run pe False o c c3(2) by (cases r2) (auto simp: open_existing_def wal_create_def and_then_def try_io_Inl)
    with unchanged l2 looked_trans [OF l2 c3(1)] show ?thesis by blast
  next
    case True
    obtain r2 s2 where o: "wal_open w s1 = (r2, s2)" by fastforce
    from wal_open_any [OF o b(6,7)] obtain g where t2: "touches w s1 s2" and g: "files s2 w = Some g" "log_may g {rs}"
      and op: "\<And>opened. r2 = Inr opened \<Longrightarrow> ow_records opened = numbered first rs \<and> wal_file (ow_wal opened) = w
         \<and> wal_holds (ow_wal opened) s2 first rs []" by blast
    have p2: "files s2 p = Some (disk_file bs)" "named s2 = named s" "set (script s2) \<subseteq> set (script s)"
      using t2 b l1 by (auto simp: touches_def looked_def)
    have n: "named s p" "named s w" using b(2,3) l1 by (simp_all add: looked_def)
    show ?thesis
    proof (cases r2)
      case (Inl e)
      then have "r = Inl e" "s' = s2" using run pe True o by (simp_all add: open_existing_def and_then_def)
      moreover have "recoverable p w s2 {a}"
        by (rule recoverableI [OF b(1) _ _ p2(1) g]) (use b p2 n in \<open>auto simp: survives_synced\<close>)
      ultimately show ?thesis using p2 by simp
    next
      case (Inr opened)
      note op = op [OF this]
      obtain r3 s3 where rp: "replay p (numbered first rs) s2 = (r3, s3)" by fastforce
      from replay_step [OF b(4,9) p2(1) b(10) rp] obtain f where t3: "touches p s2 s3" and f: "files s3 p = Some f"
        "survives (safe (logged rs) a) f" "\<And>st. r3 = Inr st \<Longrightarrow> f = disk_file (contents f) \<and> safe {} a (contents f)" by blast
      have p3: "files s3 w = files s2 w" "named s3 = named s" "set (script s3) \<subseteq> set (script s)"
        using t3 p2 b(1) by (auto simp: touches_def)
      show ?thesis
      proof (cases r3)
        case (Inl e)
        then have "r = Inl e" "s' = s3" using run pe True o Inr rp op by (simp_all add: open_existing_def and_then_def)
        moreover have "recoverable p w s3 {a}"
          by (rule recoverableI [OF b(1) _ _ f(1) _ g(2)]) (use b p3 n f g(1) in auto)
        ultimately show ?thesis using p3 by simp
      next
        case st: (Inr st)
        have full: "f = disk_file (contents f)" "safe {} a (contents f)" using f(3) st by auto
        have wl: "wal_file (ow_wal opened) = w" "wal_holds (ow_wal opened) s3 first rs []"
          using op p3(1) by (auto simp: wal_holds_def)
        have rest: "and_then (disk_open p) (\<lambda>disk s. case wal_reset (ow_wal opened, s) of
            (Inl e, (w, s)) \<Rightarrow> (Inl e, s) | (Inr _, (w, s)) \<Rightarrow> lift_res (assemble disk w opts
              \<lparr>or_created = False, or_recovery = st, or_discarded_wal_tail = ow_discarded opened\<rparr>) s) s3 = (r, s')"
          using run pe True o Inr rp op st by (simp add: open_existing_def and_then_def)
        have "set (script s') \<subseteq> set (script s3) \<and> named s' = named s3 \<and> recoverable p w s' {a}
            \<and> (\<forall>db. r = Inr db \<longrightarrow> (\<exists>first. db_inv p w db s' a first []))"
          by (rule finish_open_any [OF b(1) _ _ b(4,9,8) wl _ _ full(2) rest])
            (use n p3 whole_headers_mono [OF _ whole] f(1) full(1) in simp_all)
        with p3 show ?thesis by auto
      qed
    qed
  qed
qed

section \<open>Opening on a system without faults\<close>

text \<open>
  The files of a database that no process has open: after a power loss, or after the process has been
  killed, when writes may still be pending.
\<close>

definition at_rest :: "path \<Rightarrow> path \<Rightarrow> os \<Rightarrow> adb \<Rightarrow> bool" where
  "at_rest p w s a \<longleftrightarrow> p \<noteq> w \<and> named s p \<and> named s w \<and> adb_ok a \<and>
     (\<exists>f g first rs t. files s p = Some f \<and> \<not> f_unsure f \<and> files s w = Some g \<and> \<not> f_unsure g \<and>
        contents g = wal_image first rs @ t \<and> no_record (first + of_nat (length rs)) t \<and>
        log_ok rs a \<and> survives (safe (logged rs) a) f)"

lemma settled_at_rest: "settled p w s a \<Longrightarrow> at_rest p w s a"
  unfolding settled_def at_rest_def by (force simp: survives_synced)

text \<open>What the process that was killed last may have made of the contents.\<close>

lemma recoverable_at_rest:
  assumes "recoverable p w s A" and "\<not> unsure s p" and "\<not> unsure s w"
  shows "\<exists>a \<in> A. at_rest p w s a"
proof -
  obtain f g R where b: "p \<noteq> w" "named s p" "named s w" and f: "files s p = Some f" and g: "files s w = Some g"
    and may: "log_may g R"
    and all: "\<And>rs. rs \<in> R \<Longrightarrow> length rs < 2 ^ 64 \<and> (\<exists>a \<in> A. adb_ok a \<and> log_ok rs a \<and> survives (safe (logged rs) a) f)"
    using assms(1) unfolding recoverable_def by blast
  have "persists (f_base g) (f_ops g) (contents g)" by (simp add: contents_def persists_apply)
  then obtain first rs t where img: "contents g = wal_image first rs @ t" "no_record (first + of_nat (length rs)) t" "rs \<in> R"
    using may unfolding log_may_def by blast
  from all [OF img(3)] obtain a where a: "a \<in> A" "adb_ok a" "log_ok rs a" "survives (safe (logged rs) a) f" by blast
  have "\<not> f_unsure f" "\<not> f_unsure g" using assms(2,3) f g by (simp_all add: unsure_def)
  with a img b f g show ?thesis unfolding at_rest_def by blast
qed

lemma wal_reset_image:
  assumes "healthy s" and "files s (wal_file w) = Some g" and "\<not> f_unsure g" and "contents g = wal_image first rs"
    and "\<not> wal_poisoned w" and "wal_pending w = []"
  shows "wal_reset (w, s) = (Inr (), (w\<lparr>wal_durable_len := 24\<rparr>, with_file (wal_file w) (disk_file (wal_image (wal_next_seq w) [])) s))"
proof -
  have "sync_file (add_op (Write 0 (wal_encode_header (wal_next_seq w))) (add_op (Set_Len 24) g)) =
      disk_file (wal_image (wal_next_seq w) [])"
    using assms(3,4) by (simp add: sync_file_eq set_len_bytes_truncate length_wal_image write_header_image)
  with reset_calls_run [OF assms(1,2), of "wal_encode_header (wal_next_seq w)"] assms(5,6) show ?thesis
    by (simp add: wal_reset_def wal_check_poisoned_def)
qed

lemma wal_open_rest:
  assumes "healthy s" and "files s w = Some g" and "\<not> f_unsure g" and "contents g = wal_image first rs @ t"
    and "no_record (first + of_nat (length rs)) t"
  shows "\<exists>opened g'. wal_open w s = (Inr opened, with_file w g' s) \<and> ow_records opened = numbered first rs
    \<and> ow_wal opened = \<lparr>wal_file = w, wal_durable_len = length (wal_image first rs), wal_pending = [],
                       wal_next_seq = first + of_nat (length rs), wal_poisoned = False\<rparr>
    \<and> \<not> f_unsure g' \<and> contents g' = wal_image first rs"
proof -
  obtain why where run: "wal_open w s = (Inr \<lparr>ow_wal = \<lparr>wal_file = w, wal_durable_len = length (wal_image first rs), wal_pending = [],
                       wal_next_seq = first + of_nat (length rs), wal_poisoned = False\<rparr>,
           ow_records = numbered first rs,
           ow_discarded = (if t = [] then None else Some \<lparr>dt_bytes = length t, dt_reason = why\<rparr>)\<rparr>,
      if t = [] then s else with_file w (sync_file (add_op (Set_Len (length (wal_image first rs))) g)) s)"
    using wal_open_run [OF assms(1,2,4,5)] by blast
  let ?g = "if t = [] then g else sync_file (add_op (Set_Len (length (wal_image first rs))) g)"
  have "with_file w g s = s" using assms(2) by (simp add: with_file_def fun_upd_idem)
  then have st: "(if t = [] then s else with_file w (sync_file (add_op (Set_Len (length (wal_image first rs))) g)) s) =
      with_file w ?g s" by simp
  have "\<not> f_unsure ?g" "contents ?g = wal_image first rs" using assms(3,4) by (simp_all add: set_len_bytes_truncate)
  then show ?thesis unfolding run st by fastforce
qed

lemma open_existing_run:
  assumes up: "healthy s" and rest: "at_rest p w s a" and opts: "op_buffer_pool_pages opts \<noteq> 0"
  shows "\<exists>db s' first. open_existing p w opts s = (Inr db, s') \<and> healthy s' \<and> db_inv p w db s' a first []"
proof -
  obtain f g first rs t where b: "p \<noteq> w" "named s p" "named s w" "adb_ok a" and f: "files s p = Some f" "\<not> f_unsure f"
    and g: "files s w = Some g" "\<not> f_unsure g" "contents g = wal_image first rs @ t" "no_record (first + of_nat (length rs)) t"
    and l: "log_ok rs a" "survives (safe (logged rs) a) f"
    using rest unfolding at_rest_def by blast
  obtain opened g' where o: "wal_open w s = (Inr opened, with_file w g' s)" "ow_records opened = numbered first rs"
    and w: "ow_wal opened = \<lparr>wal_file = w, wal_durable_len = length (wal_image first rs), wal_pending = [],
                       wal_next_seq = first + of_nat (length rs), wal_poisoned = False\<rparr>"
    and g': "\<not> f_unsure g'" "contents g' = wal_image first rs"
    using wal_open_rest [OF up g] by blast
  let ?s1 = "with_file w g' s" and ?m = "latest rs"
  have f1: "files ?s1 p = Some f" using f b(1) by simp
  have imgs: "all_images_ok (map dr_record (numbered first rs))" using l(1) by (simp add: log_ok_def)
  define f2 where "f2 = (if ?m = [] then f else disk_file (redo_bytes ?m (contents f)))"
  have st: "(if ?m = [] then ?s1 else with_file p (disk_file (redo_bytes ?m (contents f))) ?s1) = with_file p f2 ?s1"
    using f1 by (auto simp: f2_def with_file_def fun_upd_idem)
  obtain stats where rp: "replay p (numbered first rs) ?s1 = (Inr stats, with_file p f2 ?s1)"
    using replay_run [OF _ f1 f(2) imgs, unfolded map_dr_record_numbered st] up by simp
  have "safe {} a (redo_bytes ?m (contents f))" by (rule redo_bytes_safe [OF b(4) l(1) survives_contents [OF l(2)]])
  moreover have "logged rs = {}" if "?m = []" unfolding map_of_latest [of rs, symmetric] that by simp
  ultimately have f2: "survives (safe {} a) f2" "\<not> f_unsure f2" using l(2) f(2) by (auto simp: f2_def survives_synced)
  let ?s2 = "with_file p f2 ?s1" and ?d = "\<lparr>dk_file = p, dk_page_count = ad_count a\<rparr>"
  note safe2 = survives_contents [OF f2(1)]
  have "unat (ad_count a) < 2 ^ 52" using b(4) unfolding adb_ok_def by blast
  then have op: "disk_open p ?s2 = (Inr ?d, ?s2)"
    using disk_open_image [OF _ _ safe_header [OF safe2], of ?s2 p] up adb_ok_count [OF b(4)] safe_length [OF b(4) safe2]
    by simp
  let ?w = "(ow_wal opened)\<lparr>wal_durable_len := 24\<rparr>" and ?s3 = "with_file w (disk_file (wal_image (first + of_nat (length rs)) [])) ?s2"
  have rs: "wal_reset (ow_wal opened, ?s2) = (Inr (), (?w, ?s3))"
    using wal_reset_image [of ?s2 "ow_wal opened" g' first rs] up w g' b(1) by simp
  define report where "report = \<lparr>or_created = False, or_recovery = stats, or_discarded_wal_tail = ow_discarded opened\<rparr>"
  obtain db where as: "assemble ?d ?w opts report = Inr db" using opts by (auto simp: assemble_def pool_new_def Let_def)
  have "path_exists w s = (True, s)" using g(1) up by (simp add: path_exists_def os_simps)
  then have "open_existing p w opts s = (Inr db, ?s3)"
    using o rp op rs as by (simp add: open_existing_def and_then_def lift_res_def report_def)
  moreover have "db_inv p w db ?s3 a (first + of_nat (length rs)) []"
    by (rule assemble_inv [OF as b(1) _ _ b(4) refl _ _ _ f2(2,1)]) (use b w in \<open>simp_all add: wal_holds_def length_wal_image\<close>)
  ultimately show ?thesis using up by auto
qed

section \<open>Creating\<close>

lemma try_io_InrD: "try_io m s = (Inr x, s') \<Longrightarrow> m s = (Inr x, s')"
  by (simp add: try_io_eq_Inr)

lemma create_new_Inr:
  assumes "create_new q s = (Inr u, s')"
  shows "files s q = None \<and> files s' = (files s)(q \<mapsto> empty_file) \<and> named s' = (named s)(q := False)
    \<and> set (script s') \<subseteq> set (script s)"
proof -
  obtain x s1 where n: "next_outcome s = (x, s1)" by fastforce
  note same = next_outcome_same [OF n] next_outcome_script [OF n]
  with assms n show ?thesis
    by (cases x) (auto simp: create_new_def same_disk_def split: if_splits)
qed

lemma io_write_Inr:
  assumes "io_write q d e c s = (Inr u, s')" and "files s q = Some f"
  shows "files s' = (files s)(q \<mapsto> d f) \<and> named s' = named s \<and> set (script s') \<subseteq> set (script s)"
  using assms by (rule io_write_cases) auto

lemma sync_parent_dir_Inr:
  assumes "sync_parent_dir q s = (Inr u, s')"
  shows "files s' = files s \<and> set (script s') \<subseteq> set (script s)
    \<and> named s' = (\<lambda>p. named s p \<or> files s p \<noteq> None \<and> dir_of p = dir_of q)"
proof -
  obtain r1 s1 where rd: "try_io (io_read (\<lambda>_. Inr ())) s = (r1, s1)" by fastforce
  note l = try_read_any(1) [OF rd]
  from assms rd have sd: "sync_dir (dir_of q) s1 = (Inr u, s')"
    by (cases r1) (auto simp: sync_parent_dir_def dir_of_def and_then_def try_io_eq_Inr split: option.splits if_splits)
  obtain x s2 where n: "next_outcome s1 = (x, s2)" by fastforce
  note same = next_outcome_same [OF n] next_outcome_script [OF n]
  from sd n same l show ?thesis by (cases x) (auto simp: sync_dir_def same_disk_def looked_def)
qed

text \<open>A file that has been created successfully is there after a power loss.\<close>

lemma create_calls_Inr:
  assumes "and_then (try_io (create_new q)) (\<lambda>_. and_then (try_io (write_all_at q h 0)) (\<lambda>_.
      and_then (try_io (sync_all q)) (\<lambda>_. and_then (sync_parent_dir q) (\<lambda>_. ok x)))) s = (Inr y, s')"
    and "h \<noteq> []"
  shows "x = y \<and> files s q = None \<and> files s' = (files s)(q \<mapsto> disk_file h) \<and> set (script s') \<subseteq> set (script s)
    \<and> named s' q \<and> (\<forall>p. p \<noteq> q \<longrightarrow> named s p \<longrightarrow> named s' p)"
proof -
  from assms(1) obtain s1 s2 s3 where c: "create_new q s = (Inr (), s1)" and w: "write_all_at q h 0 s1 = (Inr (), s2)"
    and y: "sync_all q s2 = (Inr (), s3)" and d: "sync_parent_dir q s3 = (Inr (), s')" and x: "x = y"
    by (auto simp: and_then_eq_Inr try_io_eq_Inr ok_def)
  note C = create_new_Inr [OF c]
  have f1: "files s1 q = Some empty_file" using C by simp
  note W = io_write_Inr [OF w [unfolded write_all_at_def] f1]
  have f2: "files s2 q = Some (add_op (Write 0 h) empty_file)" using W by simp
  note Y = io_write_Inr [OF y [unfolded sync_all_def] f2]
  have "write_bytes 0 h [] = h" using assms(2) by (simp add: write_bytes_def copy_at_0)
  then have "sync_file (add_op (Write 0 h) empty_file) = disk_file h" by (simp add: sync_file_eq)
  with C W Y sync_parent_dir_Inr [OF d] x show ?thesis by auto
qed

lemma empty_db_ok: "adb_ok empty_db"
proof -
  have "pid = HEADER" if "raw pid < 1" for pid using that by (cases pid) (simp add: HEADER_def word_less_1)
  then show ?thesis by (auto simp: adb_ok_def empty_db_def)
qed

lemma empty_db_safe: "safe {} empty_db new_file_image"
  by (auto simp: safe_def full_def empty_db_def page_at_def new_file_image_def file_header_new_def file_page_def subslice_def split: if_splits)

lemma database_create_any:
  assumes "p \<noteq> w" and "database_create p w opts s = (Inr db, s')"
  shows "set (script s') \<subseteq> set (script s) \<and> db_inv p w db s' empty_db 0 [] \<and> db_next_txn db = 1"
proof -
  from assms(2) obtain d wl s1 where d: "disk_create p s = (Inr d, s1)" and w: "wal_create w s1 = (Inr wl, s')"
    and as: "assemble d wl opts (open_report_default\<lparr>or_created := True\<rparr>) = Inr db"
    by (auto simp: database_create_def and_then_eq_Inr lift_res_def)
  note D = create_calls_Inr [OF d [unfolded disk_create_def Let_def file_offset_HEADER] as_bytes_not_Nil]
  note W = create_calls_Inr [OF w [unfolded wal_create_def] wal_header_not_Nil]
  have dk: "d = \<lparr>dk_file = p, dk_page_count = ad_count empty_db\<rparr>" using D by (simp add: file_header_new_def empty_db_def)
  have wl: "wal_file wl = w" "wal_holds wl s' 0 [] []" using W by (auto simp: wal_holds_def wal_image_def)
  have f: "files s' p = Some (disk_file new_file_image)" using D W assms(1) by (simp add: new_file_image_def)
  have "db_inv p w db s' empty_db 0 []"
    by (rule assemble_inv [OF as assms(1) _ _ empty_db_ok dk wl f]) (use D W assms(1) empty_db_safe in \<open>simp_all add: survives_synced\<close>)
  moreover have "db_next_txn db = 1" using as by (auto simp: assemble_def split: sum.splits)
  ultimately show ?thesis using D W by auto
qed

lemma database_create_run:
  assumes "healthy s" and "p \<noteq> w" and "files s p = None" and "files s w = None" and "op_buffer_pool_pages opts \<noteq> 0"
  shows "\<exists>db s'. database_create p w opts s = (Inr db, s') \<and> healthy s'"
proof -
  from disk_create_run [OF assms(1,3)] obtain s1 where d: "disk_create p s = (Inr \<lparr>dk_file = p, dk_page_count = 1\<rparr>, s1)"
    "healthy s1" "files s1 = (files s)(p \<mapsto> disk_file new_file_image)" by blast
  then have "files s1 w = None" using assms(2,4) by simp
  from wal_create_run [OF d(2) this] obtain wl s2 where "wal_create w s1 = (Inr wl, s2)" "healthy s2" by blast
  with d(1) assms(5) show ?thesis
    by (auto simp: database_create_def and_then_def lift_res_def assemble_def pool_new_def Let_def)
qed

section \<open>The whole of \<open>open\<close>\<close>

lemma wal_path_differs: "wal_path_for p = Inr w \<Longrightarrow> p \<noteq> w"
  by (auto simp: wal_path_for_def with_file_name_def file_name_def split: option.splits list.splits component.splits)

lemma database_open_any:
  assumes set: "settled p w s a" and whole: "whole_headers s" and w: "wal_path_for p = Inr w"
    and run: "database_open p opts s = (r, s')"
  shows "set (script s') \<subseteq> set (script s) \<and> named s' = named s \<and> recoverable p w s' {a}
    \<and> (\<forall>db. r = Inr db \<longrightarrow> (\<exists>first. db_inv p w db s' a first []))"
proof -
  obtain b s1 where pe: "path_exists p s = (b, s1)" by fastforce
  note l1 = path_exists_any(1) [OF pe]
  note s1 = settled_looked [OF set l1]
  show ?thesis
  proof (cases b)
    case True
    with run pe w have "open_existing p w opts s1 = (r, s')" by (simp add: database_open_def and_then_def lift_res_def)
    from open_existing_any [OF s1 whole_headers_mono [OF _ whole] this] l1 show ?thesis by (auto simp: looked_def)
  next
    case False
    obtain b2 s2 where pw: "path_exists w s1 = (b2, s2)" by fastforce
    note l2 = looked_trans [OF l1 path_exists_any(1) [OF pw]]
    obtain r3 s3 where c: "create_new p s2 = (r3, s3)" by fastforce
    have "files s2 p \<noteq> None" using set l2 by (auto simp: settled_def looked_def)
    from create_existing [OF c this] obtain e where c3: "looked s2 s3" "r3 = Inl e" by blast
    have "(\<exists>e. r = Inl e) \<and> (s' = s1 \<or> s' = s2 \<or> s' = s3)"
      using run pe pw w False c c3(2)
      by (auto simp: database_open_def database_create_def disk_create_def and_then_def lift_res_def try_io_Inl split: if_splits)
    then have "(\<exists>e. r = Inl e) \<and> looked s s'" using l1 l2 looked_trans [OF l2 c3(1)] by blast
    with settled_recoverable [OF settled_looked [OF set]] looked_script show ?thesis by auto
  qed
qed

lemma database_open_run:
  assumes "healthy s" and "at_rest p w s a" and "op_buffer_pool_pages opts \<noteq> 0" and "wal_path_for p = Inr w"
  shows "\<exists>db s' first. database_open p opts s = (Inr db, s') \<and> healthy s' \<and> db_inv p w db s' a first []"
proof -
  have "path_exists p s = (True, s)" using assms(1,2) by (auto simp: path_exists_def os_simps at_rest_def)
  with open_existing_run [OF assms(1-3)] assms(4) show ?thesis by (simp add: database_open_def and_then_def lift_res_def)
qed

text \<open>A database that does not exist is created, or nothing is returned.\<close>

lemma database_open_new:
  assumes "files s p = None" and w: "wal_path_for p = Inr w" and run: "database_open p opts s = (Inr db, s')"
  shows "set (script s') \<subseteq> set (script s) \<and> db_inv p w db s' empty_db 0 [] \<and> db_next_txn db = 1"
proof -
  obtain b s1 where pe: "path_exists p s = (b, s1)" by fastforce
  obtain b2 s2 where pw: "path_exists w s1 = (b2, s2)" by fastforce
  have b: "\<not> b" using path_exists_any(2) [OF pe] assms(1) by auto
  have l: "looked s s2" using path_exists_any(1) [OF pe] path_exists_any(1) [OF pw] by (rule looked_trans)
  have "database_create p w opts s2 = (Inr db, s')"
    using run pe pw w b by (auto simp: database_open_def and_then_def lift_res_def split: if_splits)
  from database_create_any [OF wal_path_differs [OF w] this] l show ?thesis by (auto simp: looked_def)
qed

end
