(* ===== verification/Db_Txn.thy ===== *)
theory Db_Txn
  imports Db_Open
begin

text \<open>
  Transactions seen from outside: what a read returns, what the pages of a write transaction are at each
  moment, and that on a system without faults every operation on a database succeeds.
\<close>

section \<open>The pages of a transaction\<close>

lemma adb_ok_pages:
  assumes "adb_ok a"
  shows "ad_pages a pid = None \<longleftrightarrow> pid = HEADER \<or> ad_count a \<le> raw pid"
proof -
  have "dom (ad_pages a) = {pid. pid \<noteq> HEADER \<and> raw pid < ad_count a}" using assms unfolding adb_ok_def by blast
  then have "pid \<notin> dom (ad_pages a) \<longleftrightarrow> \<not> (pid \<noteq> HEADER \<and> raw pid < ad_count a)" by simp
  then show ?thesis by (auto simp: domIff)
qed

lemma check_data_page_ok: "check_data_page pid n = Inr () \<longleftrightarrow> \<not> (pid = HEADER \<or> n \<le> raw pid)"
  by (simp add: check_data_page_def)

lemma check_data_page_cases:
  "check_data_page pid n = Inr () \<or> (\<exists>msg. check_data_page pid n = Inl (InvalidArgument msg))"
  by (simp add: check_data_page_def)

text \<open>The pages as a write transaction sees them.\<close>

definition txn_pages :: "write_txn \<Rightarrow> adb \<Rightarrow> page_id \<Rightarrow> page option" where
  "txn_pages t a = ad_pages a ++ map_of (wt_dirty t)"

lemma txn_pages_None:
  assumes adb: "adb_ok a" and ok: "txn_ok t a"
  shows "txn_pages t a pid = None \<longleftrightarrow> pid = HEADER \<or> wt_page_count t \<le> raw pid"
proof (cases "pid \<in> fst ` set (wt_dirty t)")
  case True
  then have "map_of (wt_dirty t) pid \<noteq> None" by (simp add: map_of_eq_None_iff)
  moreover have "pid \<noteq> HEADER \<and> raw pid < wt_page_count t" using True ok unfolding txn_ok_def by blast
  ultimately show ?thesis by (auto simp: txn_pages_def map_add_def not_le)
next
  case False
  then have none: "map_of (wt_dirty t) pid = None" by (simp add: map_of_eq_None_iff)
  have "\<not> (ad_count a \<le> raw pid \<and> raw pid < wt_page_count t)" using False ok unfolding txn_ok_def by blast
  moreover have "ad_count a \<le> wt_page_count t" using ok by (simp add: txn_ok_def)
  ultimately show ?thesis using none adb_ok_pages [OF adb, of pid]
    by (auto simp: txn_pages_def map_add_def not_le)
qed

lemma txn_ok_insert:
  assumes "txn_ok t a" and "pid \<noteq> HEADER" and "raw pid < wt_page_count t"
  shows "txn_ok (t\<lparr>wt_dirty := bt_insert pid x (wt_dirty t)\<rparr>) a"
    and "txn_pages (t\<lparr>wt_dirty := bt_insert pid x (wt_dirty t)\<rparr>) a = (txn_pages t a)(pid \<mapsto> x)"
proof -
  show "txn_ok (t\<lparr>wt_dirty := bt_insert pid x (wt_dirty t)\<rparr>) a" using assms by (auto simp: txn_ok_def)
  show "txn_pages (t\<lparr>wt_dirty := bt_insert pid x (wt_dirty t)\<rparr>) a = (txn_pages t a)(pid \<mapsto> x)"
    by (auto simp: txn_pages_def fun_eq_iff map_add_def)
qed

section \<open>What reading relies on\<close>

text \<open>
  A state from which pages can be read: reading one through the pool gives its contents and leaves the
  state as it was but for the pool. The invariant of an open database is such a state, and so is what
  is left of it once the handle is poisoned or shared.
\<close>

locale readable =
  fixes I :: "database \<Rightarrow> os \<Rightarrow> adb \<Rightarrow> bool"
  assumes counted: "I db s a \<Longrightarrow> dk_page_count (db_disk db) = ad_count a"
    and contents_ok: "I db s a \<Longrightarrow> adb_ok a"
    and pool_read: "I db s a \<Longrightarrow> ad_pages a pid = Some x \<Longrightarrow> on_pool (\<lambda>d. read_through d pid) (db, s) = (r, (db', s')) \<Longrightarrow>
      I db' s' a \<and> set (script s') \<subseteq> set (script s) \<and> db' = db\<lparr>db_pool := db_pool db'\<rparr> \<and> (\<forall>q. r = Inr q \<longrightarrow> q = x)"
begin

lemma read_page_any:
  assumes inv: "I db s a" and run: "read_txn_read_page pid f (db, s) = (r, (db', s'))"
  shows "I db' s' a \<and> set (script s') \<subseteq> set (script s)
    \<and> (\<forall>x. r = Inr x \<longrightarrow> (\<exists>page. ad_pages a pid = Some page \<and> x = f page))
    \<and> (ad_pages a pid = None \<longrightarrow> (\<exists>msg. r = Inl (InvalidArgument msg)) \<and> db' = db \<and> s' = s)"
proof -
  have n: "read_txn_page_count db = ad_count a" using counted [OF inv] by (simp add: read_txn_page_count_def disk_page_count_def)
  show ?thesis
  proof (cases "ad_pages a pid")
    case None
    then have "check_data_page pid (ad_count a) \<noteq> Inr ()" using adb_ok_pages [OF contents_ok [OF inv]] by (simp add: check_data_page_ok)
    then obtain msg where "check_data_page pid (ad_count a) = Inl (InvalidArgument msg)" using check_data_page_cases by blast
    with None run n inv show ?thesis by (auto simp: read_txn_read_page_def)
  next
    case (Some page)
    then have ok: "check_data_page pid (ad_count a) = Inr ()" using adb_ok_pages [OF contents_ok [OF inv]] by (metis check_data_page_ok option.distinct(1))
    obtain r1 db1 s1 where rd: "on_pool (\<lambda>d. read_through d pid) (db, s) = (r1, (db1, s1))" by (metis surj_pair)
    note R = pool_read [OF inv Some rd]
    have "s' = s1 \<and> db' = db1 \<and> r = (case r1 of Inl e \<Rightarrow> Inl e | Inr q \<Rightarrow> Inr (f q))"
      using run rd ok n by (auto simp: read_txn_read_page_def and_then_def ok_def split: sum.splits)
    with R Some show ?thesis by (auto split: sum.splits)
  qed
qed

lemma write_read_any:
  assumes inv: "I db s a" and ok: "txn_ok t a" and run: "write_txn_read_page t pid f (db, s) = (r, (db', s'))"
  shows "I db' s' a \<and> set (script s') \<subseteq> set (script s)
    \<and> (\<forall>x. r = Inr x \<longrightarrow> (\<exists>page. txn_pages t a pid = Some page \<and> x = f page))
    \<and> (txn_pages t a pid = None \<longrightarrow> (\<exists>msg. r = Inl (InvalidArgument msg)) \<and> db' = db \<and> s' = s)"
proof (cases "txn_pages t a pid")
  case None
  then have "check_data_page pid (wt_page_count t) \<noteq> Inr ()" using txn_pages_None [OF contents_ok [OF inv] ok] by (simp add: check_data_page_ok)
  then obtain msg where "check_data_page pid (wt_page_count t) = Inl (InvalidArgument msg)" using check_data_page_cases by blast
  with None run inv show ?thesis by (auto simp: write_txn_read_page_def)
next
  case (Some page)
  then have chk: "check_data_page pid (wt_page_count t) = Inr ()"
    using txn_pages_None [OF contents_ok [OF inv] ok] by (metis check_data_page_ok option.distinct(1))
  show ?thesis
  proof (cases "map_of (wt_dirty t) pid")
    case (Some q)
    with \<open>txn_pages t a pid = Some page\<close> have "q = page" by (simp add: txn_pages_def map_add_def)
    with Some \<open>txn_pages t a pid = Some page\<close> run chk inv show ?thesis by (auto simp: write_txn_read_page_def)
  next
    case None
    with Some have page: "ad_pages a pid = Some page" by (simp add: txn_pages_def map_add_def)
    obtain r1 db1 s1 where rd: "on_pool (\<lambda>d. read_through d pid) (db, s) = (r1, (db1, s1))" by (metis surj_pair)
    note R = pool_read [OF inv page rd]
    have "s' = s1 \<and> db' = db1 \<and> r = (case r1 of Inl e \<Rightarrow> Inl e | Inr q \<Rightarrow> Inr (f q))"
      using run rd chk None by (auto simp: write_txn_read_page_def and_then_def ok_def split: sum.splits)
    with R Some show ?thesis by (auto split: sum.splits)
  qed
qed

text \<open>A change through \<open>page_mut\<close> is made to the transaction's own copy.\<close>

lemma page_mut_any:
  assumes inv: "I db s a" and ok: "txn_ok t a" and run: "page_mut pid change (t, (db, s)) = (r, (t', (db', s')))"
  shows "I db' s' a \<and> set (script s') \<subseteq> set (script s) \<and> txn_ok t' a \<and> db_next_txn db' = db_next_txn db
    \<and> db_wal db' = db_wal db
    \<and> (\<exists>e. r = Inl e \<and> t' = t \<or> r = Inr () \<and> wt_page_count t' = wt_page_count t
         \<and> (\<exists>page. txn_pages t a pid = Some page \<and> txn_pages t' a = (txn_pages t a)(pid \<mapsto> change page)))"
proof (cases "check_data_page pid (wt_page_count t)")
  case (Inl e)
  with run have "r = Inl e" "t' = t" "db' = db" "s' = s" by (simp_all add: page_mut_def)
  with inv ok show ?thesis by auto
next
  case (Inr u)
  then have b: "pid \<noteq> HEADER" "raw pid < wt_page_count t" using check_data_page_ok [of pid "wt_page_count t"] by auto
  then obtain page where page: "txn_pages t a pid = Some page" using txn_pages_None [OF contents_ok [OF inv] ok, of pid] by auto
  note ins = txn_ok_insert [OF ok b, of "change page"]
  show ?thesis
  proof (cases "map_of (wt_dirty t) pid")
    case (Some q)
    with page have "q = page" by (simp add: txn_pages_def map_add_def)
    with run Inr Some have "r = Inr ()" "t' = t\<lparr>wt_dirty := bt_insert pid (change page) (wt_dirty t)\<rparr>" "db' = db" "s' = s"
      by (simp_all add: page_mut_def)
    with inv ins page show ?thesis by auto
  next
    case None
    with page have ap: "ad_pages a pid = Some page" by (simp add: txn_pages_def map_add_def)
    obtain r1 db1 s1 where rd: "on_pool (\<lambda>d. read_through d pid) (db, s) = (r1, (db1, s1))" by (metis surj_pair)
    note R = pool_read [OF inv ap rd]
    then have db1: "db_next_txn db1 = db_next_txn db" "db_wal db1 = db_wal db" by (metis database.ext_inject database.surjective database.update_convs(2))+
    show ?thesis
    proof (cases r1)
      case (Inl e)
      with run Inr None rd have "r = Inl e" "t' = t" "db' = db1" "s' = s1" by (simp_all add: page_mut_def)
      with R ok db1 show ?thesis by auto
    next
      case q: (Inr q)
      with R have "q = page" by simp
      with run Inr None rd q have "r = Inr ()" "t' = t\<lparr>wt_dirty := bt_insert pid (change page) (wt_dirty t)\<rparr>" "db' = db1" "s' = s1"
        by (simp_all add: page_mut_def)
      with R ins page db1 show ?thesis by auto
    qed
  qed
qed

end

section \<open>Reading an open database\<close>

lemma db_inv_cache:
  "db_inv p w db s a first rs \<Longrightarrow>
   cache_state (db_disk db) (safe (logged rs) a) (logged rs) s (ad_pages a) (db_pool db, s)"
  using db_inv_ctx [of p w db s a first rs] by (simp add: cache_state_def db_inv_def)

lemma db_inv_keep:
  assumes inv: "db_inv p w db s a first rs"
    and st: "cache_state (db_disk db) (safe (logged rs) a) (logged rs) s (ad_pages a) (pool, s')"
  shows "db_inv p w (db\<lparr>db_pool := pool\<rparr>) s' a first rs"
proof -
  have k: "keeps p s s'" "pool_inv (db_disk db) (safe (logged rs) a) (logged rs) (ad_pages a) (pool, s')" "idle_pool pool"
    using st inv by (simp_all add: cache_state_def db_inv_def)
  then have n: "named s' = named s" "\<not> unsure s' p" "files s' w = files s w"
    using inv by (auto simp: keeps_def touches_def db_inv_def)
  then have "wal_holds (db_wal db) s' first rs []" using inv by (auto simp: wal_holds_def db_inv_def)
  with k n inv show ?thesis by (simp add: db_inv_def)
qed

text \<open>Reading through the pool: the invariant stays, and what is returned is the page.\<close>

lemma keeps_script: "keeps p s s' \<Longrightarrow> set (script s') \<subseteq> set (script s)"
  by (simp add: keeps_def touches_def)

lemma pool_read_any:
  assumes inv: "db_inv p w db s a first rs" and page: "ad_pages a pid = Some x"
    and run: "on_pool (\<lambda>d. read_through d pid) (db, s) = (r, (db', s'))"
  shows "db_inv p w db' s' a first rs \<and> set (script s') \<subseteq> set (script s) \<and> db' = db\<lparr>db_pool := db_pool db'\<rparr> \<and> (\<forall>q. r = Inr q \<longrightarrow> q = x)"
proof -
  obtain pool where rd: "read_through (db_disk db) pid (db_pool db, s) = (r, (pool, s'))" and db': "db' = db\<lparr>db_pool := pool\<rparr>"
    using run by (auto simp: on_pool_def split: prod.splits)
  note R = pc.get_any [OF db_inv_cache [OF inv] page rd]
  then have "keeps p s s'" using inv by (simp add: cache_state_def db_inv_def)
  with R db_inv_keep [OF inv] show ?thesis by (simp add: db' keeps_script)
qed

lemma pool_read_ok:
  assumes inv: "db_inv p w db s a first rs" and page: "ad_pages a pid = Some x" and up: "healthy s"
  shows "\<exists>db' s'. on_pool (\<lambda>d. read_through d pid) (db, s) = (Inr x, (db', s')) \<and> healthy s'"
  using pc.get_live [OF db_inv_cache [OF inv], of pid x] page up by (auto simp: on_pool_def)

interpretation open_db: readable "\<lambda>db s a. db_inv p w db s a first rs" for p w first rs
proof unfold_locales
  show "dk_page_count (db_disk db) = ad_count a" "adb_ok a" if "db_inv p w db s a first rs" for db s a
    using that by (simp_all add: db_inv_def)
qed (rule pool_read_any)

lemma read_page_ok:
  assumes inv: "db_inv p w db s a first rs" and page: "ad_pages a pid = Some x" and up: "healthy s"
  shows "\<exists>db' s'. read_txn_read_page pid f (db, s) = (Inr (f x), (db', s')) \<and> healthy s'"
proof -
  have n: "read_txn_page_count db = ad_count a" using inv by (simp add: read_txn_page_count_def disk_page_count_def db_inv_def)
  have ok: "check_data_page pid (ad_count a) = Inr ()" using page adb_ok_pages [OF open_db.contents_ok [OF inv]] by (metis check_data_page_ok option.distinct(1))
  with pool_read_ok [OF assms] n show ?thesis by (auto simp: read_txn_read_page_def and_then_def ok_def)
qed

section \<open>Write transactions\<close>

lemma txn_ok_new: "write_txn_new db = Inr t \<Longrightarrow> db_inv p w db s a first rs \<Longrightarrow> txn_ok t a \<and> txn_pages t a = ad_pages a"
  by (auto simp: write_txn_new_def txn_ok_def txn_pages_def bt_ordered_def disk_page_count_def db_inv_def split: sum.splits)

lemma page_mut_ok:
  assumes inv: "db_inv p w db s a first rs" and ok: "txn_ok t a" and page: "txn_pages t a pid = Some page" and up: "healthy s"
  shows "\<exists>t' db' s'. page_mut pid change (t, (db, s)) = (Inr (), (t', (db', s'))) \<and> healthy s'"
proof -
  have chk: "check_data_page pid (wt_page_count t) = Inr ()"
    using txn_pages_None [OF open_db.contents_ok [OF inv] ok] page by (metis check_data_page_ok option.distinct(1))
  show ?thesis
  proof (cases "map_of (wt_dirty t) pid")
    case None
    with page have "ad_pages a pid = Some page" by (simp add: txn_pages_def map_add_def)
    from pool_read_ok [OF inv this up] None chk show ?thesis by (auto simp: page_mut_def)
  qed (use chk up in \<open>simp add: page_mut_def\<close>)
qed

lemma allocate_any:
  assumes ok: "txn_ok t a" and a: "adb_ok a" and fits: "unat (wt_page_count t) < 2 ^ 64 - 1" and run: "allocate_page ty t = (pid, t')"
  shows "txn_ok t' a \<and> pid = PageId (wt_page_count t) \<and> wt_page_count t' = wt_page_count t + 1
    \<and> txn_pages t' a = (txn_pages t a)(pid \<mapsto> page_new pid ty)"
proof -
  let ?t = "t\<lparr>wt_page_count := wt_page_count t + 1\<rparr>"
  have u: "unat (wt_page_count t + 1) = unat (wt_page_count t) + 1" using fits by (simp add: unat_word_ariths)
  have pos: "0 < ad_count a" using a unfolding adb_ok_def by blast
  have le: "ad_count a \<le> wt_page_count t" using ok by (simp add: txn_ok_def)
  have hdr: "PageId (wt_page_count t) \<noteq> HEADER" using pos le by (auto simp: HEADER_def)
  have top: "q = PageId (wt_page_count t) \<or> raw q < wt_page_count t" if "raw q < wt_page_count t + 1" for q
    using that u by (cases q) (auto simp: word_less_nat_alt word_unat_eq_iff)
  have up: "raw q < wt_page_count t + 1" if "raw q \<le> wt_page_count t" for q
    using that u by (simp add: word_less_nat_alt word_le_nat_alt)
  have "{pid. ad_count a \<le> raw pid \<and> raw pid < wt_page_count t + 1} \<subseteq> insert (PageId (wt_page_count t)) (fst ` set (wt_dirty t))"
    using top ok unfolding txn_ok_def by blast
  moreover have "insert (PageId (wt_page_count t)) (fst ` set (wt_dirty t)) \<subseteq> {pid. pid \<noteq> HEADER \<and> raw pid < wt_page_count t + 1}"
    using up [OF order_less_imp_le] up [of "PageId (wt_page_count t)"] hdr ok unfolding txn_ok_def by auto
  moreover have "ad_count a \<le> wt_page_count t + 1" using le u by (simp add: word_le_nat_alt)
  ultimately have "txn_ok (?t\<lparr>wt_dirty := bt_insert (PageId (wt_page_count t)) x (wt_dirty t)\<rparr>) a" for x
    using ok by (simp add: txn_ok_def)
  with run show ?thesis
    by (auto simp: allocate_page_def Let_def txn_pages_def fun_eq_iff map_add_def)
qed

text \<open>What a commit makes of the contents is what the transaction saw, sealed.\<close>

lemma apply_txn_pages:
  assumes "adb_ok a"
  shows "ad_pages (apply_txn t a) = map_option seal \<circ> txn_pages t a"
proof
  fix pid
  show "ad_pages (apply_txn t a) pid = (map_option seal \<circ> txn_pages t a) pid"
  proof (cases "map_of (wt_dirty t) pid")
    case None
    have "seal x = x" if "ad_pages a pid = Some x" for x using valid_page_sealed adb_ok_page(1) [OF assms that] by blast
    with None show ?thesis by (cases "ad_pages a pid") (simp_all add: apply_txn_def txn_pages_def map_add_def)
  qed (simp add: apply_txn_def txn_pages_def map_add_def)
qed

end
