(* ===== verification/Crash_Safety.thy ===== *)
theory Crash_Safety
  imports Db_Txn
begin

text \<open>
  The theorem the engine exists for. A step relation runs the operations of a database against the
  system, with faults, kills and power losses anywhere, and keeps beside it the set of contents that
  the specification allows: exactly one while the handle is usable, and after a commit that failed
  either what there was before or what the commit would have made. Every reopening finds one of them.
\<close>

section \<open>Histories\<close>

datatype mode = Closed | Open database "write_txn option"

text \<open>Everything the system has accepted for the file is on the disk, as after a power loss.\<close>

definition synced :: "os \<Rightarrow> path \<Rightarrow> bool" where
  "synced s q \<longleftrightarrow> (\<forall>f. files s q = Some f \<longrightarrow> f = disk_file (contents f))"

text \<open>The process has gone, the system has not.\<close>

definition killed :: "os \<Rightarrow> os \<Rightarrow> bool" where
  "killed s s' \<longleftrightarrow> files s' = files s \<and> named s' = named s \<and> \<not> crashed s'"

text \<open>
  The operations as a program can call them, each with what it does to the allowed contents. Only one
  write transaction is open at a time; a checkpoint waits for it. Power may be lost, and the process
  killed, at any moment, also inside an operation, since an operation may be cut off by the system
  stopping.
\<close>

inductive engine :: "path \<Rightarrow> path \<Rightarrow> mode \<Rightarrow> os \<Rightarrow> adb set \<Rightarrow> bool" for p w where
  create: "wal_path_for p = Inr w \<Longrightarrow> files s p = None \<Longrightarrow> whole_headers s \<Longrightarrow>
    database_open p opts s = (Inr db, s') \<Longrightarrow> engine p w (Open db None) s' {empty_db}"
| read: "engine p w (Open db t) s A \<Longrightarrow> begin_read db = Inr () \<Longrightarrow>
    read_txn_read_page pid (\<lambda>page. page) (db, s) = (r, (db', s')) \<Longrightarrow> engine p w (Open db' t) s' A"
| started: "engine p w (Open db None) s A \<Longrightarrow> begin_write db = Inr t \<Longrightarrow> engine p w (Open db (Some t)) s A"
| txn_read: "engine p w (Open db (Some t)) s A \<Longrightarrow>
    write_txn_read_page t pid (\<lambda>page. page) (db, s) = (r, (db', s')) \<Longrightarrow> engine p w (Open db' (Some t)) s' A"
| change: "engine p w (Open db (Some t)) s A \<Longrightarrow>
    page_mut pid f (t, (db, s)) = (r, (t', (db', s'))) \<Longrightarrow> engine p w (Open db' (Some t')) s' A"
| allocate: "engine p w (Open db (Some t)) s A \<Longrightarrow> unat (wt_page_count t) < 2 ^ 64 - 1 \<Longrightarrow>
    allocate_page ty t = (pid, t') \<Longrightarrow> engine p w (Open db (Some t')) s A"
| committed: "engine p w (Open db (Some t)) s A \<Longrightarrow> commit_fits t db \<Longrightarrow>
    commit t (db, s) = (Inr (), (db', s')) \<Longrightarrow> engine p w (Open db' None) s' (apply_txn t ` A)"
| commit_refused: "engine p w (Open db (Some t)) s A \<Longrightarrow> commit_fits t db \<Longrightarrow>
    commit t (db, s) = (Inl e, (db', s')) \<Longrightarrow> \<not> db_poisoned db' \<Longrightarrow> engine p w (Open db' None) s' A"
| commit_failed: "engine p w (Open db (Some t)) s A \<Longrightarrow> commit_fits t db \<Longrightarrow>
    commit t (db, s) = (Inl e, (db', s')) \<Longrightarrow> db_poisoned db' \<Longrightarrow> engine p w (Open db' None) s' (A \<union> apply_txn t ` A)"
| rolled_back: "engine p w (Open db (Some t)) s A \<Longrightarrow>
    rollback t (db, s) = (r, (db', s')) \<Longrightarrow> engine p w (Open db' None) s' A"
| checkpointed: "engine p w (Open db None) s A \<Longrightarrow>
    checkpoint (db, s) = (r, (db', s')) \<Longrightarrow> engine p w (Open db' None) s' A"
| closed: "engine p w (Open db None) s A \<Longrightarrow>
    close (db, s) = (r, (db', s')) \<Longrightarrow> engine p w Closed s' A"
| gone: "engine p w m s A \<Longrightarrow> killed s s' \<Longrightarrow> whole_headers s' \<Longrightarrow> engine p w Closed s' A"
| power_loss: "engine p w m s A \<Longrightarrow> crash_os s c \<Longrightarrow> tears_found w s c \<Longrightarrow> whole_headers c \<Longrightarrow> engine p w Closed c A"
| open_failed: "engine p w Closed s A \<Longrightarrow> synced s p \<Longrightarrow> synced s w \<Longrightarrow>
    database_open p opts s = (Inl e, s') \<Longrightarrow> engine p w Closed s' A"
| reopened: "engine p w Closed s A \<Longrightarrow> synced s p \<Longrightarrow> synced s w \<Longrightarrow>
    database_open p opts s = (Inr db, s') \<Longrightarrow> engine p w (Open db None) s' {view db s'}"
| restarted: "engine p w Closed s A \<Longrightarrow> \<not> unsure s p \<Longrightarrow> \<not> unsure s w \<Longrightarrow> healthy s \<Longrightarrow> op_buffer_pool_pages opts \<noteq> 0 \<Longrightarrow>
    database_open p opts s = (Inr db, s') \<Longrightarrow> engine p w (Open db None) s' {view db s'}"

section \<open>The invariant of a history\<close>

definition sound :: "path \<Rightarrow> path \<Rightarrow> mode \<Rightarrow> os \<Rightarrow> adb set \<Rightarrow> bool" where
  "sound p w m s A \<longleftrightarrow> whole_headers s \<and> wal_path_for p = Inr w \<and>
     (case m of
        Closed \<Rightarrow> recoverable p w s A
      | Open db t \<Rightarrow> db_safe p w db s A \<and>
          (\<forall>x. t = Some x \<longrightarrow> (\<exists>a first rs. A = {a} \<and> db_inv p w db s a first rs \<and> txn_ok x a)))"

lemma commit_error:
  "commit t (db, s) = (Inl e, (db', s')) \<Longrightarrow> db_poisoned db' \<or> db' = db \<and> s' = s"
  by (auto simp: commit_def poison_def Let_def split: if_splits sum.splits prod.splits)

lemma sound_recoverable: "sound p w m s A \<Longrightarrow> recoverable p w s A"
  by (auto simp: sound_def db_safe_def split: mode.splits)

lemma soundI:
  assumes "wal_path_for p = Inr w" and "whole_headers s" and "set (script s') \<subseteq> set (script s)"
  shows "recoverable p w s' A \<Longrightarrow> sound p w Closed s' A"
    and "db_safe p w db s' A \<Longrightarrow> sound p w (Open db None) s' A"
    and "db_inv p w db s' a first rs \<Longrightarrow> (\<And>x. t = Some x \<Longrightarrow> txn_ok x a) \<Longrightarrow> sound p w (Open db t) s' {a}"
  using assms whole_headers_mono [OF assms(3,2)] db_inv_safe by (auto simp: sound_def)

lemma soundE:
  assumes "sound p w (Open db t) s A" and "\<not> db_poisoned db"
  obtains a first rs where "A = {a}" and "db_inv p w db s a first rs" and "\<And>x. t = Some x \<Longrightarrow> txn_ok x a"
proof -
  from assms obtain a first rs where a: "A = {a}" "db_inv p w db s a first rs" by (auto simp: sound_def db_safe_def)
  moreover have "txn_ok x a" if "t = Some x" for x using assms(1) that a(1) by (auto simp: sound_def)
  ultimately show thesis using that by blast
qed

lemma sound_writing:
  assumes "sound p w (Open db (Some t)) s A"
  obtains a first rs where "A = {a}" and "db_inv p w db s a first rs" and "txn_ok t a"
  using assms by (auto simp: sound_def)

lemma sound_env: "sound p w m s A \<Longrightarrow> wal_path_for p = Inr w \<and> whole_headers s"
  by (simp add: sound_def)

lemma begin_read_ok: "begin_read db = Inr () \<longleftrightarrow> \<not> db_poisoned db"
  by (simp add: begin_read_def read_txn_new_def check_poisoned_def)

lemma begin_write_ok: "begin_write db = Inr t \<Longrightarrow> \<not> db_poisoned db"
  by (auto simp: begin_write_def write_txn_new_def check_poisoned_def split: if_splits)

lemma recoverable_settled:
  assumes "recoverable p w s A" and "synced s p" and "synced s w"
  shows "\<exists>a \<in> A. settled p w s a"
proof -
  obtain f g R where b: "p \<noteq> w" "named s p" "named s w" and f: "files s p = Some f" and g: "files s w = Some g"
    and may: "log_may g R"
    and all: "\<And>rs. rs \<in> R \<Longrightarrow> length rs < 2 ^ 64 \<and> (\<exists>a \<in> A. adb_ok a \<and> log_ok rs a \<and> survives (safe (logged rs) a) f)"
    using assms(1) unfolding recoverable_def by blast
  have "persists (f_base g) (f_ops g) (contents g)" by (simp add: contents_def persists_apply)
  then obtain first rs t where img: "contents g = wal_image first rs @ t" "no_record (first + of_nat (length rs)) t" "rs \<in> R"
    using may unfolding log_may_def by blast
  from all [OF img(3)] obtain a where a: "length rs < 2 ^ 64" "a \<in> A" "adb_ok a" "log_ok rs a" "survives (safe (logged rs) a) f" by blast
  have "files s p = Some (disk_file (contents f))" "files s w = Some (disk_file (wal_image first rs @ t))"
    using assms(2,3) f g img(1) by (simp_all add: synced_def)
  with a b img survives_contents [OF a(5)] show ?thesis unfolding settled_def by blast
qed

lemma checkpoint_sound:
  assumes "sound p w (Open db None) s A" and run: "checkpoint (db, s) = (r, (db', s'))"
  shows "sound p w (Open db' None) s' A"
proof (cases "db_poisoned db")
  case True
  with run have "db' = db" "s' = s" by (simp_all add: checkpoint_def check_poisoned_def)
  with assms(1) show ?thesis by simp
next
  case False
  then obtain a first rs where a: "A = {a}" "db_inv p w db s a first rs" using soundE [OF assms(1)] by metis
  have "checkpoint_locked (db, s) = (r, (db', s'))" using run False by (simp add: checkpoint_def check_poisoned_def)
  from checkpoint_locked_any [OF a(2) _ this] sound_env [OF assms(1)] a(1) soundI(2) show ?thesis by blast
qed

lemma commit_sound:
  assumes "sound p w (Open db (Some t)) s A" and fits: "commit_fits t db" and run: "commit t (db, s) = (r, (db', s'))"
  shows "r = Inr () \<Longrightarrow> sound p w (Open db' None) s' (apply_txn t ` A)"
    and "r = Inl e \<Longrightarrow> \<not> db_poisoned db' \<Longrightarrow> sound p w (Open db' None) s' A"
    and "r = Inl e \<Longrightarrow> db_poisoned db' \<Longrightarrow> sound p w (Open db' None) s' (A \<union> apply_txn t ` A)"
proof -
  obtain a first rs where a: "A = {a}" "db_inv p w db s a first rs" "txn_ok t a" using sound_writing [OF assms(1)] .
  note env = sound_env [OF assms(1)]
  then have wp: "wal_path_for p = Inr w" and wh: "whole_headers s" by simp_all
  note C = commit_any [OF a(2,3) fits wh run]
  then have scr: "set (script s') \<subseteq> set (script s)" by blast
  show "sound p w (Open db' None) s' (apply_txn t ` A)" if "r = Inr ()"
    using C that a(1) by (intro soundI(2) [OF wp wh scr]) simp
  show "sound p w (Open db' None) s' A" if "r = Inl e" "\<not> db_poisoned db'"
    using commit_error [of t db s e db' s'] run that a env db_inv_safe [OF a(2)] by (simp add: sound_def)
  show "sound p w (Open db' None) s' (A \<union> apply_txn t ` A)" if "r = Inl e" "db_poisoned db'"
  proof -
    from C obtain B where B: "B \<subseteq> {a, apply_txn t a}" "db_safe p w db' s' B" by blast
    then have "recoverable p w s' B" by (simp add: db_safe_def)
    then have "recoverable p w s' (A \<union> apply_txn t ` A)" by (rule recoverable_mono) (use B(1) a(1) in auto)
    with that(2) show ?thesis by (intro soundI(2) [OF wp wh scr]) (simp add: db_safe_def)
  qed
qed

lemma engine_sound: "engine p w m s A \<Longrightarrow> sound p w m s A"
proof (induction rule: engine.induct)
  case (create s opts db s')
  from database_open_new [OF create(2,1,4)] create(1,3) show ?case by (auto intro: soundI(3))
next
  case (read db t s A pid r db' s')
  then have up: "\<not> db_poisoned db" by (simp add: begin_read_ok)
  obtain a first rs where a: "A = {a}" "db_inv p w db s a first rs" "\<And>x. t = Some x \<Longrightarrow> txn_ok x a"
    using soundE [OF read.IH up] by metis
  from open_db.read_page_any [OF a(2) read.hyps(3)] a sound_env [OF read.IH] show ?case by (auto intro: soundI(3))
next
  case (started db s A t)
  obtain a first rs where a: "A = {a}" "db_inv p w db s a first rs"
    using soundE [OF started.IH begin_write_ok [OF started.hyps(2)]] by metis
  then have "txn_ok t a" using txn_ok_new [of db t] started.hyps(2) by (auto simp: begin_write_def)
  with a sound_env [OF started.IH] show ?case by (auto intro: soundI(3))
next
  case (txn_read db t s A pid r db' s')
  obtain a first rs where a: "A = {a}" "db_inv p w db s a first rs" "txn_ok t a" using sound_writing [OF txn_read.IH] .
  from open_db.write_read_any [OF a(2,3) txn_read.hyps(2)] a sound_env [OF txn_read.IH] show ?case by (auto intro: soundI(3))
next
  case (change db t s A pid f r t' db' s')
  obtain a first rs where a: "A = {a}" "db_inv p w db s a first rs" "txn_ok t a" using sound_writing [OF change.IH] .
  from open_db.page_mut_any [OF a(2,3) change.hyps(2)] a sound_env [OF change.IH] show ?case by (auto intro: soundI(3))
next
  case (allocate db t s A ty pid t')
  obtain a first rs where a: "A = {a}" "db_inv p w db s a first rs" "txn_ok t a" using sound_writing [OF allocate.IH] .
  have "txn_ok t' a" using allocate_any [OF a(3) _ allocate.hyps(2,3)] a(2) by (simp add: db_inv_def)
  with a sound_env [OF allocate.IH] show ?case by (auto intro: soundI(3))
next
  case committed
  then show ?case using commit_sound(1) by blast
next
  case commit_refused
  then show ?case using commit_sound(2) by blast
next
  case commit_failed
  then show ?case using commit_sound(3) by blast
next
  case (rolled_back db t s A r db' s')
  then have "db' = db" "s' = s" by (simp_all add: rollback_def ok_def)
  with rolled_back.IH show ?case by (simp add: sound_def)
next
  case checkpointed
  then show ?case using checkpoint_sound by blast
next
  case (closed db s A r db' s')
  then have "sound p w (Open db' None) s' A" using checkpoint_sound by (simp add: close_def)
  with sound_recoverable sound_env show ?case by (metis order_refl soundI(1))
next
  case (gone m s A s')
  then have "recoverable p w s' A" using sound_recoverable [OF gone.IH] by (simp add: killed_def recoverable_def)
  with gone sound_env [OF gone.IH] show ?case by (simp add: sound_def)
next
  case (power_loss m s A c)
  then obtain a where "a \<in> A" "settled p w c a" using crash_settles [OF sound_recoverable [OF power_loss.IH]] by blast
  then have "recoverable p w c A" using settled_recoverable recoverable_mono [of p w c "{a}" A] by simp
  with power_loss sound_env [OF power_loss.IH] show ?case by (simp add: sound_def)
next
  case (open_failed s A opts e s')
  from recoverable_settled [OF sound_recoverable [OF open_failed.IH] open_failed.hyps(2,3)]
  obtain a where a: "a \<in> A" "settled p w s a" by blast
  note env = sound_env [OF open_failed.IH]
  have "recoverable p w s' {a}" "set (script s') \<subseteq> set (script s)"
    using database_open_any [OF a(2) _ _ open_failed.hyps(4)] env by simp_all
  with env a(1) recoverable_mono [of p w s' "{a}" A] show ?case by (auto intro: soundI(1))
next
  case (reopened s A opts db s')
  from recoverable_settled [OF sound_recoverable [OF reopened.IH] reopened.hyps(2,3)]
  obtain a where a: "a \<in> A" "settled p w s a" by blast
  note env = sound_env [OF reopened.IH]
  obtain first where inv: "db_inv p w db s' a first []" and "set (script s') \<subseteq> set (script s)"
    using database_open_any [OF a(2) _ _ reopened.hyps(4)] env by auto
  with env db_inv_view [OF inv] show ?case by (auto intro: soundI(3))
next
  case (restarted s A opts db s')
  from recoverable_at_rest [OF sound_recoverable [OF restarted.IH] restarted.hyps(2,3)]
  obtain a where a: "a \<in> A" "at_rest p w s a" by blast
  note env = sound_env [OF restarted.IH]
  obtain first where inv: "db_inv p w db s' a first []" and "healthy s'"
    using database_open_run [OF restarted.hyps(4) a(2) restarted.hyps(5)] env restarted.hyps(6) by auto
  with env db_inv_view [OF inv] show ?case by (auto simp: sound_def db_inv_safe healthy_whole)
qed

section \<open>A first commit\<close>

text \<open>A system with no files, a database on it and one transaction that allocates a page.\<close>

definition new_os :: os where
  "new_os = \<lparr>files = Map.empty, named = (\<lambda>_. False), script = [], crashed = False\<rparr>"

definition example_path :: path where
  "example_path = [Normal ''db'']"

definition example_wal_path :: path where
  "example_wal_path = [Normal ''db-wal'']"

definition example_txn :: write_txn where
  "example_txn = \<lparr>wt_dirty = [(PageId 1, page_new (PageId 1) Heap)], wt_page_count = 2\<rparr>"

lemma new_os_simps [simp]:
  "healthy new_os" "files new_os q = None" "whole_headers new_os" "wal_path_for example_path = Inr example_wal_path"
  by (simp_all add: new_os_def healthy_def whole_headers_def wal_path_for_def file_name_def with_file_name_def
      example_path_def example_wal_path_def)

lemma example_open:
  "\<exists>db s. database_open example_path options_default new_os = (Inr db, s) \<and> healthy s
    \<and> engine example_path example_wal_path (Open db None) s {empty_db}"
proof -
  have "example_path \<noteq> example_wal_path" by (simp add: example_path_def example_wal_path_def)
  from database_create_run [OF _ this, of new_os options_default] obtain db s
    where run: "database_create example_path example_wal_path options_default new_os = (Inr db, s)" and up: "healthy s"
    by (auto simp: options_default_def)
  have "path_exists q new_os = (False, new_os)" for q by (simp add: path_exists_def os_simps)
  with run have "database_open example_path options_default new_os = (Inr db, s)"
    by (simp add: database_open_def and_then_def lift_res_def options_default_def)
  with engine.create [of example_path example_wal_path new_os options_default db s] up show ?thesis by auto
qed

lemma example_begin:
  "\<exists>db s. healthy s \<and> engine example_path example_wal_path (Open db (Some example_txn)) s {empty_db} \<and> commit_fits example_txn db"
proof -
  obtain db s where o: "database_open example_path options_default new_os = (Inr db, s)" and up: "healthy s"
    and e: "engine example_path example_wal_path (Open db None) s {empty_db}" using example_open by blast
  have inv: "db_inv example_path example_wal_path db s empty_db 0 []" and n: "db_next_txn db = 1"
    using database_open_new [OF _ _ o] by auto
  let ?t = "\<lparr>wt_dirty = [], wt_page_count = 1\<rparr>"
  have "begin_write db = Inr ?t"
    using inv by (simp add: begin_write_def write_txn_new_def check_poisoned_def disk_page_count_def db_inv_def empty_db_def)
  note engine.started [OF e this]
  moreover have "allocate_page Heap ?t = (PageId 1, example_txn)" by (simp add: allocate_page_def example_txn_def Let_def)
  ultimately have "engine example_path example_wal_path (Open db (Some example_txn)) s {empty_db}"
    using engine.allocate [of example_path example_wal_path db ?t s "{empty_db}" Heap "PageId 1" example_txn] by simp
  moreover have "wal_durable_len (db_wal db) = 24" using inv by (simp add: db_inv_def wal_holds_def length_wal_image)
  then have "commit_fits example_txn db" using n by (simp add: commit_fits_def example_txn_def)
  ultimately show ?thesis using up by blast
qed

lemma example_sealed: "\<forall>(pid, page) \<in> set (wt_dirty example_txn). valid_page pid (seal page)"
  by (simp add: example_txn_def valid_new_page)

text \<open>A system on which every commit that is made here succeeds.\<close>

lemma example_commit:
  "\<exists>db s. healthy s \<and> engine example_path example_wal_path (Open db None) s {apply_txn example_txn empty_db} \<and> \<not> db_poisoned db"
proof -
  obtain db s where up: "healthy s" and e: "engine example_path example_wal_path (Open db (Some example_txn)) s {empty_db}"
    and fits: "commit_fits example_txn db" using example_begin by blast
  obtain first rs where a: "db_inv example_path example_wal_path db s empty_db first rs" "txn_ok example_txn empty_db"
    using sound_writing [OF engine_sound [OF e]] by (metis singleton_inject)
  obtain r db' s' where c: "commit example_txn (db, s) = (r, (db', s'))" by (metis surj_pair)
  have "r = Inr () \<and> healthy s' \<and> (\<exists>first rs. db_inv example_path example_wal_path db' s' (apply_txn example_txn empty_db) first rs)"
    using commit_any [OF a fits healthy_whole [OF up] c] up seal_all_ok [OF example_sealed] by blast
  moreover from this have "engine example_path example_wal_path (Open db' None) s' {apply_txn example_txn empty_db}"
    using engine.committed [OF e fits] c by auto
  ultimately show ?thesis by (auto simp: db_inv_def)
qed

text \<open>One of the things a power loss may leave: everything that was written.\<close>

definition all_written :: "os \<Rightarrow> os" where
  "all_written s = \<lparr>files = (\<lambda>q. map_option (disk_file \<circ> contents) (files s q)), named = (\<lambda>q. files s q \<noteq> None),
     script = [], crashed = False\<rparr>"

lemma crash_all_written: "crash_os s (all_written s)"
proof -
  have "persists (f_base f) (f_ops f) (contents f)" for f by (simp add: contents_def persists_apply)
  then show ?thesis by (fastforce simp: crash_os_def crash_file_def all_written_def split: option.splits)
qed

lemma tears_all_written:
  assumes "db_inv p w db s a first rs"
  shows "tears_found w s (all_written s)"
proof -
  have "files s w = Some (disk_file (wal_image first rs))" using assms by (auto simp: db_inv_def wal_holds_def)
  then show ?thesis by (auto simp: tears_found_def crash_detected_def disk_file_def)
qed

section \<open>Properties\<close>



text \<open>
  C2: Killing the process at any point of a history loses nothing either: as long as no fsync has
  failed, opening the database again finds the contents of the acknowledged commits, up to a commit
  that was in flight.
\<close>
theorem kill_keeps_commits:
  assumes "engine p w m s A" and "killed s s'" and "script s' = []" and "\<not> unsure s p" and "\<not> unsure s w"
    and "op_buffer_pool_pages opts \<noteq> 0"
  shows "\<exists>db s''. database_open p opts s' = (Inr db, s'') \<and> view db s'' \<in> A"
proof -
  note S = engine_sound [OF assms(1)]
  have "recoverable p w s' A" using sound_recoverable [OF S] assms(2) by (simp add: killed_def recoverable_def)
  moreover have "\<not> unsure s' p" "\<not> unsure s' w" using assms(2,4,5) by (simp_all add: killed_def unsure_def)
  ultimately obtain a where a: "a \<in> A" "at_rest p w s' a" using recoverable_at_rest by blast
  have "healthy s'" using assms(2,3) by (simp add: killed_def healthy_def)
  from database_open_run [OF this a(2) assms(6)] sound_env [OF S]
  obtain db s'' first where o: "database_open p opts s' = (Inr db, s'')" and inv: "db_inv p w db s'' a first []" by blast
  with a(1) db_inv_view [OF inv] show ?thesis by auto
qed

lemma db_inv_sure:
  assumes "db_inv p w db s a first rs"
  shows "\<not> unsure s p" and "\<not> unsure s w"
  using assms by (auto simp: db_inv_def wal_holds_def unsure_def)

theorem kill_keeps_commits_witness:
  "\<exists>db s. engine example_path example_wal_path (Open db (Some example_txn)) s {empty_db} \<and>
     (\<exists>db' s'. database_open example_path options_default s = (Inr db', s') \<and> view db' s' = empty_db)"
proof -
  obtain db s where e: "engine example_path example_wal_path (Open db (Some example_txn)) s {empty_db}" and up: "healthy s"
    using example_begin by blast
  obtain a first rs where inv: "db_inv example_path example_wal_path db s a first rs"
    using sound_writing [OF engine_sound [OF e]] by metis
  have "killed s s" "script s = []" using up by (simp_all add: killed_def healthy_def)
  from kill_keeps_commits [OF e this db_inv_sure [OF inv], of options_default] e show ?thesis
    by (auto simp: options_default_def)
qed

text \<open>
  C8: While a handle is usable its contents are exactly the ones the history determines, and they are
  well formed: there is a valid page for every id between the header and the page count, and no offset
  in the file wraps around.
\<close>
theorem usable_handle_shows_contents:
  assumes "engine p w (Open db t) s A" and "begin_read db = Inr ()"
  shows "A = {view db s} \<and> adb_ok (view db s)"
proof -
  have "\<not> db_poisoned db" using assms(2) by (simp add: begin_read_ok)
  then obtain a first rs where a: "A = {a}" "db_inv p w db s a first rs" using soundE [OF engine_sound [OF assms(1)]] by metis
  have "adb_ok a" using a(2) by (simp add: db_inv_def)
  with a db_inv_view [OF a(2)] show ?thesis by simp
qed

theorem usable_handle_shows_contents_witness:
  "\<exists>db s. begin_read db = Inr () \<and> {apply_txn example_txn empty_db} = {view db s} \<and> adb_ok (view db s)"
proof -
  obtain db s where e: "engine example_path example_wal_path (Open db None) s {apply_txn example_txn empty_db}"
    and ok: "begin_read db = Inr ()" using example_commit begin_read_ok by blast
  from usable_handle_shows_contents [OF e ok] ok show ?thesis by blast
qed



text \<open>
  C9: On a system without faults a commit of well-formed pages succeeds, whatever the history: the
  contents become what the transaction saw, sealed, and the handle stays usable, automatic
  checkpoint included.
\<close>
theorem commit_succeeds:
  assumes "engine p w (Open db (Some t)) s A" and "commit_fits t db" and "healthy s"
    and "\<forall>(pid, page) \<in> set (wt_dirty t). valid_page pid (seal page)"
  shows "\<exists>db' s'. commit t (db, s) = (Inr (), (db', s')) \<and> begin_read db' = Inr ()
    \<and> ad_count (view db' s') = wt_page_count t \<and> ad_pages (view db' s') = map_option seal \<circ> txn_pages t (view db s)"
proof -
  obtain a first rs where a: "db_inv p w db s a first rs" "txn_ok t a" using sound_writing [OF engine_sound [OF assms(1)]] by metis
  obtain r db' s' where c: "commit t (db, s) = (r, (db', s'))" by (metis surj_pair)
  have "r = Inr () \<and> (\<exists>first rs. db_inv p w db' s' (apply_txn t a) first rs)"
    using commit_any [OF a assms(2) healthy_whole [OF assms(3)] c] assms(3) seal_all_ok [OF assms(4)] by blast
  then obtain first' rs' where r: "r = Inr ()" and inv: "db_inv p w db' s' (apply_txn t a) first' rs'" by blast
  have "begin_read db' = Inr ()" using inv by (simp add: begin_read_ok db_inv_def)
  moreover have "adb_ok a" using a(1) by (simp add: db_inv_def)
  ultimately show ?thesis
    using c r db_inv_view [OF inv] db_inv_view [OF a(1)] apply_txn_pages [of a t] by (simp add: apply_txn_def)
qed

theorem commit_succeeds_witness:
  "\<exists>db s db' s'. commit example_txn (db, s) = (Inr (), (db', s')) \<and> begin_read db' = Inr () \<and> ad_count (view db' s') = 2"
proof -
  obtain db s where up: "healthy s" and e: "engine example_path example_wal_path (Open db (Some example_txn)) s {empty_db}"
    and fits: "commit_fits example_txn db" using example_begin by blast
  from commit_succeeds [OF e fits up example_sealed] show ?thesis by (auto simp: example_txn_def)
qed

text \<open>
  C11: A write transaction works on private copies. After a successful \<open>page_mut\<close> its own reads see the
  changed page and every other page as before, while the committed contents, which every other
  transaction reads, are the same as before.
\<close>
theorem transaction_sees_its_changes:
  assumes "engine p w (Open db (Some t)) s A"
    and "page_mut pid change (t, (db, s)) = (Inr (), (t', (db', s')))"
    and "write_txn_read_page t' q f (db', s') = (r, (db'', s''))"
  shows "\<exists>old. txn_pages t (view db s) pid = Some old \<and> view db'' s'' = view db s \<and>
    (case ((txn_pages t (view db s))(pid \<mapsto> change old)) q of
       None \<Rightarrow> \<exists>msg. r = Inl (InvalidArgument msg)
     | Some page \<Rightarrow> (case r of Inl e \<Rightarrow> q \<noteq> pid | Inr x \<Rightarrow> x = f page))"
proof -
  obtain a first rs where a: "db_inv p w db s a first rs" "txn_ok t a" using sound_writing [OF engine_sound [OF assms(1)]] by metis
  note M = open_db.page_mut_any [OF a assms(2)]
  then obtain old where old: "txn_pages t a pid = Some old" "txn_pages t' a = (txn_pages t a)(pid \<mapsto> change old)" by auto
  from M have a': "db_inv p w db' s' a first rs" "txn_ok t' a" by simp_all
  note R = open_db.write_read_any [OF a' assms(3)]
  have v: "view db s = a" "view db'' s'' = a" using db_inv_view [OF a(1)] db_inv_view R by blast+
  have own: "q \<noteq> pid" if "r = Inl e" "txn_pages t' a q = Some page" for e page
  proof
    assume "q = pid"
    have "check_data_page pid (wt_page_count t) = Inr () \<and> wt_page_count t' = wt_page_count t \<and> map_of (wt_dirty t') pid \<noteq> None"
      using assms(2) by (auto simp: page_mut_def split: sum.splits option.splits prod.splits)
    with assms(3) \<open>q = pid\<close> that(1) show False by (auto simp: write_txn_read_page_def)
  qed
  have "case txn_pages t' a q of None \<Rightarrow> \<exists>msg. r = Inl (InvalidArgument msg)
     | Some page \<Rightarrow> (case r of Inl e \<Rightarrow> q \<noteq> pid | Inr x \<Rightarrow> x = f page)"
    using R own by (cases r; cases "txn_pages t' a q") auto
  with old v show ?thesis by auto
qed

theorem transaction_sees_its_changes_witness:
  "\<exists>db s t. page_mut (PageId 1) (set_lsn 7) (example_txn, (db, s)) = (Inr (), (t, (db, s)))
     \<and> write_txn_read_page t (PageId 1) (\<lambda>page. page) (db, s) = (Inr (set_lsn 7 (page_new (PageId 1) Heap)), (db, s))
     \<and> view db s = empty_db"
proof -
  obtain db s where e: "engine example_path example_wal_path (Open db (Some example_txn)) s {empty_db}"
    using example_begin by blast
  obtain first rs where inv: "db_inv example_path example_wal_path db s empty_db first rs"
    using sound_writing [OF engine_sound [OF e]] by (metis singleton_inject)
  let ?t = "example_txn\<lparr>wt_dirty := [(PageId 1, set_lsn 7 (page_new (PageId 1) Heap))]\<rparr>"
  have two: "\<not> (2 :: u64) \<le> 1" by (simp add: word_le_nat_alt)
  have m: "page_mut (PageId 1) (set_lsn 7) (example_txn, (db, s)) = (Inr (), (?t, (db, s)))"
    by (simp add: page_mut_def check_data_page_def example_txn_def HEADER_def two)
  have r: "write_txn_read_page ?t (PageId 1) (\<lambda>page. page) (db, s) = (Inr (set_lsn 7 (page_new (PageId 1) Heap)), (db, s))"
    by (simp add: write_txn_read_page_def check_data_page_def example_txn_def HEADER_def two)
  from transaction_sees_its_changes [OF e m r] have "view db s = empty_db" using db_inv_view [OF inv] by simp
  with m r show ?thesis by blast
qed

text \<open>
  C12: On a system without faults a checkpoint succeeds. The contents stay, the log is empty, and
  the data file alone determines them, durably.
\<close>
theorem checkpoint_moves_log_into_file:
  assumes "engine p w (Open db None) s A" and "begin_read db = Inr ()" and "healthy s"
  shows "\<exists>db' s' n f. checkpoint (db, s) = (Inr (), (db', s')) \<and> view db' s' = view db s \<and> begin_read db' = Inr ()
    \<and> files s' w = Some (disk_file (wal_image n [])) \<and> files s' p = Some f \<and> survives (safe {} (view db s)) f"
proof -
  have ok: "\<not> db_poisoned db" using assms(2) by (simp add: begin_read_ok)
  then obtain a first rs where a: "db_inv p w db s a first rs" using soundE [OF engine_sound [OF assms(1)]] by metis
  from checkpoint_locked_ok [OF a assms(3)] obtain db' s' where c: "checkpoint_locked (db, s) = (Inr (), (db', s'))" by blast
  then have run: "checkpoint (db, s) = (Inr (), (db', s'))" using ok by (simp add: checkpoint_def check_poisoned_def)
  let ?n = "wal_next_seq (db_wal db)"
  have inv: "db_inv p w db' s' a ?n []" using checkpoint_locked_any [OF a healthy_whole [OF assms(3)] c] by simp
  then obtain f where "files s' p = Some f" "survives (safe (logged []) a) f" by (rule db_inv_file)
  then have f: "files s' p = Some f" "survives (safe {} a) f" by simp_all
  have "files s' w = Some (disk_file (wal_image ?n []))" "begin_read db' = Inr ()"
    using inv by (auto simp: begin_read_ok db_inv_def wal_holds_def)
  with run f db_inv_view [OF a] db_inv_view [OF inv] show ?thesis by auto
qed

theorem checkpoint_moves_log_into_file_witness:
  "\<exists>db s db' s'. checkpoint (db, s) = (Inr (), (db', s')) \<and> view db' s' = view db s
     \<and> (\<exists>n. files s' example_wal_path = Some (disk_file (wal_image n [])))"
proof -
  obtain db s where up: "healthy s" and e: "engine example_path example_wal_path (Open db None) s {apply_txn example_txn empty_db}"
    and ok: "begin_read db = Inr ()" using example_commit begin_read_ok by blast
  from checkpoint_moves_log_into_file [OF e ok up] show ?thesis by blast
qed

text \<open>
  C13: A commit that fails once it has begun to write leaves the handle poisoned, and from then on every
  new transaction, checkpoint and close is refused with the error that says so, touching nothing.
\<close>
theorem failed_commit_poisons:
  assumes "commit t (db, s) = (Inl e, (db', s'))" and "db' \<noteq> db \<or> s' \<noteq> s"
  shows "\<exists>msg. begin_read db' = Inl (Poisoned msg) \<and> begin_write db' = Inl (Poisoned msg)
    \<and> checkpoint (db', u) = (Inl (Poisoned msg), (db', u)) \<and> close (db', u) = (Inl (Poisoned msg), (db', u))"
proof -
  have "db_poisoned db'" using commit_error [OF assms(1)] assms(2) by blast
  then show ?thesis
    by (simp add: begin_read_def read_txn_new_def begin_write_def write_txn_new_def close_def checkpoint_def check_poisoned_def)
qed

text \<open>A handle on a file system that has just become full.\<close>

definition full_db :: database where
  "full_db = \<lparr>db_disk = \<lparr>dk_file = example_path, dk_page_count = 1\<rparr>, db_pool = [],
     db_auto_checkpoint_bytes = None, db_wal = example_wal\<lparr>wal_pending := []\<rparr>, db_next_txn = 1, db_poisoned = False,
     db_report = open_report_default\<rparr>"

lemma full_db_commit:
  "\<exists>e db' s'. commit example_txn (full_db, full_disk) = (Inl e, (db', s')) \<and> db_poisoned db'"
proof -
  let ?imgs = "commit_images (TxnId 1) True 2 [(PageId 1, seal (page_new (PageId 1) Heap))]"
  have h: "log_holds (wal_file example_wal) 0 full_disk (example_wal\<lparr>wal_pending := []\<rparr>, full_disk) [] []"
    using example_holds by (simp add: log_holds_def)
  from wl.for_each_app [OF this, of "?imgs @ [Commit (TxnId 1)]"] obtain w1 s1
    where app: "for_each (\<lambda>r. on_fst (wal_append r)) (?imgs @ [Commit (TxnId 1)]) (example_wal\<lparr>wal_pending := []\<rparr>, full_disk) = (Inr (), (w1, s1))"
      and w1: "log_holds (wal_file example_wal) 0 full_disk (w1, s1) [] (?imgs @ [Commit (TxnId 1)])" by fastforce
  have s1: "s1 = full_disk" by (rule for_each_on_fst [OF app])
  have pend: "wal_pending w1 \<noteq> []" "\<not> wal_poisoned w1" "wal_file w1 = [Normal ''log'']"
    using w1 encode_all_eq_Nil [of 0 "?imgs @ [Commit (TxnId 1)]"] by (auto simp: log_holds_def wal_holds_def example_wal_def)
  then have "\<exists>e w2 s2. wal_flush (w1, full_disk) = (Inl e, (w2, s2))"
    by (simp add: wal_flush_def wal_check_poisoned_def full_disk_def and_then_def write_all_at_def io_write_def next_outcome_def)
  then obtain e w2 s2 where "txn_log (TxnId 1) ?imgs (example_wal\<lparr>wal_pending := []\<rparr>, full_disk) = (Inl e, (w2, s2))"
    using app s1 by (auto simp: txn_log_group and_then_def)
  moreover have "seal_all (wt_dirty example_txn) = Inr [(PageId 1, seal (page_new (PageId 1) Heap))]"
    using seal_all_ok [OF example_sealed] by (simp add: example_txn_def)
  ultimately show ?thesis
    by (simp add: commit_def full_db_def next_txn_id_def disk_page_count_def on_wal_def poison_def Let_def)
      (simp add: example_txn_def poison_def)
qed

theorem failed_commit_poisons_witness:
  "\<exists>e db' s' msg. commit example_txn (full_db, full_disk) = (Inl e, (db', s')) \<and> begin_write db' = Inl (Poisoned msg)"
proof -
  obtain e db' s' where c: "commit example_txn (full_db, full_disk) = (Inl e, (db', s'))" and "db_poisoned db'"
    using full_db_commit by blast
  then have "db' \<noteq> full_db" by (auto simp: full_db_def)
  with failed_commit_poisons [OF c] c show ?thesis by blast
qed

text \<open>
  C14: An open write transaction is well formed, whatever it has read, changed and allocated and whatever has
  failed meanwhile: its private pages are ordered by page id with no id twice, all of them are data pages
  below its page count, and every page it has allocated is among them.
\<close>
theorem transaction_is_well_formed:
  assumes "engine p w (Open db (Some t)) s A"
  shows "sorted_wrt (<) (map fst (wt_dirty t)) \<and> database_page_count db \<le> write_txn_page_count t
    \<and> (\<forall>pid \<in> fst ` set (wt_dirty t). pid \<noteq> HEADER \<and> raw pid < write_txn_page_count t)
    \<and> (\<forall>pid. database_page_count db \<le> raw pid \<and> raw pid < write_txn_page_count t \<longrightarrow> map_of (wt_dirty t) pid \<noteq> None)"
proof -
  obtain a first rs where a: "db_inv p w db s a first rs" "txn_ok t a" using sound_writing [OF engine_sound [OF assms]] by metis
  then have n: "database_page_count db = ad_count a" by (simp add: db_inv_def database_page_count_def disk_page_count_def)
  have "pid \<in> fst ` set (wt_dirty t)" if "ad_count a \<le> raw pid" "raw pid < wt_page_count t" for pid
    using a(2) that unfolding txn_ok_def by blast
  then have "map_of (wt_dirty t) pid \<noteq> None" if "ad_count a \<le> raw pid" "raw pid < wt_page_count t" for pid
    using that by (simp add: map_of_eq_None_iff)
  with a(2) n show ?thesis by (auto simp: txn_ok_def bt_ordered_def write_txn_page_count_def)
qed

theorem transaction_is_well_formed_witness:
  "\<exists>db s. engine example_path example_wal_path (Open db (Some example_txn)) s {empty_db}
     \<and> database_page_count db \<le> write_txn_page_count example_txn"
proof -
  obtain db s where e: "engine example_path example_wal_path (Open db (Some example_txn)) s {empty_db}" using example_begin by blast
  with transaction_is_well_formed [OF e] show ?thesis by blast
qed

text \<open>
  C15: A transaction that leaves a page malformed is rejected before anything is logged: the
  error says so, and the database and the files are as they were.
\<close>
theorem malformed_page_is_rejected:
  assumes "(pid, page) \<in> set (wt_dirty t)" and "\<not> valid_page pid (seal page)"
  shows "\<exists>msg. commit t (db, s) = (Inl (InvalidArgument msg), (db, s))"
proof (cases "seal_all (wt_dirty t)")
  case (Inl e)
  then obtain msg where "e = InvalidArgument msg" using seal_all_Inl by blast
  with Inl assms(1) show ?thesis by (auto simp: commit_def)
next
  case (Inr dirty)
  from seal_all_Inr [OF this] assms show ?thesis by force
qed

theorem malformed_page_is_rejected_witness:
  "\<exists>msg. commit \<lparr>wt_dirty = [(PageId 1, page_new (PageId 2) Heap)], wt_page_count = 2\<rparr> (full_db, full_disk) =
    (Inl (InvalidArgument msg), (full_db, full_disk))"
proof (rule malformed_page_is_rejected)
  show "(PageId 1, page_new (PageId 2) Heap) \<in> set (wt_dirty \<lparr>wt_dirty = [(PageId 1, page_new (PageId 2) Heap)], wt_page_count = 2\<rparr>)"
    by simp
  have "get_page_id (seal (page_new (PageId 2) Heap)) = PageId 2" by (rule valid_page_id [OF valid_new_page])
  then show "\<not> valid_page (PageId 1) (seal (page_new (PageId 2) Heap))" using valid_page_id by fastforce
qed

text \<open>
  C16: Opening refuses instead of starting over: a path without a file name, a database that does not
  exist when it must not be created, and a log whose data file is missing are reported as invalid
  arguments, and no file is created or changed.
\<close>
theorem open_refuses:
  assumes "healthy s" and "files s p = None"
    and "file_name p = None \<or> \<not> op_create_if_missing opts \<or> (\<exists>w. wal_path_for p = Inr w \<and> files s w \<noteq> None)"
  shows "\<exists>msg. database_open p opts s = (Inl (InvalidArgument msg), s)"
proof -
  have "path_exists q s = (files s q \<noteq> None, s)" for q using assms(1) by (simp add: path_exists_def os_simps)
  with assms(2,3) show ?thesis
    by (auto simp: database_open_def and_then_def lift_res_def wal_path_for_def split: option.splits)
qed

theorem open_refuses_witness:
  "\<exists>msg. database_open [Normal ''log''] (options_default\<lparr>op_create_if_missing := False\<rparr>) new_os = (Inl (InvalidArgument msg), new_os)"
  by (rule open_refuses) simp_all

end
