(* ===== verification/Threads.thy ===== *)
theory Threads
  imports Crash_Safety
begin

text \<open>
  Several threads on one database handle. The locks of \<^verbatim>\<open>db/mod.rs\<close> and \<^verbatim>\<open>db/txn.rs\<close> are state: the
  mutex around the log, which a write transaction or checkpoint holds from beginning to end, and the lock
  \<^verbatim>\<open>publish\<close>, which read transactions share and publishing a commit takes alone. Each thread is at one
  point of the code it runs, and a step relation interleaves them: a step is what one thread does between
  two of the places where another can come in. Calls into the buffer pool are single steps, so its own locks
  are not part of the state. What \<^verbatim>\<open>db/txn.rs\<close> promises under ``Isolation'' is proved in the next theory.
\<close>

section \<open>Definitions\<close>

text \<open>
  Where a thread is. \<open>Reading\<close> remembers what was committed when the transaction got its lock (nothing
  if a commit had failed to publish by then), \<open>Writing\<close> and what follows it what was committed when the
  transaction began; the code does not look at either.
\<close>

datatype point =
    Idle
  | Read_Checked
  | Reading "adb option"
  | Write_Checked
  | Write_Locked
  | Writing write_txn adb
  | Logged write_txn adb "wal_record list"
  | Publishing write_txn adb "wal_record list"
  | Publish_Done bool
  | Published
  | Failing
  | Checkpoint_Checked
  | Checkpoint_Locked
  | Releasing

text \<open>
  The handle and the system that the threads share, who holds which lock, and where each thread is.
  \<open>wd_committed\<close> is the contents that the commits published so far have made, \<open>wd_broken\<close> whether
  one has failed to publish.
\<close>

record world =
  wd_db :: database
  wd_os :: os
  wd_wal_lock :: "nat option"
  wd_readers :: "nat set"
  wd_publisher :: "nat option"
  wd_at :: "nat \<Rightarrow> point"
  wd_committed :: adb
  wd_broken :: bool

definition start_world :: "database \<Rightarrow> os \<Rightarrow> world" where
  "start_world db s = \<lparr>wd_db = db, wd_os = s, wd_wal_lock = None, wd_readers = {}, wd_publisher = None,
     wd_at = (\<lambda>_. Idle), wd_committed = view db s, wd_broken = False\<rparr>"

text \<open>The locks: \<open>None\<close> when the thread has to wait.\<close>

definition lock_wal :: "nat \<Rightarrow> world \<Rightarrow> world option" where
  "lock_wal i x = (if wd_wal_lock x = None then Some (x\<lparr>wd_wal_lock := Some i\<rparr>) else None)"

definition publish_read :: "nat \<Rightarrow> world \<Rightarrow> world option" where
  "publish_read i x = (if wd_publisher x = None then Some (x\<lparr>wd_readers := insert i (wd_readers x)\<rparr>) else None)"

definition publish_write :: "nat \<Rightarrow> world \<Rightarrow> world option" where
  "publish_write i x =
     (if wd_publisher x = None \<and> wd_readers x = {} then Some (x\<lparr>wd_publisher := Some i\<rparr>) else None)"

text \<open>An operation on what the threads share, and a thread going to another point.\<close>

definition on_shared :: "(database \<times> os, error, 'a) prog \<Rightarrow> world \<Rightarrow> 'a result \<times> world" where
  "on_shared m x = (case m (wd_db x, wd_os x) of (r, (db, s)) \<Rightarrow> (r, x\<lparr>wd_db := db, wd_os := s\<rparr>))"

definition goto :: "nat \<Rightarrow> point \<Rightarrow> world \<Rightarrow> world" where
  "goto i c x = x\<lparr>wd_at := (wd_at x)(i := c)\<rparr>"

text \<open>
  The steps of thread \<open>i\<close>: read transactions, write transactions, checkpoints. Page ids, transaction ids
  and the log's length stay within 64 bits, as in the histories of a single thread. A lock is released
  where its guard goes out of scope: \<^verbatim>\<open>_snapshot\<close> with the read transaction, \<^verbatim>\<open>_exclusive\<close> at the end of
  \<^verbatim>\<open>publish\<close> and so before a failure is seen by \<^verbatim>\<open>commit\<close>, the log's guard with the write transaction.
\<close>

inductive step :: "nat \<Rightarrow> world \<Rightarrow> world \<Rightarrow> bool" for i where
  read_check: "wd_at x i = Idle \<Longrightarrow> check_poisoned (wd_db x) = Inr () \<Longrightarrow> step i x (goto i Read_Checked x)"
| read_lock: "wd_at x i = Read_Checked \<Longrightarrow> publish_read i x = Some y \<Longrightarrow>
    step i x (goto i (Reading (if wd_broken x then None else Some (wd_committed x))) y)"
| read_page: "wd_at x i = Reading a \<Longrightarrow> on_shared (read_txn_read_page pid (\<lambda>page. page)) x = (r, y) \<Longrightarrow> step i x y"
| read_end: "wd_at x i = Reading a \<Longrightarrow> step i x (goto i Idle (x\<lparr>wd_readers := wd_readers x - {i}\<rparr>))"
| write_check: "wd_at x i = Idle \<Longrightarrow> check_poisoned (wd_db x) = Inr () \<Longrightarrow> step i x (goto i Write_Checked x)"
| write_lock: "wd_at x i = Write_Checked \<Longrightarrow> lock_wal i x = Some y \<Longrightarrow> step i x (goto i Write_Locked y)"
| write_refused: "wd_at x i = Write_Locked \<Longrightarrow> check_poisoned (wd_db x) = Inl e \<Longrightarrow> step i x (goto i Releasing x)"
| write_started: "wd_at x i = Write_Locked \<Longrightarrow> check_poisoned (wd_db x) = Inr () \<Longrightarrow>
    step i x (goto i (Writing \<lparr>wt_dirty = [], wt_page_count = disk_page_count (db_disk (wd_db x))\<rparr> (wd_committed x)) x)"
| write_read: "wd_at x i = Writing t a \<Longrightarrow>
    on_shared (write_txn_read_page t pid (\<lambda>page. page)) x = (r, y) \<Longrightarrow> step i x y"
| write_change: "wd_at x i = Writing t a \<Longrightarrow> page_mut pid f (t, (wd_db x, wd_os x)) = (r, (t', (db, s))) \<Longrightarrow>
    step i x (goto i (Writing t' a) (x\<lparr>wd_db := db, wd_os := s\<rparr>))"
| write_allocate: "wd_at x i = Writing t a \<Longrightarrow> unat (wt_page_count t) < 2 ^ 64 - 1 \<Longrightarrow>
    allocate_page ty t = (pid, t') \<Longrightarrow> step i x (goto i (Writing t' a) x)"
| write_rollback: "wd_at x i = Writing t a \<Longrightarrow> step i x (goto i Releasing x)"
| commit_empty: "wd_at x i = Writing t a \<Longrightarrow> wt_dirty t = [] \<Longrightarrow> step i x (goto i Releasing x)"
| commit_malformed: "wd_at x i = Writing t a \<Longrightarrow> wt_dirty t \<noteq> [] \<Longrightarrow> seal_all (wt_dirty t) = Inl e \<Longrightarrow>
    step i x (goto i Releasing x)"
| commit_log: "wd_at x i = Writing t a \<Longrightarrow> wt_dirty t \<noteq> [] \<Longrightarrow> seal_all (wt_dirty t) = Inr dirty \<Longrightarrow>
    commit_fits t (wd_db x) \<Longrightarrow> on_shared (log_commit t dirty) x = (r, y) \<Longrightarrow>
    step i x (goto i (case r of Inl e \<Rightarrow> Failing | Inr imgs \<Rightarrow> Logged t a imgs) y)"
| publish_lock: "wd_at x i = Logged t a imgs \<Longrightarrow> publish_write i x = Some y \<Longrightarrow> step i x (goto i (Publishing t a imgs) y)"
| publish_pages: "wd_at x i = Publishing t a imgs \<Longrightarrow> on_shared (publish (wt_page_count t) imgs) x = (r, y) \<Longrightarrow>
    step i x (goto i (Publish_Done (is_ok r))
      (y\<lparr>wd_committed := if is_ok r then apply_txn t (wd_committed x) else wd_committed x,
         wd_broken := wd_broken x \<or> \<not> is_ok r\<rparr>))"
| publish_unlock: "wd_at x i = Publish_Done b \<Longrightarrow>
    step i x (goto i (if b then Published else Failing) (x\<lparr>wd_publisher := None\<rparr>))"
| commit_poison: "wd_at x i = Failing \<Longrightarrow> step i x (goto i Releasing (x\<lparr>wd_db := poison (wd_db x)\<rparr>))"
| commit_end: "wd_at x i = Published \<Longrightarrow> on_shared maybe_auto_checkpoint x = (r, y) \<Longrightarrow> step i x (goto i Releasing y)"
| checkpoint_check: "wd_at x i = Idle \<Longrightarrow> check_poisoned (wd_db x) = Inr () \<Longrightarrow> step i x (goto i Checkpoint_Checked x)"
| checkpoint_lock: "wd_at x i = Checkpoint_Checked \<Longrightarrow> lock_wal i x = Some y \<Longrightarrow> step i x (goto i Checkpoint_Locked y)"
| checkpoint_run: "wd_at x i = Checkpoint_Locked \<Longrightarrow> on_shared checkpoint_locked x = (r, y) \<Longrightarrow> step i x (goto i Releasing y)"
| release: "wd_at x i = Releasing \<Longrightarrow> step i x (goto i Idle (x\<lparr>wd_wal_lock := None\<rparr>))"

abbreviation steps :: "world \<Rightarrow> world \<Rightarrow> bool" where
  "steps \<equiv> (\<lambda>x y. \<exists>i. step i x y)\<^sup>*\<^sup>*"

text \<open>The runs: any history gives a usable handle, and from then on threads share it.\<close>

inductive runs :: "path \<Rightarrow> path \<Rightarrow> world \<Rightarrow> bool" for p w where
  opened: "engine p w (Open db None) s A \<Longrightarrow> begin_read db = Inr () \<Longrightarrow> runs p w (start_world db s)"
| stepped: "runs p w x \<Longrightarrow> step i x y \<Longrightarrow> runs p w y"

section \<open>What a shared handle keeps\<close>

text \<open>
  The cache, the page count and the data file show the contents \<open>a\<close>. This is what is left of the invariant
  of an open database when nothing is said of the log, so it still holds once the handle is poisoned.
\<close>

definition cache_ok :: "path \<Rightarrow> path \<Rightarrow> database \<Rightarrow> os \<Rightarrow> adb \<Rightarrow> bool" where
  "cache_ok p w db s a \<longleftrightarrow> p \<noteq> w \<and> dk_file (db_disk db) = p \<and> wal_file (db_wal db) = w \<and>
     dk_page_count (db_disk db) = ad_count a \<and> adb_ok a \<and> idle_pool (db_pool db) \<and>
     pool_inv (db_disk db) (\<lambda>_. True) UNIV (ad_pages a) (db_pool db, s)"

lemma db_inv_cache_ok: "db_inv p w db s a first rs \<Longrightarrow> cache_ok p w db s a"
  by (auto simp: db_inv_def cache_ok_def elim: pool_inv_weaken)

lemma cache_ok_view: "cache_ok p w db s a \<Longrightarrow> view db s = a"
  by (rule pool_inv_view [of db "\<lambda>_. True" UNIV]) (simp_all add: cache_ok_def)

lemma any_cache_ctx: "adb_ok a \<Longrightarrow> dk_page_count d = ad_count a \<Longrightarrow> cache_ctx d (\<lambda>_. True) UNIV (ad_pages a)"
  using adb_ok_page [of a] by (auto simp: cache_ctx_def disk_addr_def write_closed_def)

lemma cache_ok_ctx: "cache_ok p w db s a \<Longrightarrow> cache_ctx (db_disk db) (\<lambda>_. True) UNIV (ad_pages a)"
  by (rule any_cache_ctx) (simp_all add: cache_ok_def)

text \<open>Nothing else matters: the log, the next transaction id, the poison flag, other files.\<close>

lemma cache_ok_other:
  assumes "cache_ok p w db s a" and "db_disk db' = db_disk db" and "db_pool db' = db_pool db"
    and "wal_file (db_wal db') = w" and "files s' p = files s p"
  shows "cache_ok p w db' s' a"
  using assms by (clarsimp simp: cache_ok_def pool_inv_def file_inv_def)

interpretation shared_db: readable "cache_ok p w" for p w
proof unfold_locales
  show "dk_page_count (db_disk db) = ad_count a" "adb_ok a" if "cache_ok p w db s a" for db s a
    using that by (simp_all add: cache_ok_def)
next
  fix db s a pid x r db' s'
  assume ok: "cache_ok p w db s a" and page: "ad_pages a pid = Some x"
    and run: "on_pool (\<lambda>d. read_through d pid) (db, s) = (r, (db', s'))"
  obtain pool where rd: "read_through (db_disk db) pid (db_pool db, s) = (r, (pool, s'))" and db': "db' = db\<lparr>db_pool := pool\<rparr>"
    using run by (auto simp: on_pool_def split: prod.splits)
  have "cache_state (db_disk db) (\<lambda>_. True) UNIV s (ad_pages a) (db_pool db, s)"
    using cache_ok_ctx [OF ok] ok by (simp add: cache_state_def cache_ok_def)
  from pc.get_any [OF this page rd] keeps_script ok
  show "cache_ok p w db' s' a \<and> set (script s') \<subseteq> set (script s) \<and> db' = db\<lparr>db_pool := db_pool db'\<rparr> \<and> (\<forall>q. r = Inr q \<longrightarrow> q = x)"
    by (auto simp: cache_state_def cache_ok_def db')
qed

text \<open>Writing the log changes no other file.\<close>

lemma io_write_touches: "io_write q d e c s = (r, s') \<Longrightarrow> touches q s s'"
  by (auto simp: io_write_def next_outcome_def touches_def Let_def split: if_splits list.splits outcome.splits option.splits)

lemma wal_writes_touch:
  "write_all_at q data off s = (r, s') \<Longrightarrow> touches q s s'" "set_file_len q n s = (r, s') \<Longrightarrow> touches q s s'"
  "sync_all q s = (r, s') \<Longrightarrow> touches q s s'"
  by (simp_all add: write_all_at_def set_file_len_def sync_all_def io_write_touches)

lemma and_then_touches:
  assumes "and_then m f s = (r, s')" and "\<And>r t. m s = (r, t) \<Longrightarrow> touches q s t"
    and "\<And>x r t u. f x t = (r, u) \<Longrightarrow> touches q t u"
  shows "touches q s s'"
  using assms by (auto simp: and_then_def split: prod.splits sum.splits intro: touches_trans)

lemma wal_flush_touches: "wal_flush (wl, s) = (r, (wl', s')) \<Longrightarrow> touches (wal_file wl) s s' \<and> wal_file wl' = wal_file wl"
  by (auto simp: wal_flush_def split: sum.splits if_splits prod.splits
      elim!: and_then_touches intro: wal_writes_touch)

lemma wal_reset_touches: "wal_reset (wl, s) = (r, (wl', s')) \<Longrightarrow> touches (wal_file wl) s s' \<and> wal_file wl' = wal_file wl"
  by (auto simp: wal_reset_def split: sum.splits if_splits prod.splits
      elim!: and_then_touches intro: wal_writes_touch)

lemma wal_append_file: "wal_append r wl = (q, wl') \<Longrightarrow> wal_file wl' = wal_file wl"
  by (auto simp: wal_append_def Let_def split: sum.splits)

lemma append_all_file: "for_each (\<lambda>r. on_fst (wal_append r)) rs (wl, s) = (q, (wl', s')) \<Longrightarrow> wal_file wl' = wal_file wl \<and> s' = s"
  by (induction rs arbitrary: wl)
    (auto simp: and_then_def ok_def on_fst_def split: prod.splits sum.splits dest!: wal_append_file)

lemma txn_log_touches:
  assumes "txn_log txn imgs (wl, s) = (r, (wl', s'))"
  shows "touches (wal_file wl) s s' \<and> wal_file wl' = wal_file wl"
  using assms
  by (auto simp: txn_log_def and_then_def on_fst_def split: prod.splits sum.splits
      dest!: append_all_file wal_append_file wal_flush_touches)

lemma log_commit_cache_ok:
  assumes ok: "cache_ok p w db s a" and run: "log_commit t dirty (db, s) = (r, (db', s'))"
  shows "cache_ok p w db' s' a
    \<and> (\<forall>imgs. r = Inr imgs \<longrightarrow> (\<exists>txn grew. imgs = commit_images txn grew (wt_page_count t) dirty))"
proof -
  have w: "wal_file (db_wal db) = w" "p \<noteq> w" using ok by (simp_all add: cache_ok_def)
  obtain txn grew wl where tl: "\<exists>r. txn_log txn (commit_images txn grew (wt_page_count t) dirty) (db_wal db, s) = (r, (wl, s'))"
    and db': "db' = db\<lparr>db_next_txn := db_next_txn db + 1, db_wal := wl\<rparr>"
    and r: "\<forall>imgs. r = Inr imgs \<longrightarrow> imgs = commit_images txn grew (wt_page_count t) dirty"
    using run by (auto simp: log_commit_def next_txn_id_def on_wal_def Let_def split: prod.splits sum.splits)
  from tl txn_log_touches have "touches w s s'" "wal_file wl = w" using w(1) by blast+
  with cache_ok_other [OF ok, of db' s'] w(2) db' r show ?thesis by (auto simp: touches_def)
qed

lemma publish_cache_ok:
  assumes ok: "cache_ok p w db s a" and txn: "txn_ok t a" "unat (wt_page_count t) < 2 ^ 52"
    and seal: "seal_all (wt_dirty t) = Inr dirty"
    and run: "publish (wt_page_count t) (commit_images txn grew n dirty) (db, s) = (r, (db', s'))" and "r = Inr ()"
  shows "cache_ok p w db' s' (apply_txn t a)"
proof -
  let ?d = "(db_disk db)\<lparr>dk_page_count := wt_page_count t\<rparr>" and ?a = "apply_txn t a"
  have a: "adb_ok a" using ok by (simp add: cache_ok_def)
  have a': "adb_ok ?a" by (rule apply_txn_ok [OF a txn(1) seal txn(2)])
  have "cache_ctx ?d (\<lambda>_. True) UNIV (ad_pages ?a)" by (rule any_cache_ctx [OF a']) (simp add: apply_txn_def)
  then obtain pool' where "db' = db\<lparr>db_disk := ?d, db_pool := pool'\<rparr>" "idle_pool pool'"
    "pool_inv ?d (\<lambda>_. True) UNIV (ad_pages ?a) (pool', s')"
    using publish_any [OF a a' txn(1) seal _ _ _ _ _ _ run, of UNIV "db_disk db" "\<lambda>_. True"] ok assms(6)
    by (auto simp: cache_ok_def)
  with ok a' show ?thesis by (simp add: cache_ok_def apply_txn_def)
qed

text \<open>A checkpoint, whether it succeeds or not, changes nothing that can be read.\<close>

lemma checkpoint_cache_ok:
  assumes ok: "cache_ok p w db s a" and run: "checkpoint_locked (db, s) = (r, (db', s'))"
  shows "cache_ok p w db' s' a"
proof -
  let ?d = "db_disk db"
  have b: "p \<noteq> w" "dk_file ?d = p" "dk_page_count ?d = ad_count a" "adb_ok a" "wal_file (db_wal db) = w"
    and pool: "pool_inv ?d (\<lambda>_. True) UNIV (ad_pages a) (db_pool db, s)" and idle: "idle_pool (db_pool db)"
    using ok by (simp_all add: cache_ok_def)
  obtain r1 pool1 s1 where fl: "flush_all ?d (db_pool db, s) = (r1, (pool1, s1))" by (metis surj_pair)
  have F: "pool_inv ?d (\<lambda>_. True) UNIV (ad_pages a) (pool1, s1)" "idle_pool pool1" "r1 = Inr () \<Longrightarrow> \<forall>i pid. \<not> dirty_at pool1 i pid"
    using flush_all_any [OF cache_ok_ctx [OF ok] pool fl] flush_all_idle [OF cache_ok_ctx [OF ok] pool idle fl] by simp_all
  obtain r2 s2 where hs: "and_then (write_file_header ?d) (\<lambda>_. disk_sync ?d) s1 = (r2, s2)" by fastforce
  have "HEADER \<notin> dom (ad_pages a)" using adb_ok_page(2) [OF b(4)] by blast
  from checkpoint_file [OF b(2,3) this F(3) F(1) _ hs]
  have H: "pool_inv ?d (\<lambda>_. True) UNIV (ad_pages a) (pool1, s2)" if "r1 = Inr ()" using that by (simp add: write_closed_def)
  obtain r3 wl s3 where rs: "wal_reset (db_wal db, s2) = (r3, (wl, s3))" by (metis surj_pair)
  have R: "files s3 p = files s2 p" "wal_file wl = w" using wal_reset_touches [OF rs] b by (auto simp: touches_def)
  have mid: "cache_ok p w (db\<lparr>db_pool := pool1\<rparr>) t a" if "pool_inv ?d (\<lambda>_. True) UNIV (ad_pages a) (pool1, t)" for t
    using that F(2) ok by (simp add: cache_ok_def)
  have "\<exists>db1. (\<exists>r. write_checkpoint (db, s) = (r, (db1, s'))) \<and> db_disk db' = db_disk db1 \<and> db_pool db' = db_pool db1 \<and> db_wal db' = db_wal db1"
    using run by (auto simp: checkpoint_locked_def poison_def split: prod.splits sum.splits)
  then obtain r0 db1 where wc: "write_checkpoint (db, s) = (r0, (db1, s'))"
    and same: "db_disk db' = db_disk db1" "db_pool db' = db_pool db1" "db_wal db' = db_wal db1" by blast
  have "write_checkpoint (db, s) = (case r1 of Inl e \<Rightarrow> (Inl e, (db\<lparr>db_pool := pool1\<rparr>, s1)) | Inr _ \<Rightarrow>
      (case r2 of Inl e \<Rightarrow> (Inl e, (db\<lparr>db_pool := pool1\<rparr>, s2)) | Inr _ \<Rightarrow> (r3, (db\<lparr>db_pool := pool1, db_wal := wl\<rparr>, s3))))"
    using fl hs rs by (auto simp: write_checkpoint_def and_then_def on_pool_def on_disk_def on_wal_def split: sum.splits prod.splits)
  then have ck: "cache_ok p w db1 s' a"
    using wc mid [OF F(1)] mid [OF H] R cache_ok_other [OF mid [OF H], of "db\<lparr>db_pool := pool1, db_wal := wl\<rparr>" s3]
    by (auto split: sum.splits)
  then have "wal_file (db_wal db1) = w" by (simp add: cache_ok_def)
  with cache_ok_other [OF ck] same show ?thesis by simp
qed

lemma auto_checkpoint_cache_ok:
  "cache_ok p w db s a \<Longrightarrow> maybe_auto_checkpoint (db, s) = (r, (db', s')) \<Longrightarrow> cache_ok p w db' s' a"
  by (auto simp: maybe_auto_checkpoint_def split: option.splits if_splits dest: checkpoint_cache_ok)

end
