(* ===== verification/Isolation.thy ===== *)
theory Isolation
  imports Threads
begin

text \<open>
  What the locks give: read transactions see one committed state, write transactions run one after
  another and build on what the last one made, and no thread waits forever for the others.
\<close>

section \<open>The invariant of a run\<close>

fun holds_wal :: "point \<Rightarrow> bool" where
  "holds_wal Idle = False"
| "holds_wal Read_Checked = False"
| "holds_wal (Reading _) = False"
| "holds_wal Write_Checked = False"
| "holds_wal Checkpoint_Checked = False"
| "holds_wal _ = True"

fun holds_publish :: "point \<Rightarrow> bool" where
  "holds_publish (Publishing _ _ _) = True"
| "holds_publish (Publish_Done _) = True"
| "holds_publish _ = False"

fun holds_snapshot :: "point \<Rightarrow> bool" where
  "holds_snapshot (Reading _) = True"
| "holds_snapshot _ = False"

definition locks_ok :: "world \<Rightarrow> bool" where
  "locks_ok x \<longleftrightarrow> (\<forall>i. holds_wal (wd_at x i) \<longleftrightarrow> wd_wal_lock x = Some i) \<and>
     (\<forall>i. holds_publish (wd_at x i) \<longleftrightarrow> wd_publisher x = Some i) \<and>
     (\<forall>i. holds_snapshot (wd_at x i) \<longleftrightarrow> i \<in> wd_readers x) \<and> (wd_publisher x = None \<or> wd_readers x = {})"

text \<open>What a transaction remembers is what is committed now, and nothing has failed to publish.\<close>

definition ready :: "write_txn \<Rightarrow> wal_record list \<Rightarrow> bool" where
  "ready t imgs \<longleftrightarrow> unat (wt_page_count t) < 2 ^ 52 \<and>
     (\<exists>dirty txn grew. seal_all (wt_dirty t) = Inr dirty \<and> imgs = commit_images txn grew (wt_page_count t) dirty)"

fun point_ok :: "adb \<Rightarrow> bool \<Rightarrow> point \<Rightarrow> bool" where
  "point_ok a broken (Reading (Some snap)) \<longleftrightarrow> \<not> broken \<and> snap = a"
| "point_ok a broken (Writing t base) \<longleftrightarrow> \<not> broken \<and> base = a \<and> txn_ok t a"
| "point_ok a broken (Logged t base imgs) \<longleftrightarrow> \<not> broken \<and> base = a \<and> txn_ok t a \<and> ready t imgs"
| "point_ok a broken (Publishing t base imgs) \<longleftrightarrow> \<not> broken \<and> base = a \<and> txn_ok t a \<and> ready t imgs"
| "point_ok a broken _ \<longleftrightarrow> True"

definition poison_ok :: "world \<Rightarrow> bool" where
  "poison_ok x \<longleftrightarrow> (wd_broken x \<longrightarrow> db_poisoned (wd_db x) \<or> (\<exists>i. wd_at x i = Publish_Done False \<or> wd_at x i = Failing))"

definition world_ok :: "path \<Rightarrow> path \<Rightarrow> world \<Rightarrow> bool" where
  "world_ok p w x \<longleftrightarrow> locks_ok x \<and> poison_ok x \<and> finite {i. wd_at x i \<noteq> Idle} \<and>
     (wd_broken x \<or> cache_ok p w (wd_db x) (wd_os x) (wd_committed x)) \<and>
     (\<forall>i. point_ok (wd_committed x) (wd_broken x) (wd_at x i))"

lemma goto_simps [simp]:
  "wd_db (goto i c x) = wd_db x" "wd_os (goto i c x) = wd_os x" "wd_wal_lock (goto i c x) = wd_wal_lock x"
  "wd_readers (goto i c x) = wd_readers x" "wd_publisher (goto i c x) = wd_publisher x"
  "wd_committed (goto i c x) = wd_committed x" "wd_broken (goto i c x) = wd_broken x"
  "wd_at (goto i c x) = (wd_at x)(i := c)"
  by (simp_all add: goto_def)

lemma on_sharedD:
  "on_shared m x = (r, y) \<Longrightarrow> \<exists>db s. y = x\<lparr>wd_db := db, wd_os := s\<rparr> \<and> m (wd_db x, wd_os x) = (r, (db, s))"
  by (auto simp: on_shared_def split: prod.splits)

lemmas lock_defs = lock_wal_def publish_read_def publish_write_def

text \<open>A step moves one thread, which takes and gives back locks as its points say.\<close>

definition relocks :: "nat \<Rightarrow> world \<Rightarrow> world \<Rightarrow> bool" where
  "relocks i x y \<longleftrightarrow> (\<forall>j. j \<noteq> i \<longrightarrow> wd_at y j = wd_at x j) \<and>
     wd_wal_lock y = (if holds_wal (wd_at y i) then Some i else if holds_wal (wd_at x i) then None else wd_wal_lock x) \<and>
     wd_publisher y = (if holds_publish (wd_at y i) then Some i else if holds_publish (wd_at x i) then None else wd_publisher x) \<and>
     wd_readers y = (if holds_snapshot (wd_at y i) then insert i (wd_readers x) else wd_readers x - {i}) \<and>
     (holds_wal (wd_at y i) \<and> \<not> holds_wal (wd_at x i) \<longrightarrow> wd_wal_lock x = None) \<and>
     (holds_publish (wd_at y i) \<and> \<not> holds_publish (wd_at x i) \<longrightarrow> wd_publisher x = None \<and> wd_readers x = {}) \<and>
     (holds_snapshot (wd_at y i) \<and> \<not> holds_snapshot (wd_at x i) \<longrightarrow> wd_publisher x = None)"

lemma lock_moved:
  assumes "\<And>k. hx k \<longleftrightarrow> lx = Some k" and "\<And>k. k \<noteq> i \<Longrightarrow> hy k = hx k"
    and "ly = (if hy i then Some i else if hx i then None else lx)" and "hy i \<and> \<not> hx i \<longrightarrow> lx = None"
  shows "hy j \<longleftrightarrow> ly = Some j"
  using assms by (cases "j = i") auto

lemma exclusive_moved:
  assumes "px \<longleftrightarrow> lx = Some i" and "sx \<longleftrightarrow> i \<in> Rx" and "lx = None \<or> Rx = {}" and "\<not> (py \<and> sy)"
    and ly: "ly = (if py then Some i else if px then None else lx)" and Ry: "Ry = (if sy then insert i Rx else Rx - {i})"
    and "py \<and> \<not> px \<longrightarrow> lx = None \<and> Rx = {}" and "sy \<and> \<not> sx \<longrightarrow> lx = None"
  shows "ly = None \<or> Ry = {}"
proof (cases sy)
  case True
  then have "lx = None" using assms(2,3,8) by blast
  with True assms(4) show ?thesis by (simp add: ly)
next
  case False
  have "Rx = {}" if py using that assms(1,3,7) by blast
  with False assms(3) show ?thesis by (auto simp: ly Ry)
qed

lemma relocks_ok:
  assumes r: "relocks i x y" and ok: "locks_ok x"
  shows "locks_ok y"
proof -
  have same: "wd_at y j = wd_at x j" if "j \<noteq> i" for j using r that by (simp add: relocks_def)
  have "holds_wal (wd_at y j) \<longleftrightarrow> wd_wal_lock y = Some j" for j
    by (rule lock_moved [of "\<lambda>j. holds_wal (wd_at x j)" "wd_wal_lock x" i "\<lambda>j. holds_wal (wd_at y j)"])
      (use r ok same in \<open>simp_all add: relocks_def locks_ok_def\<close>)
  moreover have "holds_publish (wd_at y j) \<longleftrightarrow> wd_publisher y = Some j" for j
    by (rule lock_moved [of "\<lambda>j. holds_publish (wd_at x j)" "wd_publisher x" i "\<lambda>j. holds_publish (wd_at y j)"])
      (use r ok same in \<open>simp_all add: relocks_def locks_ok_def\<close>)
  moreover have "holds_snapshot (wd_at y j) \<longleftrightarrow> j \<in> wd_readers y" for j
    using r ok same [of j] by (cases "j = i") (simp_all add: relocks_def locks_ok_def)
  moreover have "wd_publisher y = None \<or> wd_readers y = {}"
  proof (rule exclusive_moved)
    show "holds_publish (wd_at x i) \<longleftrightarrow> wd_publisher x = Some i" "holds_snapshot (wd_at x i) \<longleftrightarrow> i \<in> wd_readers x"
      "wd_publisher x = None \<or> wd_readers x = {}" using ok by (simp_all add: locks_ok_def)
    show "\<not> (holds_publish (wd_at y i) \<and> holds_snapshot (wd_at y i))" by (cases "wd_at y i") simp_all
  qed (use r in \<open>simp_all add: relocks_def\<close>)
  ultimately show ?thesis by (simp add: locks_ok_def)
qed

lemma step_relocks:
  assumes "step i x y" and "locks_ok x"
  shows "relocks i x y"
proof -
  have "holds_wal (wd_at x i) \<longleftrightarrow> wd_wal_lock x = Some i" "holds_publish (wd_at x i) \<longleftrightarrow> wd_publisher x = Some i"
    "holds_snapshot (wd_at x i) \<longleftrightarrow> i \<in> wd_readers x" using assms(2) by (simp_all add: locks_ok_def)
  with assms(1) show ?thesis
    by cases (auto simp: relocks_def lock_defs dest!: on_sharedD split: if_splits sum.splits)
qed

lemma finite_step: "step i x y \<Longrightarrow> finite {i. wd_at x i \<noteq> Idle} \<Longrightarrow> finite {i. wd_at y i \<noteq> Idle}"
proof -
  assume "step i x y" "finite {i. wd_at x i \<noteq> Idle}"
  moreover from this(1) have "{i. wd_at y i \<noteq> Idle} \<subseteq> insert i {i. wd_at x i \<noteq> Idle}"
    by cases (auto simp: lock_defs dest!: on_sharedD split: if_splits)
  ultimately show ?thesis using finite_subset by blast
qed

lemma point_ok_free: "\<not> holds_wal c \<Longrightarrow> \<not> holds_snapshot c \<Longrightarrow> point_ok a broken c"
  by (cases c) simp_all

text \<open>A step that publishes nothing keeps the invariant if it keeps its own part of it.\<close>

lemma world_okI:
  assumes ok: "world_ok p w x" and st: "step i x y"
    and same: "wd_committed y = wd_committed x" "wd_broken y = wd_broken x"
    and "\<not> wd_broken x \<Longrightarrow> cache_ok p w (wd_db y) (wd_os y) (wd_committed x)"
    and "point_ok (wd_committed x) (wd_broken x) (wd_at y i)"
    and keep: "wd_broken x \<Longrightarrow> db_poisoned (wd_db x) \<Longrightarrow> db_poisoned (wd_db y)"
    and fail: "wd_at x i = Publish_Done False \<or> wd_at x i = Failing \<Longrightarrow> db_poisoned (wd_db y) \<or> wd_at y i = Failing"
  shows "world_ok p w y"
proof -
  have l: "locks_ok x" using ok by (simp add: world_ok_def)
  have other: "wd_at y j = wd_at x j" if "j \<noteq> i" for j using step_relocks [OF st l] that by (simp add: relocks_def)
  have "point_ok (wd_committed y) (wd_broken y) (wd_at y j)" for j
    using assms(6) other [of j] ok by (cases "j = i") (simp_all add: same world_ok_def)
  moreover have "poison_ok y"
    unfolding poison_ok_def same
  proof
    assume b: "wd_broken x"
    with ok consider "db_poisoned (wd_db x)" | j where "wd_at x j = Publish_Done False \<or> wd_at x j = Failing"
      by (auto simp: world_ok_def poison_ok_def)
    then show "db_poisoned (wd_db y) \<or> (\<exists>i. wd_at y i = Publish_Done False \<or> wd_at y i = Failing)"
    proof cases
      case 1
      with keep b show ?thesis by blast
    next
      case (2 j)
      with fail other [of j] show ?thesis by (cases "j = i") auto
    qed
  qed
  moreover have "finite {i. wd_at y i \<noteq> Idle}" using ok finite_step [OF st] by (simp add: world_ok_def)
  ultimately show ?thesis
    using relocks_ok [OF step_relocks [OF st l] l] assms(5) by (auto simp: world_ok_def same)
qed

lemma check_poisoned_ok: "check_poisoned db = Inr () \<longleftrightarrow> \<not> db_poisoned db"
  by (simp add: check_poisoned_def)

lemma on_pool_poisoned: "on_pool m (db, s) = (r, (db', s')) \<Longrightarrow> db_poisoned db' = db_poisoned db"
  by (auto simp: on_pool_def split: prod.splits)

lemma read_page_poisoned: "read_txn_read_page pid f (db, s) = (r, (db', s')) \<Longrightarrow> db_poisoned db' = db_poisoned db"
  by (auto simp: read_txn_read_page_def and_then_def ok_def split: sum.splits prod.splits dest: on_pool_poisoned)

lemma write_checkpoint_poisoned: "write_checkpoint (db, s) = (r, (db', s')) \<Longrightarrow> db_poisoned db' = db_poisoned db"
  by (auto simp: write_checkpoint_def and_then_def on_pool_def on_disk_def on_wal_def split: sum.splits prod.splits)

lemma checkpoint_poisoned:
  "checkpoint_locked (db, s) = (r, (db', s')) \<Longrightarrow> db_poisoned db \<Longrightarrow> db_poisoned db'"
  "maybe_auto_checkpoint (db, s) = (r, (db', s')) \<Longrightarrow> db_poisoned db \<Longrightarrow> db_poisoned db'"
  by (auto simp: maybe_auto_checkpoint_def checkpoint_locked_def poison_def split: sum.splits prod.splits option.splits if_splits
      dest!: write_checkpoint_poisoned)

text \<open>While a thread has the log's lock, nothing has failed that it could not see.\<close>

lemma locked_sound:
  assumes ok: "world_ok p w x" and at: "wd_at x i = Write_Locked" and "\<not> db_poisoned (wd_db x)"
  shows "\<not> wd_broken x"
proof
  assume "wd_broken x"
  with ok assms(3) obtain j where j: "wd_at x j = Publish_Done False \<or> wd_at x j = Failing"
    by (auto simp: world_ok_def poison_ok_def)
  then have "holds_wal (wd_at x j)" "holds_wal (wd_at x i)" by (auto simp: at)
  then have "j = i" using ok by (simp add: world_ok_def locks_ok_def)
  with j at show False by simp
qed

text \<open>Publishing: no other thread has a transaction open.\<close>

lemma publish_alone:
  assumes ok: "locks_ok x" and at: "holds_publish (wd_at x i)" and "j \<noteq> i"
  shows "\<not> holds_wal (wd_at x j)" and "\<not> holds_snapshot (wd_at x j)"
proof -
  have "holds_wal (wd_at x i)" using at by (cases "wd_at x i") simp_all
  then show "\<not> holds_wal (wd_at x j)" using ok assms(3) by (simp add: locks_ok_def)
  show "\<not> holds_snapshot (wd_at x j)" using ok at by (simp add: locks_ok_def)
qed

lemma publish_world_ok:
  assumes ok: "world_ok p w x" and at: "wd_at x i = Publishing t a imgs"
    and run: "publish (wt_page_count t) imgs (wd_db x, wd_os x) = (r, (db, s))"
    and y: "y = goto i (Publish_Done (is_ok r)) (x\<lparr>wd_db := db, wd_os := s,
      wd_committed := if is_ok r then apply_txn t (wd_committed x) else wd_committed x, wd_broken := wd_broken x \<or> \<not> is_ok r\<rparr>)"
    and st: "step i x y"
  shows "world_ok p w y"
proof -
  have l: "locks_ok x" and fin: "finite {i. wd_at x i \<noteq> Idle}" using ok by (simp_all add: world_ok_def)
  have "point_ok (wd_committed x) (wd_broken x) (wd_at x i)" using ok by (simp add: world_ok_def)
  then have pt: "\<not> wd_broken x" "txn_ok t (wd_committed x)" "ready t imgs" by (simp_all add: at)
  have "point_ok c b (wd_at x j)" if "j \<noteq> i" for j c b
    using publish_alone [OF l _ that] point_ok_free by (simp add: at)
  then have "point_ok (wd_committed y) (wd_broken y) (wd_at y j)" for j by (simp add: y)
  moreover have "cache_ok p w db s (apply_txn t (wd_committed x))" if "r = Inr ()"
  proof -
    from pt(3) obtain dirty txn grew where d: "seal_all (wt_dirty t) = Inr dirty" "unat (wt_page_count t) < 2 ^ 52"
      "imgs = commit_images txn grew (wt_page_count t) dirty" by (auto simp: ready_def)
    from ok pt(1) have "cache_ok p w (wd_db x) (wd_os x) (wd_committed x)" by (simp add: world_ok_def)
    from publish_cache_ok [OF this pt(2) d(2,1) run [unfolded d(3)] that] show ?thesis .
  qed
  then have "wd_broken y \<or> cache_ok p w (wd_db y) (wd_os y) (wd_committed y)" by (cases r) (simp_all add: y pt(1))
  moreover have "poison_ok y" by (cases r) (auto simp: y poison_ok_def pt(1))
  ultimately show ?thesis
    using relocks_ok [OF step_relocks [OF st l] l] finite_step [OF st fin] by (simp add: world_ok_def)
qed

lemma new_txn_ok: "txn_ok \<lparr>wt_dirty = [], wt_page_count = ad_count a\<rparr> a"
  by (auto simp: txn_ok_def bt_ordered_def)

lemma world_step:
  assumes ok: "world_ok p w x" and st: "step i x y"
  shows "world_ok p w y"
proof -
  have cache: "\<not> wd_broken x \<Longrightarrow> cache_ok p w (wd_db x) (wd_os x) (wd_committed x)"
    and pt: "point_ok (wd_committed x) (wd_broken x) (wd_at x i)" using ok by (simp_all add: world_ok_def)
  have c: "cache_ok p w (wd_db x) (wd_os x) a" "\<not> wd_broken x" "wd_committed x = a" "txn_ok t a" if "wd_at x i = Writing t a" for t a
    using that cache pt by auto
  note I = world_okI [OF ok st]
  from st show ?thesis
  proof cases
    case (read_lock y')
    then show ?thesis by (intro I) (auto simp: publish_read_def cache split: if_splits)
  next
    case (read_page a pid r)
    then obtain db s where y: "y = x\<lparr>wd_db := db, wd_os := s\<rparr>" and run: "read_txn_read_page pid (\<lambda>page. page) (wd_db x, wd_os x) = (r, (db, s))"
      using on_sharedD by blast
    with shared_db.read_page_any [OF cache run] read_page_poisoned [OF run] read_page(1) pt show ?thesis
      by (intro I) simp_all
  next
    case write_started
    then have nb: "\<not> wd_broken x" using locked_sound [OF ok] by (simp add: check_poisoned_ok)
    then have "disk_page_count (db_disk (wd_db x)) = ad_count (wd_committed x)"
      using cache by (simp add: cache_ok_def disk_page_count_def)
    with nb write_started cache new_txn_ok show ?thesis by (intro I) simp_all
  next
    case (write_read t a pid r)
    then obtain db s where y: "y = x\<lparr>wd_db := db, wd_os := s\<rparr>" and run: "write_txn_read_page t pid (\<lambda>page. page) (wd_db x, wd_os x) = (r, (db, s))"
      using on_sharedD by blast
    with shared_db.write_read_any [OF c(1,4) run] c write_read(1) show ?thesis by (intro I) simp_all
  next
    case (write_change t a pid f r t' db s)
    with shared_db.page_mut_any [OF c(1,4) write_change(3)] c show ?thesis by (intro I) simp_all
  next
    case (write_allocate t a ty pid t')
    have "adb_ok a" using c(1) [OF write_allocate(2)] by (simp add: cache_ok_def)
    with write_allocate allocate_any [OF c(4) _ write_allocate(3,4)] c show ?thesis by (intro I) simp_all
  next
    case (commit_log t a dirty r y')
    then obtain db s where y': "y' = x\<lparr>wd_db := db, wd_os := s\<rparr>" and run: "log_commit t dirty (wd_db x, wd_os x) = (r, (db, s))"
      using on_sharedD by blast
    note L = log_commit_cache_ok [OF c(1) run, OF commit_log(2)]
    have "point_ok (wd_committed x) (wd_broken x) (case r of Inl e \<Rightarrow> Failing | Inr imgs \<Rightarrow> Logged t a imgs)"
      using L commit_log c [OF commit_log(2)] by (auto simp: ready_def commit_fits_def split: sum.splits)
    with L c [OF commit_log(2)] commit_log y' show ?thesis by (intro I) simp_all
  next
    case (publish_pages t a imgs r y')
    then obtain db s where y': "y' = x\<lparr>wd_db := db, wd_os := s\<rparr>" and run: "publish (wt_page_count t) imgs (wd_db x, wd_os x) = (r, (db, s))"
      using on_sharedD by blast
    show ?thesis by (rule publish_world_ok [OF ok publish_pages(2) run _ st]) (use publish_pages(1) y' in simp)
  next
    case commit_poison
    have "cache_ok p w (poison (wd_db x)) (wd_os x) (wd_committed x)" if "\<not> wd_broken x"
      by (rule cache_ok_other [OF cache [OF that]]) (use cache [OF that] in \<open>simp_all add: poison_def cache_ok_def\<close>)
    with commit_poison show ?thesis by (intro I) (simp_all add: poison_def)
  next
    case (commit_end r y')
    then obtain db s where "y' = x\<lparr>wd_db := db, wd_os := s\<rparr>" and run: "maybe_auto_checkpoint (wd_db x, wd_os x) = (r, (db, s))"
      using on_sharedD by blast
    with auto_checkpoint_cache_ok [OF cache run] checkpoint_poisoned(2) [OF run] commit_end show ?thesis by (intro I) simp_all
  next
    case (checkpoint_run r y')
    then obtain db s where "y' = x\<lparr>wd_db := db, wd_os := s\<rparr>" and run: "checkpoint_locked (wd_db x, wd_os x) = (r, (db, s))"
      using on_sharedD by blast
    with checkpoint_cache_ok [OF cache run] checkpoint_poisoned(1) [OF run] checkpoint_run show ?thesis by (intro I) simp_all
  qed (use cache pt in \<open>(intro I; auto simp: lock_defs split: if_splits)+\<close>)
qed

lemma runs_world_ok: "runs p w x \<Longrightarrow> world_ok p w x"
proof (induction rule: runs.induct)
  case (opened db s A)
  then have "\<not> db_poisoned db" by (simp add: begin_read_ok)
  then obtain a first rs where "db_inv p w db s a first rs" using soundE [OF engine_sound [OF opened(1)]] by metis
  then have "cache_ok p w db s a" by (rule db_inv_cache_ok)
  with cache_ok_view [OF this] show ?case by (simp add: world_ok_def start_world_def locks_ok_def poison_ok_def)
next
  case (stepped x i y)
  then show ?case by (blast intro: world_step)
qed

section \<open>While a transaction is open\<close>

text \<open>Steps of any threads during which thread \<open>i\<close> stays at points that satisfy \<open>P\<close>.\<close>

abbreviation within :: "(point \<Rightarrow> bool) \<Rightarrow> nat \<Rightarrow> world \<Rightarrow> world \<Rightarrow> bool" where
  "within P i \<equiv> (\<lambda>x y. \<exists>j. step j x y \<and> P (wd_at y i))\<^sup>*\<^sup>*"

text \<open>From the beginning of a write transaction to the end of its publishing.\<close>

fun writing :: "point \<Rightarrow> bool" where
  "writing (Writing _ _) = True"
| "writing (Logged _ _ _) = True"
| "writing (Publishing _ _ _) = True"
| "writing _ = False"

fun base :: "point \<Rightarrow> adb option" where
  "base (Reading a) = a"
| "base (Writing _ a) = Some a"
| "base (Logged _ a _) = Some a"
| "base (Publishing _ a _) = Some a"
| "base _ = None"

lemma other_stays: "step j x y \<Longrightarrow> j \<noteq> i \<Longrightarrow> wd_at y i = wd_at x i"
  by (cases rule: step.cases, assumption) (auto simp: lock_defs dest!: on_sharedD split: if_splits)

lemma own_base:
  assumes "step i x y" and "P = holds_snapshot \<or> P = writing" and "P (wd_at x i)" and "P (wd_at y i)"
  shows "base (wd_at y i) = base (wd_at x i)"
  using assms by cases (auto simp: lock_defs dest!: on_sharedD split: if_splits sum.splits)

lemma within_base:
  assumes "within P i x y" and "P = holds_snapshot \<or> P = writing" and "P (wd_at x i)"
  shows "P (wd_at y i) \<and> base (wd_at y i) = base (wd_at x i)"
  using assms(1)
proof (induction rule: rtranclp_induct)
  case (step y z)
  then obtain j where j: "step j y z" "P (wd_at z i)" by blast
  show ?case
  proof (cases "j = i")
    case True
    with own_base [OF _ assms(2)] j step.IH show ?thesis by simp
  next
    case False
    with other_stays [OF j(1) False] j step.IH show ?thesis by simp
  qed
qed (simp add: assms(3))

lemma within_step: "step j x y \<Longrightarrow> P (wd_at y i) \<Longrightarrow> within P i y z \<Longrightarrow> within P i x z"
  by (rule converse_rtranclp_into_rtranclp [of _ x y]) blast+

lemma within_runs: "within P i x y \<Longrightarrow> runs p w x \<Longrightarrow> runs p w y"
  by (induction rule: rtranclp_induct) (auto intro: stepped)

text \<open>A handle that shows the contents of the commits: its cache is in order unless a publish failed.\<close>

lemma runs_cache:
  assumes "runs p w x" and "\<not> wd_broken x"
  shows "cache_ok p w (wd_db x) (wd_os x) (wd_committed x)" and "view (wd_db x) (wd_os x) = wd_committed x"
proof -
  show c: "cache_ok p w (wd_db x) (wd_os x) (wd_committed x)" using runs_world_ok [OF assms(1)] assms(2) by (simp add: world_ok_def)
  show "view (wd_db x) (wd_os x) = wd_committed x" by (rule cache_ok_view [OF c])
qed

lemma runs_base:
  assumes "runs p w x" and "base (wd_at x i) = Some a"
  shows "\<not> wd_broken x" and "wd_committed x = a" and "cache_ok p w (wd_db x) (wd_os x) a" and "view (wd_db x) (wd_os x) = a"
proof -
  have "point_ok (wd_committed x) (wd_broken x) (wd_at x i)" using runs_world_ok [OF assms(1)] by (simp add: world_ok_def)
  then show b: "\<not> wd_broken x" and a: "wd_committed x = a" using assms(2) by (cases "wd_at x i"; auto)+
  show "cache_ok p w (wd_db x) (wd_os x) a" "view (wd_db x) (wd_os x) = a" using runs_cache [OF assms(1) b] a by simp_all
qed

section \<open>Progress\<close>

text \<open>How far a thread is from the end, if an open transaction is ended where it can be.\<close>

fun rank :: "point \<Rightarrow> nat" where
  "rank Idle = 0"
| "rank (Reading _) = 1"
| "rank Releasing = 1"
| "rank Read_Checked = 2"
| "rank Failing = 2"
| "rank Published = 2"
| "rank Checkpoint_Locked = 2"
| "rank Checkpoint_Checked = 3"
| "rank (Publish_Done _) = 3"
| "rank (Publishing _ _ _) = 4"
| "rank (Logged _ _ _) = 5"
| "rank (Writing _ _) = 6"
| "rank Write_Locked = 7"
| "rank Write_Checked = 8"

lemma on_shared_total: "\<exists>r y. on_shared m x = (r, y) \<and> wd_at y = wd_at x"
  by (auto simp: on_shared_def split: prod.splits)

lemma holder_moves:
  assumes "holds_wal (wd_at x i)" and "wd_publisher x = None \<and> wd_readers x = {} \<or> holds_publish (wd_at x i)"
  shows "\<exists>y. step i x y \<and> rank (wd_at y i) < rank (wd_at x i)"
proof (cases "wd_at x i")
  case Write_Locked
  then show ?thesis
    using step.write_refused [of x i] step.write_started [of x i] by (cases "check_poisoned (wd_db x)") (force simp: check_poisoned_def)+
next
  case (Logged t a imgs)
  with assms(2) have "publish_write i x = Some (x\<lparr>wd_publisher := Some i\<rparr>)" by (simp add: publish_write_def)
  from step.publish_lock [OF Logged this] Logged show ?thesis by fastforce
next
  case (Publishing t a imgs)
  obtain r y where "on_shared (publish (wt_page_count t) imgs) x = (r, y)" using on_shared_total by blast
  from step.publish_pages [OF Publishing this] Publishing show ?thesis by fastforce
next
  case (Publish_Done b)
  from step.publish_unlock [OF this] Publish_Done show ?thesis by fastforce
next
  case Published
  obtain r y where "on_shared maybe_auto_checkpoint x = (r, y)" using on_shared_total by blast
  from step.commit_end [OF Published this] Published show ?thesis by fastforce
next
  case Checkpoint_Locked
  obtain r y where "on_shared checkpoint_locked x = (r, y)" using on_shared_total by blast
  from step.checkpoint_run [OF Checkpoint_Locked this] Checkpoint_Locked show ?thesis by fastforce
next
  case Writing
  from step.write_rollback [OF this] Writing show ?thesis by fastforce
next
  case Failing
  from step.commit_poison [OF this] Failing show ?thesis by fastforce
next
  case Releasing
  from step.release [OF this] Releasing show ?thesis by fastforce
qed (use assms in simp_all)

lemma some_thread_moves:
  assumes ok: "locks_ok x" and busy: "wd_at x i \<noteq> Idle"
  shows "\<exists>j y. step j x y \<and> rank (wd_at y j) < rank (wd_at x j)"
proof -
  have l: "\<And>j. holds_wal (wd_at x j) \<longleftrightarrow> wd_wal_lock x = Some j" "\<And>j. holds_publish (wd_at x j) \<longleftrightarrow> wd_publisher x = Some j"
    "\<And>j. holds_snapshot (wd_at x j) \<longleftrightarrow> j \<in> wd_readers x" using ok by (simp_all add: locks_ok_def)
  consider j where "j \<in> wd_readers x" | j where "wd_publisher x = Some j"
    | j where "wd_wal_lock x = Some j" "wd_publisher x = None" "wd_readers x = {}"
    | "wd_wal_lock x = None" "wd_publisher x = None" "wd_readers x = {}" by fastforce
  then show ?thesis
  proof cases
    case (1 j)
    then obtain a where "wd_at x j = Reading a" using l(3) [of j] by (cases "wd_at x j") auto
    with step.read_end [OF this] show ?thesis by fastforce
  next
    case (2 j)
    then have "holds_publish (wd_at x j)" using l(2) by blast
    moreover from this have "holds_wal (wd_at x j)" by (cases "wd_at x j") simp_all
    ultimately show ?thesis using holder_moves by blast
  next
    case (3 j)
    then show ?thesis using holder_moves [of x j] l(1) [of j] by blast
  next
    case 4
    then have "\<not> holds_wal (wd_at x i)" "\<not> holds_snapshot (wd_at x i)" using l by simp_all
    then consider "wd_at x i = Read_Checked" | "wd_at x i = Write_Checked" | "wd_at x i = Checkpoint_Checked"
      using busy by (cases "wd_at x i") auto
    then show ?thesis
    proof cases
      case 1
      have "publish_read i x = Some (x\<lparr>wd_readers := {i}\<rparr>)" using 4 by (simp add: publish_read_def)
      from step.read_lock [OF 1 this] 1 show ?thesis by fastforce
    next
      case 2
      have "lock_wal i x = Some (x\<lparr>wd_wal_lock := Some i\<rparr>)" using 4 by (simp add: lock_wal_def)
      from step.write_lock [OF 2 this] 2 show ?thesis by fastforce
    next
      case 3
      have "lock_wal i x = Some (x\<lparr>wd_wal_lock := Some i\<rparr>)" using 4 by (simp add: lock_wal_def)
      from step.checkpoint_lock [OF 3 this] 3 show ?thesis by fastforce
    qed
  qed
qed

definition work_left :: "world \<Rightarrow> nat" where
  "work_left x = (\<Sum>i | rank (wd_at x i) \<noteq> 0. rank (wd_at x i))"

lemma work_left_less:
  assumes st: "step j x y" and less: "rank (wd_at y j) < rank (wd_at x j)" and fin: "finite {i. wd_at x i \<noteq> Idle}"
  shows "work_left y < work_left x"
proof -
  have "finite {i. rank (wd_at x i) \<noteq> 0}" by (rule finite_subset [OF _ fin]) auto
  from sum_support_change [OF this, of j "\<lambda>i. rank (wd_at y i)"] other_stays [OF st] less show ?thesis by (simp add: work_left_def)
qed

section \<open>A thread that is not interrupted\<close>

text \<open>Where thread \<open>i\<close> alone gets the handle and the system, from where it is to its end.\<close>

definition ends_with :: "nat \<Rightarrow> world \<Rightarrow> database \<times> os \<Rightarrow> bool" where
  "ends_with i x ds \<longleftrightarrow> (\<exists>y. (step i)\<^sup>*\<^sup>* x y \<and> wd_at y i = Idle \<and> (wd_db y, wd_os y) = ds)"

lemma ends_with_step: "step i x y \<Longrightarrow> ends_with i y ds \<Longrightarrow> ends_with i x ds"
  unfolding ends_with_def by (blast intro: converse_rtranclp_into_rtranclp)

lemma releasing_ends: "wd_at x i = Releasing \<Longrightarrow> ends_with i x (wd_db x, wd_os x)"
  by (rule ends_with_step [OF step.release]) (auto simp: ends_with_def)

lemma failing_ends: "wd_at x i = Failing \<Longrightarrow> ends_with i x (poison (wd_db x), wd_os x)"
  by (rule ends_with_step [OF step.commit_poison], assumption)
    (use releasing_ends [of "goto i Releasing (x\<lparr>wd_db := poison (wd_db x)\<rparr>)" i] in simp)

lemma published_ends:
  assumes "wd_at x i = Published"
  shows "ends_with i x (snd (maybe_auto_checkpoint (wd_db x, wd_os x)))"
proof -
  obtain r y where on: "on_shared maybe_auto_checkpoint x = (r, y)" by fastforce
  from on_sharedD [OF on] have "(wd_db y, wd_os y) = snd (maybe_auto_checkpoint (wd_db x, wd_os x))" by auto
  with ends_with_step [OF step.commit_end [OF assms on]] releasing_ends [of "goto i Releasing y" i] show ?thesis by simp
qed

lemma logged_ends:
  assumes at: "wd_at x i = Logged t a imgs" and free: "wd_publisher x = None" "wd_readers x = {}"
  shows "ends_with i x (case publish (wt_page_count t) imgs (wd_db x, wd_os x) of
      (Inl e, (db, s)) \<Rightarrow> (poison db, s) | (Inr _, ds) \<Rightarrow> snd (maybe_auto_checkpoint ds))"
proof -
  let ?x1 = "goto i (Publishing t a imgs) (x\<lparr>wd_publisher := Some i\<rparr>)"
  have "publish_write i x = Some (x\<lparr>wd_publisher := Some i\<rparr>)" using free by (simp add: publish_write_def)
  note lock = step.publish_lock [OF at this]
  obtain r y where on: "on_shared (publish (wt_page_count t) imgs) ?x1 = (r, y)" by fastforce
  then obtain db s where y: "y = ?x1\<lparr>wd_db := db, wd_os := s\<rparr>" and pub: "publish (wt_page_count t) imgs (wd_db x, wd_os x) = (r, (db, s))"
    using on_sharedD by fastforce
  have "wd_at ?x1 i = Publishing t a imgs" by simp
  note pages = step.publish_pages [OF this on]
  let ?x2 = "goto i (Publish_Done (is_ok r)) (y\<lparr>wd_committed := if is_ok r then apply_txn t (wd_committed ?x1) else wd_committed ?x1,
         wd_broken := wd_broken ?x1 \<or> \<not> is_ok r\<rparr>)"
  let ?x3 = "goto i (if is_ok r then Published else Failing) (?x2\<lparr>wd_publisher := None\<rparr>)"
  have "step i ?x2 ?x3" by (rule step.publish_unlock) simp
  from ends_with_step [OF lock ends_with_step [OF pages ends_with_step [OF this]]]
  show ?thesis
    using published_ends [of ?x3 i] failing_ends [of ?x3 i] pub by (cases r) (simp_all add: y)
qed

section \<open>An example\<close>

text \<open>Thread 1 begins a write transaction on a new database and allocates a page.\<close>

abbreviation "example_begun db s \<equiv> goto 1 Write_Locked ((goto 1 Write_Checked (start_world db s))\<lparr>wd_wal_lock := Some 1\<rparr>)"
abbreviation "example_started db s \<equiv> goto 1 (Writing \<lparr>wt_dirty = [], wt_page_count = 1\<rparr> empty_db) (example_begun db s)"
abbreviation "example_writing db s \<equiv> goto 1 (Writing example_txn empty_db) (example_started db s)"

lemma start_world_simps [simp]:
  "wd_db (start_world db s) = db" "wd_os (start_world db s) = s" "wd_at (start_world db s) i = Idle"
  "wd_wal_lock (start_world db s) = None" "wd_readers (start_world db s) = {}" "wd_publisher (start_world db s) = None"
  "wd_committed (start_world db s) = view db s" "\<not> wd_broken (start_world db s)"
  by (simp_all add: start_world_def)

lemma example_run:
  "\<exists>db s. healthy s \<and> db_inv example_path example_wal_path db s empty_db 0 [] \<and> commit_fits example_txn db
    \<and> runs example_path example_wal_path (example_begun db s) \<and> step 1 (example_begun db s) (example_started db s)
    \<and> step 1 (example_started db s) (example_writing db s)"
proof -
  obtain db s where o: "database_open example_path options_default new_os = (Inr db, s)" and up: "healthy s"
    and e: "engine example_path example_wal_path (Open db None) s {empty_db}" using example_open by blast
  have inv: "db_inv example_path example_wal_path db s empty_db 0 []" and n: "db_next_txn db = 1"
    using database_open_new [OF _ _ o] by auto
  have ok: "\<not> db_poisoned db" using inv by (simp add: db_inv_def)
  have "runs example_path example_wal_path (start_world db s)" by (rule runs.opened [OF e]) (simp add: begin_read_ok ok)
  moreover have "step 1 (start_world db s) (goto 1 Write_Checked (start_world db s))"
    by (rule step.write_check) (simp_all add: check_poisoned_ok ok)
  moreover have "step 1 (goto 1 Write_Checked (start_world db s)) (example_begun db s)"
    by (rule step.write_lock) (simp_all add: lock_wal_def)
  ultimately have r: "runs example_path example_wal_path (example_begun db s)" using stepped by blast
  have "disk_page_count (db_disk db) = 1" using inv by (simp add: db_inv_def disk_page_count_def empty_db_def)
  then have st: "step 1 (example_begun db s) (example_started db s)"
    using step.write_started [of "example_begun db s" 1] ok db_inv_view [OF inv] by (simp add: check_poisoned_ok)
  have "allocate_page Heap \<lparr>wt_dirty = [], wt_page_count = 1\<rparr> = (PageId 1, example_txn)"
    by (simp add: allocate_page_def example_txn_def Let_def)
  then have al: "step 1 (example_started db s) (example_writing db s)"
    by (intro step.write_allocate [of _ _ "\<lparr>wt_dirty = [], wt_page_count = 1\<rparr>"]) simp_all
  have "wal_durable_len (db_wal db) = 24" using inv by (simp add: db_inv_def wal_holds_def length_wal_image)
  then have "commit_fits example_txn db" using n by (simp add: commit_fits_def example_txn_def)
  with up inv r st al show ?thesis by blast
qed

text \<open>It commits, and is about to publish.\<close>

lemma example_publishing:
  obtains db s db1 s1 imgs z dirty first rs txn grew where "db_inv example_path example_wal_path db s empty_db 0 []"
    and "runs example_path example_wal_path (example_begun db s)"
    and "step 1 (example_begun db s) (example_started db s)" and "within writing 1 (example_started db s) z"
    and "z = (goto 1 (Publishing example_txn empty_db imgs) (example_writing db s))\<lparr>wd_db := db1, wd_os := s1, wd_publisher := Some 1\<rparr>"
    and "imgs = commit_images txn grew (wt_page_count example_txn) dirty"
    and "txn_logged example_path example_wal_path example_txn dirty first rs db1 s1 empty_db" and "healthy s1"
proof -
  obtain db s where up: "healthy s" and inv: "db_inv example_path example_wal_path db s empty_db 0 []" and fits: "commit_fits example_txn db"
    and r: "runs example_path example_wal_path (example_begun db s)" and st: "step 1 (example_begun db s) (example_started db s)"
    and al: "step 1 (example_started db s) (example_writing db s)" using example_run by blast
  let ?x = "example_writing db s"
  have "runs example_path example_wal_path ?x" using r st al stepped by blast
  from runs_world_ok [OF this] have "point_ok (wd_committed ?x) (wd_broken ?x) (wd_at ?x 1)" unfolding world_ok_def by blast
  then have ok: "txn_ok example_txn empty_db" by auto
  obtain dirty where seal: "seal_all (wt_dirty example_txn) = Inr dirty" using seal_all_ok [OF example_sealed] by blast
  obtain q db1 s1 where run: "log_commit example_txn dirty (db, s) = (q, (db1, s1))" by (metis surj_pair)
  note L = log_commit_any [OF inv ok fits seal run]
  with up obtain imgs txn grew rs' where q: "q = Inr imgs" "imgs = commit_images txn grew (wt_page_count example_txn) dirty"
    and lg: "txn_logged example_path example_wal_path example_txn dirty 0 rs' db1 s1 empty_db" "healthy s1" by (auto simp: is_ok_iff)
  let ?y = "goto 1 (Logged example_txn empty_db imgs) (?x\<lparr>wd_db := db1, wd_os := s1\<rparr>)"
  have lgd: "step 1 ?x ?y"
    using step.commit_log [of ?x 1 example_txn empty_db dirty q "?x\<lparr>wd_db := db1, wd_os := s1\<rparr>"] seal fits run q(1)
    by (simp add: on_shared_def) (simp add: example_txn_def)
  let ?z = "goto 1 (Publishing example_txn empty_db imgs) (?y\<lparr>wd_publisher := Some 1\<rparr>)"
  have pub: "step 1 ?y ?z" by (rule step.publish_lock) (simp_all add: publish_write_def)
  have wi: "within writing 1 (example_started db s) ?z"
    by (rule within_step [OF al _ within_step [OF lgd _ within_step [OF pub]]]) simp_all
  have "?z = (goto 1 (Publishing example_txn empty_db imgs) ?x)\<lparr>wd_db := db1, wd_os := s1, wd_publisher := Some 1\<rparr>"
    by (simp add: goto_def)
  from that [OF inv r st wi this q(2) lg] show thesis .
qed

section \<open>Properties\<close>

text \<open>
  C4: A read transaction sees a snapshot. From the moment it gets its lock until it ends, whatever other
  threads do meanwhile (commits that are being logged, checkpoints, reads that evict pages, faults), every
  page it reads is the page that was committed when it began, and the page count is the one of that moment.
  The only condition is that no commit had failed to publish before.
\<close>
theorem read_transactions_are_snapshots:
  assumes "runs p w x" and "wd_at x i = Read_Checked" and "\<not> wd_broken x" and "step i x y"
    and "within holds_snapshot i y z" and "read_txn_read_page pid f (wd_db z, wd_os z) = (r, ds)"
  shows "view (wd_db z) (wd_os z) = view (wd_db x) (wd_os x)
    \<and> read_txn_page_count (wd_db z) = ad_count (view (wd_db x) (wd_os x))
    \<and> (\<forall>v. r = Inr v \<longrightarrow> (\<exists>page. ad_pages (view (wd_db x) (wd_os x)) pid = Some page \<and> v = f page))
    \<and> (ad_pages (view (wd_db x) (wd_os x)) pid = None \<longrightarrow> (\<exists>msg. r = Inl (InvalidArgument msg)))"
proof -
  have v: "view (wd_db x) (wd_os x) = wd_committed x" by (rule runs_cache [OF assms(1,3)])
  have y: "wd_at y i = Reading (Some (wd_committed x))"
    using assms(4,2,3) by cases (auto simp: publish_read_def dest!: on_sharedD split: if_splits)
  have "runs p w z" using within_runs [OF assms(5)] stepped [OF assms(1,4)] by blast
  moreover have "base (wd_at z i) = Some (wd_committed x)" using within_base [OF assms(5)] y by simp
  ultimately have "cache_ok p w (wd_db z) (wd_os z) (wd_committed x)" "view (wd_db z) (wd_os z) = wd_committed x"
    using runs_base by blast+
  moreover obtain db' s' where "ds = (db', s')" by (cases ds)
  ultimately show ?thesis
    using shared_db.read_page_any [of p w "wd_db z" "wd_os z" "wd_committed x" pid f r db' s'] assms(6) v
    by (auto simp: cache_ok_def read_txn_page_count_def disk_page_count_def)
qed

theorem read_transactions_are_snapshots_witness:
  "\<exists>x y z ds. runs example_path example_wal_path x \<and> wd_at x 1 = Read_Checked \<and> step 1 x y
     \<and> within holds_snapshot 1 y z \<and> wd_at z 2 = Write_Checked
     \<and> read_txn_read_page (PageId 1) (\<lambda>page. page) (wd_db z, wd_os z) = (Inr (seal (page_new (PageId 1) Heap)), ds)"
proof -
  obtain db s where up: "healthy s" and e: "engine example_path example_wal_path (Open db None) s {apply_txn example_txn empty_db}"
    and ok: "\<not> db_poisoned db" using example_commit by blast
  then obtain first rs where inv: "db_inv example_path example_wal_path db s (apply_txn example_txn empty_db) first rs"
    using soundE [OF engine_sound [OF e] ok] by (metis singleton_inject)
  let ?a = "apply_txn example_txn empty_db" and ?x = "goto 1 Read_Checked (start_world db s)"
  have page: "ad_pages ?a (PageId 1) = Some (seal (page_new (PageId 1) Heap))" by (simp add: apply_txn_def example_txn_def empty_db_def)
  have "runs example_path example_wal_path (start_world db s)" by (rule runs.opened [OF e]) (simp add: begin_read_ok ok)
  then have r: "runs example_path example_wal_path ?x"
    by (rule stepped [OF _ step.read_check]) (simp_all add: check_poisoned_ok ok)
  let ?y = "goto 1 (Reading (Some (view db s))) (?x\<lparr>wd_readers := {1}\<rparr>)"
  have lock: "step 1 ?x ?y" using step.read_lock [of ?x 1] by (simp add: publish_read_def)
  let ?z = "goto 2 Write_Checked ?y"
  have "step 2 ?y ?z" by (rule step.write_check) (simp_all add: check_poisoned_ok ok)
  then have w: "within holds_snapshot 1 ?y ?z" by (rule within_step) simp_all
  obtain v db' s' where rd: "read_txn_read_page (PageId 1) (\<lambda>page. page) (wd_db ?z, wd_os ?z) = (Inr v, (db', s'))"
    using read_page_ok [OF inv page up, of "\<lambda>page. page"] by auto
  from read_transactions_are_snapshots [OF r _ _ lock w rd] page db_inv_view [OF inv] have "v = seal (page_new (PageId 1) Heap)" by simp
  with r lock w rd show ?thesis by (intro exI [of _ ?x] exI [of _ ?y] exI [of _ ?z] exI [of _ "(db', s')"]) simp
qed

text \<open>
  C5: Write transactions run one after another, and no update is lost. What a write transaction publishes
  is what it made of the contents as they were when it began: nobody has changed them in between, and
  the commit turns them into exactly the contents that applying the transaction gives.
\<close>
theorem no_update_is_lost:
  assumes "runs p w x" and "wd_at x i = Write_Locked" and "step i x y" and "writing (wd_at y i)"
    and "within writing i y z" and "wd_at z i = Publishing t a imgs"
    and "step i z z'" and "wd_at z' i = Publish_Done True"
  shows "view (wd_db z) (wd_os z) = view (wd_db x) (wd_os x)
    \<and> view (wd_db z') (wd_os z') = apply_txn t (view (wd_db x) (wd_os x))
    \<and> (\<forall>j. j \<noteq> i \<longrightarrow> \<not> writing (wd_at z j) \<and> \<not> holds_snapshot (wd_at z j))"
proof -
  have up: "\<not> db_poisoned (wd_db x)" and y: "base (wd_at y i) = Some (wd_committed x)"
    using assms(3,2,4) by (cases; auto simp: check_poisoned_ok lock_defs dest!: on_sharedD split: if_splits)+
  have v: "view (wd_db x) (wd_os x) = wd_committed x"
    by (rule runs_cache [OF assms(1) locked_sound [OF runs_world_ok [OF assms(1)] assms(2) up]])
  have z: "runs p w z" using within_runs [OF assms(5)] stepped [OF assms(1,3)] by blast
  have bz: "base (wd_at z i) = Some (wd_committed x)" using within_base [OF assms(5) _ assms(4)] y by simp
  have "wd_broken z' = wd_broken z \<and> wd_committed z' = apply_txn t (wd_committed z)"
    using assms(7,6,8) by cases (auto dest!: on_sharedD)
  then have "view (wd_db z') (wd_os z') = apply_txn t (wd_committed x)"
    using runs_cache(2) [OF stepped [OF z assms(7)]] runs_base(1,2) [OF z bz] by simp
  moreover have "\<not> writing (wd_at z j) \<and> \<not> holds_snapshot (wd_at z j)" if "j \<noteq> i" for j
  proof -
    have "locks_ok z" using runs_world_ok [OF z] by (simp add: world_ok_def)
    from publish_alone [OF this _ that] assms(6) have "\<not> holds_wal (wd_at z j)" "\<not> holds_snapshot (wd_at z j)" by auto
    then show ?thesis by (cases "wd_at z j") auto
  qed
  ultimately show ?thesis using runs_base(4) [OF z bz] v by simp
qed

theorem no_update_is_lost_witness:
  "\<exists>x y z z' a imgs. runs example_path example_wal_path x \<and> wd_at x 1 = Write_Locked \<and> step 1 x y
     \<and> within writing 1 y z \<and> wd_at z 1 = Publishing example_txn a imgs \<and> step 1 z z'
     \<and> view (wd_db x) (wd_os x) = empty_db \<and> view (wd_db z') (wd_os z') = apply_txn example_txn empty_db"
proof -
  obtain db s db1 s1 imgs z dirty first rs txn grew where inv: "db_inv example_path example_wal_path db s empty_db 0 []"
    and r: "runs example_path example_wal_path (example_begun db s)" and st: "step 1 (example_begun db s) (example_started db s)"
    and w: "within writing 1 (example_started db s) z"
    and z: "z = (goto 1 (Publishing example_txn empty_db imgs) (example_writing db s))\<lparr>wd_db := db1, wd_os := s1, wd_publisher := Some 1\<rparr>"
    and imgs: "imgs = commit_images txn grew (wt_page_count example_txn) dirty"
    and lg: "txn_logged example_path example_wal_path example_txn dirty first rs db1 s1 empty_db" and up: "healthy s1"
    by (rule example_publishing)
  obtain q db2 s2 where run: "publish (wt_page_count example_txn) imgs (db1, s1) = (q, (db2, s2))" by (metis surj_pair)
  have q: "q = Inr ()" using publish_logged [OF lg run [unfolded imgs]] up by simp
  have at: "wd_at z 1 = Publishing example_txn empty_db imgs" by (simp add: z)
  have "on_shared (publish (wt_page_count example_txn) imgs) z = (q, z\<lparr>wd_db := db2, wd_os := s2\<rparr>)"
    using run by (simp add: on_shared_def z)
  from step.publish_pages [OF at this] obtain z' where st': "step 1 z z'" "wd_at z' 1 = Publish_Done True" using q by auto
  from no_update_is_lost [OF r _ st _ w at st'] db_inv_view [OF inv] r st w at st' show ?thesis
    by (intro exI [of _ "example_begun db s"] exI [of _ "example_started db s"] exI [of _ z] exI [of _ z'] exI [of _ empty_db]
        exI [of _ imgs]) simp
qed



text \<open>
  C7: The steps of a commit, taken one after the other with no reader in the way, are the function
  \<open>commit\<close> that the theorems on crashes are about: the thread ends with the handle and the system
  that \<open>commit\<close> gives, on every branch, failures included.
\<close>
theorem commit_steps_make_commit:
  assumes "wd_at x i = Writing t a" and "wd_readers x = {}" and "wd_publisher x = None" and "commit_fits t (wd_db x)"
  shows "\<exists>y. (step i)\<^sup>*\<^sup>* x y \<and> wd_at y i = Idle \<and> (wd_db y, wd_os y) = snd (commit t (wd_db x, wd_os x))"
  unfolding ends_with_def [symmetric]
proof (cases "wt_dirty t = []")
  case True
  from ends_with_step [OF step.commit_empty [OF assms(1) True] releasing_ends] True
  show "ends_with i x (snd (commit t (wd_db x, wd_os x)))" by (simp add: commit_def)
next
  case False
  show "ends_with i x (snd (commit t (wd_db x, wd_os x)))"
  proof (cases "seal_all (wt_dirty t)")
    case (Inl e)
    from ends_with_step [OF step.commit_malformed [OF assms(1) False Inl] releasing_ends] False Inl
    show ?thesis by (simp add: commit_def)
  next
    case (Inr dirty)
    obtain r y where on: "on_shared (log_commit t dirty) x = (r, y)" by fastforce
    then obtain db s where y: "y = x\<lparr>wd_db := db, wd_os := s\<rparr>" and log: "log_commit t dirty (wd_db x, wd_os x) = (r, (db, s))"
      using on_sharedD by blast
    note first = ends_with_step [OF step.commit_log [OF assms(1) False Inr assms(4) on]]
    note split = commit_after_log [OF False Inr log]
    show ?thesis
    proof (cases r)
      case (Inl e)
      with first failing_ends [of "goto i Failing y" i] split show ?thesis by (simp add: y)
    next
      case r: (Inr imgs)
      with first logged_ends [of "goto i (Logged t a imgs) y" i t a imgs] split assms(2,3) show ?thesis
        by (auto simp: y split: prod.splits sum.splits)
    qed
  qed
qed

theorem commit_steps_make_commit_witness:
  "\<exists>db s y. (step 1)\<^sup>*\<^sup>* (example_writing db s) y \<and> wd_at y 1 = Idle \<and> (wd_db y, wd_os y) = snd (commit example_txn (db, s))
     \<and> view (wd_db y) (wd_os y) = apply_txn example_txn empty_db"
proof -
  obtain db s where up: "healthy s" and inv: "db_inv example_path example_wal_path db s empty_db 0 []" and fits: "commit_fits example_txn db"
    and r: "runs example_path example_wal_path (example_begun db s)" and st: "step 1 (example_begun db s) (example_started db s)"
    and al: "step 1 (example_started db s) (example_writing db s)" using example_run by blast
  let ?x = "example_writing db s"
  have "runs example_path example_wal_path ?x" using r st al stepped by blast
  from runs_world_ok [OF this] have "point_ok (wd_committed ?x) (wd_broken ?x) (wd_at ?x 1)" unfolding world_ok_def by blast
  then have ok: "txn_ok example_txn empty_db" by auto
  obtain q db' s' where c: "commit example_txn (db, s) = (q, (db', s'))" by (metis surj_pair)
  obtain dirty where "seal_all (wt_dirty example_txn) = Inr dirty" using seal_all_ok [OF example_sealed] by blast
  with commit_any [OF inv ok fits healthy_whole [OF up] c] up obtain first rs
    where "db_inv example_path example_wal_path db' s' (apply_txn example_txn empty_db) first rs" by blast
  with commit_steps_make_commit [of ?x 1 example_txn empty_db] fits c db_inv_view show ?thesis
    by (intro exI [of _ db] exI [of _ s]) fastforce
qed

end
