(* ===== verification/Concurrent_Crash.thy ===== *)
theory Concurrent_Crash
  imports Isolation
begin

text \<open>
  Durability when several threads share the handle. At every moment of a run the log and the data
  file determine the contents that the published commits have made, or those with the one commit that is
  in flight; so losing power at any moment, also in the middle of any operation, loses no commit and
  leaves no half of one.
\<close>

section \<open>What is on the disk at each moment\<close>

text \<open>Nothing has failed so far: the handle is usable and no thread is about to poison it.\<close>

definition unfailed :: "world \<Rightarrow> bool" where
  "unfailed x \<longleftrightarrow> \<not> db_poisoned (wd_db x) \<and> (\<forall>i. wd_at x i \<noteq> Publish_Done False \<and> wd_at x i \<noteq> Failing)"

text \<open>The transaction a thread is writing, and the one it has logged and not yet published.\<close>

fun txn_of :: "point \<Rightarrow> write_txn option" where
  "txn_of (Writing t _) = Some t"
| "txn_of (Logged t _ _) = Some t"
| "txn_of (Publishing t _ _) = Some t"
| "txn_of _ = None"

fun pending :: "point \<Rightarrow> (write_txn \<times> wal_record list) option" where
  "pending (Logged t _ imgs) = Some (t, imgs)"
| "pending (Publishing t _ imgs) = Some (t, imgs)"
| "pending _ = None"

definition in_flight :: "world \<Rightarrow> write_txn set" where
  "in_flight x = {t. \<exists>i. txn_of (wd_at x i) = Some t}"

definition durable :: "path \<Rightarrow> path \<Rightarrow> world \<Rightarrow> bool" where
  "durable p w x \<longleftrightarrow> whole_headers (wd_os x) \<and>
     ((\<forall>i. pending (wd_at x i) = None) \<and> (\<exists>first rs. db_inv p w (wd_db x) (wd_os x) (wd_committed x) first rs) \<or>
      (\<exists>i t dirty txn grew first rs. pending (wd_at x i) = Some (t, commit_images txn grew (wt_page_count t) dirty) \<and>
         txn_logged p w t dirty first rs (wd_db x) (wd_os x) (wd_committed x)))"

definition outcomes :: "world \<Rightarrow> adb set" where
  "outcomes x = insert (wd_committed x) ((\<lambda>t. apply_txn t (wd_committed x)) ` in_flight x)"

lemma pending_txn: "pending c = Some (t, imgs) \<Longrightarrow> txn_of c = Some t"
  by (cases c) simp_all

lemma pending_holds: "pending c = Some ti \<Longrightarrow> holds_wal c"
  by (cases c) simp_all

text \<open>Reading in the state between logging and publishing.\<close>

lemma txn_logged_ctx:
  assumes "txn_logged p w t dirty first rs db s a"
  shows "cache_ctx (db_disk db) (safe (logged rs) (apply_txn t a)) (logged rs) (ad_pages a)"
proof -
  let ?a = "apply_txn t a"
  have b: "adb_ok a" "adb_ok ?a" "log_ok rs ?a" "txn_ok t a" "dk_page_count (db_disk db) = ad_count a"
    using assms by (simp_all add: txn_logged_def)
  have "cache_ctx ((db_disk db)\<lparr>dk_page_count := wt_page_count t\<rparr>) (safe (logged rs) ?a) (logged rs) (ad_pages ?a)"
    by (rule safe_cache_ctx [OF b(2,3)]) (simp add: apply_txn_def)
  with adb_ok_page [OF b(1)] b(5) show ?thesis by (auto simp: cache_ctx_def disk_addr_def)
qed

interpretation logged_db: readable "txn_logged p w t dirty first rs" for p w t dirty first rs
proof unfold_locales
  show "dk_page_count (db_disk db) = ad_count a" "adb_ok a" if "txn_logged p w t dirty first rs db s a" for db s a
    using that by (simp_all add: txn_logged_def)
next
  fix db s a pid x r db' s'
  assume st: "txn_logged p w t dirty first rs db s a" and page: "ad_pages a pid = Some x"
    and run: "on_pool (\<lambda>d. read_through d pid) (db, s) = (r, (db', s'))"
  let ?P = "safe (logged rs) (apply_txn t a)"
  obtain pool where rd: "read_through (db_disk db) pid (db_pool db, s) = (r, (pool, s'))" and db': "db' = db\<lparr>db_pool := pool\<rparr>"
    using run by (auto simp: on_pool_def split: prod.splits)
  have "cache_state (db_disk db) ?P (logged rs) s (ad_pages a) (db_pool db, s)"
    using txn_logged_ctx [OF st] st by (simp add: cache_state_def txn_logged_def)
  from pc.get_any [OF this page rd]
  have R: "cache_state (db_disk db) ?P (logged rs) s (ad_pages a) (pool, s')" "\<forall>q. r = Inr q \<longrightarrow> q = x" by simp_all
  then have k: "keeps p s s'" using st by (simp add: cache_state_def txn_logged_def)
  then have n: "named s' = named s" "\<not> unsure s' p" "files s' w = files s w"
    using st by (auto simp: keeps_def touches_def txn_logged_def)
  then have "wal_holds (db_wal db) s' first rs []" using st by (auto simp: wal_holds_def txn_logged_def)
  with R k n st show "txn_logged p w t dirty first rs db' s' a \<and> set (script s') \<subseteq> set (script s)
      \<and> db' = db\<lparr>db_pool := db_pool db'\<rparr> \<and> (\<forall>q. r = Inr q \<longrightarrow> q = x)"
    by (simp add: txn_logged_def cache_state_def db' keeps_script)
qed

text \<open>What is durable determines the contents.\<close>

lemma durable_recoverable:
  assumes "durable p w x"
  shows "recoverable p w (wd_os x) (insert (wd_committed x) {apply_txn t (wd_committed x) | t. \<exists>i imgs. pending (wd_at x i) = Some (t, imgs)})"
proof -
  from assms consider first rs where "db_inv p w (wd_db x) (wd_os x) (wd_committed x) first rs"
    | i t dirty txn grew first rs where "pending (wd_at x i) = Some (t, commit_images txn grew (wt_page_count t) dirty)"
      "txn_logged p w t dirty first rs (wd_db x) (wd_os x) (wd_committed x)"
    unfolding durable_def by blast
  then show ?thesis
  proof cases
    case 1
    show ?thesis by (rule recoverable_mono [OF db_inv_recoverable [OF 1]]) simp
  next
    case 2
    show ?thesis by (rule recoverable_mono [OF txn_logged_recoverable [OF 2(2)]]) (use 2(1) in auto)
  qed
qed

text \<open>A step after which the same transactions are logged, on the same contents.\<close>

lemma durable_quiet:
  assumes d: "durable p w y" and "wd_committed y = wd_committed x" and "\<And>j. pending (wd_at y j) = pending (wd_at x j)"
  shows "recoverable p w (wd_os y) (outcomes x)"
proof (rule recoverable_mono [OF durable_recoverable [OF d]])
  show "insert (wd_committed y) {apply_txn t (wd_committed y) |t. \<exists>i imgs. pending (wd_at y i) = Some (t, imgs)} \<subseteq> outcomes x"
    unfolding assms(2,3) outcomes_def in_flight_def using pending_txn by blast
qed

lemma durable_same:
  assumes "durable p w x" and "wd_db y = wd_db x" and "wd_os y = wd_os x" and "wd_committed y = wd_committed x"
    and "\<And>j. pending (wd_at y j) = pending (wd_at x j)"
  shows "durable p w y"
  using assms by (simp add: durable_def)

text \<open>Once something has failed it stays so.\<close>

lemma poisoned_stays:
  "write_txn_read_page t pid f (db, s) = (v, (db', s')) \<Longrightarrow> db_poisoned db' = db_poisoned db"
  "page_mut pid g (t, (db, s)) = (r, (t', (db', s'))) \<Longrightarrow> db_poisoned db' = db_poisoned db"
  "log_commit t dirty (db, s) = (q, (db', s')) \<Longrightarrow> db_poisoned db' = db_poisoned db"
  by (auto simp: write_txn_read_page_def page_mut_def log_commit_def next_txn_id_def on_wal_def and_then_def ok_def Let_def
      split: sum.splits prod.splits option.splits dest: on_pool_poisoned)

lemma publish_poisoned: "publish n imgs (db, s) = (r, (db', s')) \<Longrightarrow> db_poisoned db' = db_poisoned db"
proof -
  have "for_each (\<lambda>record. case record of PageImage _ pid page \<Rightarrow> if pid \<noteq> HEADER then on_pool (\<lambda>d. install_page d pid page) else ok ()
      | Commit _ \<Rightarrow> ok ()) imgs (db, s) = (r, (db', s')) \<Longrightarrow> db_poisoned db' = db_poisoned db" for db s
    by (induction imgs arbitrary: db s)
      (auto simp: and_then_def ok_def split: prod.splits sum.splits wal_record.splits if_splits dest!: on_pool_poisoned)
  then show "publish n imgs (db, s) = (r, (db', s')) \<Longrightarrow> db_poisoned db' = db_poisoned db"
    by (auto simp: publish_def split: prod.splits sum.splits)
qed

lemma failure_stays:
  assumes "step i x y" and "unfailed y"
  shows "unfailed x"
proof -
  have p: "\<not> db_poisoned (wd_db y)" and a: "wd_at y j \<noteq> Publish_Done False" "wd_at y j \<noteq> Failing" for j
    using assms(2) by (simp_all add: unfailed_def)
  have "\<not> db_poisoned (wd_db x)"
    using assms(1) p by cases (auto simp: lock_defs poison_def dest!: on_sharedD dest: read_page_poisoned poisoned_stays
      publish_poisoned checkpoint_poisoned split: if_splits)
  moreover have "wd_at x j \<noteq> Publish_Done False \<and> wd_at x j \<noteq> Failing" for j
  proof (cases "j = i")
    case True
    with assms(1) p a [of i] show ?thesis by cases (auto simp: poison_def lock_defs dest!: on_sharedD split: if_splits)
  next
    case False
    with other_stays [OF assms(1), of j] a [of j] show ?thesis by simp
  qed
  ultimately show ?thesis by (simp add: unfailed_def)
qed

section \<open>Every step keeps it\<close>

text \<open>The thread that holds the log's lock and has nothing logged: then nobody has, and the invariant holds.\<close>

lemma holder_invariant:
  assumes ok: "world_ok p w x" and d: "durable p w x" and at: "holds_wal (wd_at x i)" "pending (wd_at x i) = None"
  shows "\<exists>first rs. db_inv p w (wd_db x) (wd_os x) (wd_committed x) first rs" and "pending (wd_at x j) = None"
    and "whole_headers (wd_os x)"
proof -
  show none: "pending (wd_at x j) = None" for j
  proof (rule ccontr)
    assume n: "pending (wd_at x j) \<noteq> None"
    then have "holds_wal (wd_at x j)" using pending_holds by fastforce
    with at(1) ok have "j = i" by (simp add: world_ok_def locks_ok_def)
    with n at(2) show False by simp
  qed
  with d show "\<exists>first rs. db_inv p w (wd_db x) (wd_os x) (wd_committed x) first rs" "whole_headers (wd_os x)"
    by (auto simp: durable_def)
qed

lemma durable_db:
  assumes "db_inv p w (wd_db y) (wd_os y) (wd_committed y) first rs" and "whole_headers (wd_os y)" and "\<And>j. pending (wd_at y j) = None"
  shows "durable p w y"
  using assms by (auto simp: durable_def)

lemma durable_logged:
  assumes "txn_logged p w t dirty first rs (wd_db y) (wd_os y) (wd_committed y)" and "whole_headers (wd_os y)"
    and "pending (wd_at y i) = Some (t, commit_images txn grew (wt_page_count t) dirty)"
  shows "durable p w y"
  unfolding durable_def using assms by blast

lemma read_durable:
  assumes d: "durable p w x" and run: "read_txn_read_page pid f (wd_db x, wd_os x) = (r, (db, s))"
  shows "durable p w (x\<lparr>wd_db := db, wd_os := s\<rparr>)"
proof -
  from d have wh: "whole_headers (wd_os x)" by (simp add: durable_def)
  from d consider first rs where "\<And>i. pending (wd_at x i) = None" "db_inv p w (wd_db x) (wd_os x) (wd_committed x) first rs"
    | i t dirty txn grew first rs where "pending (wd_at x i) = Some (t, commit_images txn grew (wt_page_count t) dirty)"
      "txn_logged p w t dirty first rs (wd_db x) (wd_os x) (wd_committed x)"
    unfolding durable_def by blast
  then show ?thesis
  proof cases
    case 1
    from open_db.read_page_any [OF 1(2) run] whole_headers_mono [OF _ wh] 1(1) show ?thesis by (auto simp: durable_def)
  next
    case 2
    from logged_db.read_page_any [OF 2(2) run] whole_headers_mono [OF _ wh] 2(1) show ?thesis
      by (intro durable_logged [of p w t dirty first rs _ i txn grew]) auto
  qed
qed

lemma log_durable:
  assumes ok: "world_ok p w x" and d: "durable p w x" and at: "wd_at x i = Writing t a" and fits: "commit_fits t (wd_db x)"
    and seal: "seal_all (wt_dirty t) = Inr dirty" and run: "log_commit t dirty (wd_db x, wd_os x) = (r, (db, s))"
  shows "recoverable p w s (outcomes x)
    \<and> (\<forall>imgs. r = Inr imgs \<longrightarrow> durable p w (goto i (Logged t a imgs) (x\<lparr>wd_db := db, wd_os := s\<rparr>)))"
proof -
  have txn: "txn_ok t (wd_committed x)" using ok at unfolding world_ok_def by (metis point_ok.simps(2))
  have h: "holds_wal (wd_at x i)" "pending (wd_at x i) = None" by (simp_all add: at)
  obtain first rs where inv: "db_inv p w (wd_db x) (wd_os x) (wd_committed x) first rs" using holder_invariant(1) [OF ok d h] by blast
  note wh = holder_invariant(3) [OF ok d h]
  note L = log_commit_any [OF inv txn fits seal run]
  have fl: "t \<in> in_flight x" using at by (auto simp: in_flight_def intro!: exI [of _ i])
  then have sub: "{wd_committed x, apply_txn t (wd_committed x)} \<subseteq> outcomes x" by (simp add: outcomes_def)
  have wh': "whole_headers s" using L whole_headers_mono [OF _ wh] touches_script by blast
  show ?thesis
  proof (cases r)
    case (Inl e)
    with L recoverable_mono [OF _ sub] show ?thesis by blast
  next
    case (Inr imgs)
    with L obtain txn grew rs' where imgs: "imgs = commit_images txn grew (wt_page_count t) dirty"
      and lg: "txn_logged p w t dirty first rs' db s (wd_committed x)" by blast
    have "recoverable p w s (outcomes x)" by (rule recoverable_mono [OF txn_logged_recoverable [OF lg]]) (use sub in simp)
    moreover have "durable p w (goto i (Logged t a imgs) (x\<lparr>wd_db := db, wd_os := s\<rparr>))"
      using wh' lg imgs by (intro durable_logged [of p w t dirty first rs' _ i txn grew]) simp_all
    ultimately show ?thesis using Inr by simp
  qed
qed

lemma publish_durable:
  assumes ok: "world_ok p w x" and d: "durable p w x" and at: "wd_at x i = Publishing t a imgs"
    and run: "publish (wt_page_count t) imgs (wd_db x, wd_os x) = (r, (db, s))"
  shows "recoverable p w s (outcomes x) \<and> (r = Inr () \<longrightarrow>
    (\<exists>first rs. db_inv p w db s (apply_txn t (wd_committed x)) first rs) \<and> whole_headers s \<and> (\<forall>j. j \<noteq> i \<longrightarrow> pending (wd_at x j) = None))"
proof -
  have l: "locks_ok x" using ok by (simp add: world_ok_def)
  have other: "pending (wd_at x j) = None" if "j \<noteq> i" for j
    using publish_alone(1) [OF l _ that] at pending_holds [of "wd_at x j"] by (cases "pending (wd_at x j)") auto
  have "\<not> (\<forall>i. pending (wd_at x i) = None)" using at by (auto intro!: exI [of _ i])
  with d obtain j t' dirty txn grew first rs where
    j: "pending (wd_at x j) = Some (t', commit_images txn grew (wt_page_count t') dirty)"
      "txn_logged p w t' dirty first rs (wd_db x) (wd_os x) (wd_committed x)" unfolding durable_def by blast
  then have "j = i" using other [of j] by auto
  with j at have imgs: "imgs = commit_images txn grew (wt_page_count t) dirty"
    and lg: "txn_logged p w t dirty first rs (wd_db x) (wd_os x) (wd_committed x)" by simp_all
  note P = publish_logged [OF lg run [unfolded imgs]]
  have "t \<in> in_flight x" using at by (auto simp: in_flight_def intro!: exI [of _ i])
  then have "{apply_txn t (wd_committed x)} \<subseteq> outcomes x" by (simp add: outcomes_def)
  moreover have "whole_headers s" using P d whole_headers_mono [of s "wd_os x"] touches_script by (auto simp: durable_def)
  ultimately show ?thesis using P other recoverable_mono by blast
qed

text \<open>The steps that only the holder of the log's lock takes, with nothing logged.\<close>

lemma holder_step:
  assumes ok: "world_ok p w x" and d: "durable p w x" and h: "holds_wal (wd_at x i)" "pending (wd_at x i) = None"
    and keep: "\<And>first rs. db_inv p w (wd_db x) (wd_os x) (wd_committed x) first rs \<Longrightarrow> whole_headers (wd_os x) \<Longrightarrow>
      set (script s) \<subseteq> set (script (wd_os x)) \<and> db_safe p w db s {wd_committed x}"
    and c: "pending c = None"
  shows "recoverable p w s (outcomes x) \<and> (\<not> db_poisoned db \<longrightarrow> durable p w (goto i c (x\<lparr>wd_db := db, wd_os := s\<rparr>)))"
proof -
  obtain first rs where inv: "db_inv p w (wd_db x) (wd_os x) (wd_committed x) first rs" using holder_invariant(1) [OF ok d h] by blast
  note none = holder_invariant(2) [OF ok d h] and wh = holder_invariant(3) [OF ok d h]
  from keep [OF inv wh] have K: "whole_headers s" "db_safe p w db s {wd_committed x}" using whole_headers_mono [OF _ wh] by auto
  then have "recoverable p w s (outcomes x)" by (auto simp: db_safe_def outcomes_def elim: recoverable_mono)
  moreover have "durable p w (goto i c (x\<lparr>wd_db := db, wd_os := s\<rparr>))" if "\<not> db_poisoned db"
  proof -
    from K(2) that obtain first rs where "db_inv p w db s (wd_committed x) first rs" by (auto simp: db_safe_def)
    with K(1) none c show ?thesis by (intro durable_db) simp_all
  qed
  ultimately show ?thesis by blast
qed

lemma durable_step:
  assumes ok: "world_ok p w x" and d: "durable p w x" and up: "unfailed x" and st: "step i x y"
  shows "recoverable p w (wd_os y) (outcomes x) \<and> (unfailed y \<longrightarrow> durable p w y)"
proof -
  have here: ?thesis if "wd_db y = wd_db x" "wd_os y = wd_os x" "wd_committed y = wd_committed x"
      "\<And>j. pending (wd_at y j) = pending (wd_at x j)"
    using durable_same [OF d that] durable_quiet [OF _ that(3,4)] by blast
  have c: "txn_ok t (wd_committed x)" if "wd_at x i = Writing t a" for t a
    using ok that unfolding world_ok_def by (metis point_ok.simps(2))
  from st show ?thesis
  proof cases
    case (read_page a pid r)
    then obtain db s where y: "y = x\<lparr>wd_db := db, wd_os := s\<rparr>" and run: "read_txn_read_page pid (\<lambda>page. page) (wd_db x, wd_os x) = (r, (db, s))"
      using on_sharedD by blast
    from read_durable [OF d run] durable_quiet [of p w y x] show ?thesis by (simp add: y)
  next
    case (write_read t a pid r)
    then obtain db s where y: "y = x\<lparr>wd_db := db, wd_os := s\<rparr>" and run: "write_txn_read_page t pid (\<lambda>page. page) (wd_db x, wd_os x) = (r, (db, s))"
      using on_sharedD by blast
    have "y = goto i (Writing t a) (x\<lparr>wd_db := db, wd_os := s\<rparr>)" using write_read(1) by (simp add: y goto_def fun_upd_idem)
    moreover have "set (script s) \<subseteq> set (script (wd_os x)) \<and> db_safe p w db s {wd_committed x}"
      if "db_inv p w (wd_db x) (wd_os x) (wd_committed x) first rs" for first rs
      using open_db.write_read_any [OF that c [OF write_read(1)] run] db_inv_safe by blast
    ultimately show ?thesis using holder_step [OF ok d, of i s db "Writing t a"] write_read(1) by (simp add: unfailed_def)
  next
    case (write_change t a pid f r t' db s)
    have "set (script s) \<subseteq> set (script (wd_os x)) \<and> db_safe p w db s {wd_committed x}"
      if "db_inv p w (wd_db x) (wd_os x) (wd_committed x) first rs" for first rs
      using open_db.page_mut_any [OF that c [OF write_change(2)] write_change(3)] db_inv_safe by blast
    with holder_step [OF ok d, of i s db "Writing t' a"] write_change show ?thesis by (simp add: unfailed_def)
  next
    case (commit_log t a dirty r y')
    then obtain db s where y': "y' = x\<lparr>wd_db := db, wd_os := s\<rparr>" and run: "log_commit t dirty (wd_db x, wd_os x) = (r, (db, s))"
      using on_sharedD by blast
    from log_durable [OF ok d commit_log(2,5,4) run] commit_log(1) y' show ?thesis
      by (auto simp: unfailed_def split: sum.splits)
  next
    case (publish_pages t a imgs r y')
    then obtain db s where y': "y' = x\<lparr>wd_db := db, wd_os := s\<rparr>" and run: "publish (wt_page_count t) imgs (wd_db x, wd_os x) = (r, (db, s))"
      using on_sharedD by blast
    note P = publish_durable [OF ok d publish_pages(2) run]
    have "durable p w y" if "unfailed y"
    proof -
      from that have "wd_at y i \<noteq> Publish_Done False" by (simp add: unfailed_def)
      then have "r = Inr ()" by (cases r) (simp_all add: publish_pages(1))
      with P obtain first rs where "db_inv p w db s (apply_txn t (wd_committed x)) first rs" "whole_headers s"
        "\<And>j. j \<noteq> i \<Longrightarrow> pending (wd_at x j) = None" by blast
      with \<open>r = Inr ()\<close> show ?thesis by (intro durable_db) (simp_all add: publish_pages(1) y')
    qed
    with P show ?thesis by (simp add: publish_pages(1) y')
  next
    case (commit_end r y')
    then obtain db s where y': "y' = x\<lparr>wd_db := db, wd_os := s\<rparr>" and run: "maybe_auto_checkpoint (wd_db x, wd_os x) = (r, (db, s))"
      using on_sharedD by blast
    have "set (script s) \<subseteq> set (script (wd_os x)) \<and> db_safe p w db s {wd_committed x}"
      if "db_inv p w (wd_db x) (wd_os x) (wd_committed x) first rs" "whole_headers (wd_os x)" for first rs
      using maybe_auto_checkpoint_any [OF that run] by blast
    with holder_step [OF ok d, of i s db Releasing] commit_end y' show ?thesis by (simp add: unfailed_def)
  next
    case (checkpoint_run r y')
    then obtain db s where y': "y' = x\<lparr>wd_db := db, wd_os := s\<rparr>" and run: "checkpoint_locked (wd_db x, wd_os x) = (r, (db, s))"
      using on_sharedD by blast
    have "set (script s) \<subseteq> set (script (wd_os x)) \<and> db_safe p w db s {wd_committed x}"
      if "db_inv p w (wd_db x) (wd_os x) (wd_committed x) first rs" "whole_headers (wd_os x)" for first rs
      using checkpoint_locked_any [OF that run] by blast
    with holder_step [OF ok d, of i s db Releasing] checkpoint_run y' show ?thesis by (simp add: unfailed_def)
  next
    case commit_poison
    with up show ?thesis by (simp add: unfailed_def)
  qed (rule here; auto simp: lock_defs split: if_splits)+
qed

lemma runs_durable: "runs p w x \<Longrightarrow> unfailed x \<longrightarrow> durable p w x"
proof (induction rule: runs.induct)
  case (opened db s A)
  then have "\<not> db_poisoned db" by (simp add: begin_read_ok)
  then obtain a first rs where inv: "db_inv p w db s a first rs" using soundE [OF engine_sound [OF opened(1)]] by metis
  moreover have "whole_headers s" using sound_env [OF engine_sound [OF opened(1)]] by simp
  ultimately show ?case using db_inv_view [OF inv] by (auto simp: start_world_def intro!: durable_db)
next
  case (stepped x i y)
  then show ?case using durable_step [OF runs_world_ok [OF stepped(1)]] failure_stays by blast
qed

lemma runs_path: "runs p w x \<Longrightarrow> wal_path_for p = Inr w"
  by (induction rule: runs.induct) (use sound_env engine_sound in blast)+

section \<open>Properties\<close>

text \<open>
  C3: Threads use the database concurrently and nothing has failed so far; then power is lost, between two
  steps or in the middle of any one. Opening the database again succeeds and finds the contents that
  were committed at that moment, or those with the transaction in flight applied as a whole.
\<close>
theorem power_loss_during_concurrent_use:
  assumes "runs p w x" and "unfailed x" and "y = x \<or> step i x y"
    and "crash_os (wd_os y) c" and "tears_found w (wd_os y) c" and "script c = []" and "op_buffer_pool_pages opts \<noteq> 0"
  shows "\<exists>db s. database_open p opts c = (Inr db, s) \<and>
    (view db s = view (wd_db x) (wd_os x) \<or> (\<exists>t \<in> in_flight x. view db s = apply_txn t (view (wd_db x) (wd_os x))))"
proof -
  have ok: "world_ok p w x" and d: "durable p w x" using runs_world_ok [OF assms(1)] runs_durable [OF assms(1)] assms(2) by simp_all
  have "\<not> wd_broken x" using ok assms(2) by (auto simp: world_ok_def poison_ok_def unfailed_def)
  then have v: "view (wd_db x) (wd_os x) = wd_committed x" by (rule runs_cache [OF assms(1)])
  have "recoverable p w (wd_os y) (outcomes x)"
    using assms(3) durable_step [OF ok d assms(2), of i y] durable_quiet [OF d refl refl] by blast
  from crash_settles [OF this assms(4,5)] obtain a where a: "a \<in> outcomes x" "settled p w c a" by blast
  have "healthy c" using assms(4,6) by (simp add: crash_os_def healthy_def)
  from database_open_run [OF this settled_at_rest [OF a(2)] assms(7) runs_path [OF assms(1)]]
  obtain db s first where o: "database_open p opts c = (Inr db, s)" and inv: "db_inv p w db s a first []" by blast
  with a(1) db_inv_view [OF inv] v show ?thesis by (auto simp: outcomes_def)
qed

theorem power_loss_during_concurrent_use_witness:
  "\<exists>x a imgs db s. runs example_path example_wal_path x \<and> unfailed x \<and> wd_at x 1 = Publishing example_txn a imgs
     \<and> database_open example_path options_default (all_written (wd_os x)) = (Inr db, s)
     \<and> (view db s = empty_db \<or> view db s = apply_txn example_txn empty_db)"
proof -
  obtain db s db1 s1 imgs z dirty first rs txn grew where inv: "db_inv example_path example_wal_path db s empty_db 0 []"
    and r: "runs example_path example_wal_path (example_begun db s)" and st: "step 1 (example_begun db s) (example_started db s)"
    and w: "within writing 1 (example_started db s) z"
    and z: "z = (goto 1 (Publishing example_txn empty_db imgs) (example_writing db s))\<lparr>wd_db := db1, wd_os := s1, wd_publisher := Some 1\<rparr>"
    and imgs: "imgs = commit_images txn grew (wt_page_count example_txn) dirty"
    and lg: "txn_logged example_path example_wal_path example_txn dirty first rs db1 s1 empty_db" and up: "healthy s1"
    by (rule example_publishing)
  have rz: "runs example_path example_wal_path z" using within_runs [OF w stepped [OF r st]] .
  have unf: "unfailed z" using lg by (auto simp: z unfailed_def txn_logged_def)
  have "files s1 example_wal_path = Some (disk_file (wal_image first rs))" using lg by (auto simp: txn_logged_def wal_holds_def)
  then have tf: "tears_found example_wal_path (wd_os z) (all_written (wd_os z))"
    by (auto simp: z tears_found_def crash_detected_def disk_file_def)
  have at: "wd_at z 1 = Publishing example_txn empty_db imgs" by (simp add: z)
  have v: "view (wd_db z) (wd_os z) = empty_db" using runs_base(4) [OF rz, of 1 empty_db] by (simp add: z)
  have fl: "in_flight z = {example_txn}" by (auto simp: in_flight_def z split: if_splits)
  from power_loss_during_concurrent_use [OF rz unf _ crash_all_written tf, where opts = options_default] rz unf at v fl show ?thesis
    by (intro exI [of _ z]) (auto simp: all_written_def options_default_def)
qed

end
