(* ===== verification/Limits.thy ===== *)
theory Limits
  imports Concurrent_Crash
begin

text \<open>
  Where the guarantees end: sequences of failures that the hypotheses of the theorems on histories
  exclude, and what the engine does with them.
\<close>

section \<open>A creation that is cut off\<close>

text \<open>
  C40: Losing power while the data file is being created can leave an empty file under its name. From then
  on every attempt to open the database is refused, also one that may create it.
\<close>
theorem interrupted_create_is_refused_forever:
  "\<exists>e s c. database_open example_path options_default (new_os\<lparr>script := [Done, Done, Done, Crash]\<rparr>) = (Inl e, s)
     \<and> crash_os s c \<and> script c = []
     \<and> (\<forall>opts. \<exists>msg. database_open example_path opts c = (Inl (UnsupportedFormat msg), c))"
proof -
  let ?s = "new_os\<lparr>script := [Done, Done, Done, Crash]\<rparr>"
  obtain e s where run: "database_open example_path options_default ?s = (Inl e, s)"
    and s: "files s = [example_path \<mapsto> add_op (Write 0 new_file_image) empty_file]" "\<not> named s example_path"
    by (simp add: database_open_def database_create_def disk_create_def and_then_def lift_res_def ok_def options_default_def
        path_exists_def io_read_def next_outcome_def new_os_def try_io_def create_new_def write_all_at_def io_write_def
        wal_path_for_def file_name_def with_file_name_def example_path_def new_file_image_def Let_def)
  let ?c = "new_os\<lparr>files := [example_path \<mapsto> disk_file []], named := (\<lambda>q. q = example_path)\<rparr>"
  have "torn_write (\<lambda>_. False) 0 0 new_file_image [] = []" by (simp add: torn_write_def)
  then have "persists [] [Write 0 new_file_image] []"
    using persists.torn [of "[]" 0 0 new_file_image "\<lambda>_. False" "[]" "[]"] persists.none by simp
  then have "crash_os s ?c"
    by (auto simp: crash_os_def crash_file_def s new_os_def add_op_def empty_file_def)
  moreover have "\<exists>msg. database_open example_path opts ?c = (Inl (UnsupportedFormat msg), ?c)" for opts
  proof -
    have up: "healthy ?c" by (simp add: new_os_def healthy_def)
    have "path_exists example_path ?c = (True, ?c)" "path_exists example_wal_path ?c = (False, ?c)"
      using up by (simp_all add: path_exists_def os_simps example_path_def example_wal_path_def)
    moreover have "\<exists>msg. disk_open example_path ?c = (Inl (UnsupportedFormat msg), ?c)"
      using up by (simp add: disk_open_def open_file_def metadata_len_def os_simps prog_simps throw_def)
    ultimately show ?thesis by (auto simp: database_open_def open_existing_def and_then_def lift_res_def)
  qed
  ultimately show ?thesis using run by (auto simp: new_os_def)
qed

section \<open>A restart on a log that was never synced\<close>

text \<open>
  A process is killed between writing the records of a commit and the fsync that follows. The next process
  reads them all, since the system still has them, and replays them into the data file, which it syncs. It
  has not synced the log. If power is lost then, the log may be back at the state before the commit,
  and recovery puts older images over some of the pages and not over others.
\<close>

definition two_pages :: "page_type \<Rightarrow> page_type \<Rightarrow> adb" where
  "two_pages x y = \<lparr>ad_count = 3, ad_pages = [PageId 1 \<mapsto> seal (page_new (PageId 1) x), PageId 2 \<mapsto> seal (page_new (PageId 2) y)]\<rparr>"

definition first_records :: "wal_record list" where
  "first_records = [PageImage (TxnId 1) (PageId 1) (seal (page_new (PageId 1) Free)), Commit (TxnId 1)]"

definition second_records :: "wal_record list" where
  "second_records = [PageImage (TxnId 2) (PageId 1) (seal (page_new (PageId 1) Heap)),
     PageImage (TxnId 2) (PageId 2) (seal (page_new (PageId 2) Heap)), Commit (TxnId 2)]"

definition two_pages_file :: bytes where
  "two_pages_file = as_bytes (encode_file_header \<lparr>fh_page_count = 3\<rparr>) @ as_bytes (seal (page_new (PageId 1) Free))
     @ as_bytes (seal (page_new (PageId 2) Free))"

definition before_flush :: "wal \<times> os" where
  "before_flush =
     (\<lparr>wal_file = example_wal_path, wal_durable_len = length (wal_image 0 first_records),
       wal_pending = encode_all 2 second_records, wal_next_seq = 5, wal_poisoned = False\<rparr>,
      \<lparr>files = [example_path \<mapsto> disk_file two_pages_file, example_wal_path \<mapsto> disk_file (wal_image 0 first_records)],
       named = (\<lambda>q. q = example_path \<or> q = example_wal_path), script = [Done, Crash], crashed = False\<rparr>)"

lemma example_paths [simp]: "example_path \<noteq> example_wal_path" "example_wal_path \<noteq> example_path"
  by (simp_all add: example_path_def example_wal_path_def)

lemma two_pages_ok: "adb_ok (two_pages x y)"
proof -
  have "pid = HEADER \<or> pid = PageId 1 \<or> pid = PageId 2" if lt: "raw pid < 3" for pid
  proof (cases pid)
    case (PageId n)
    from lt PageId have "unat n = 0 \<or> unat n = 1 \<or> unat n = 2" by (auto simp: word_less_nat_alt)
    then have "n = 0 \<or> n = 1 \<or> n = 2" by (auto simp: word_unat_eq_iff)
    with PageId show ?thesis by (auto simp: HEADER_def)
  qed
  moreover have "raw (PageId 1) < 3" "raw (PageId 2) < 3" by (simp_all add: word_less_nat_alt)
  ultimately have "dom (ad_pages (two_pages x y)) = {pid. pid \<noteq> HEADER \<and> raw pid < ad_count (two_pages x y)}"
    by (auto simp: two_pages_def HEADER_def)
  moreover have "ad_pages (two_pages x y) pid = Some q \<Longrightarrow> valid_page pid q" for pid q
    by (auto simp: two_pages_def valid_new_page split: if_splits)
  ultimately show ?thesis unfolding adb_ok_def by (simp add: two_pages_def)
qed

lemma full_two_pages: "full (two_pages x y) = [HEADER \<mapsto> encode_file_header \<lparr>fh_page_count = 3\<rparr>,
   PageId 1 \<mapsto> seal (page_new (PageId 1) x), PageId 2 \<mapsto> seal (page_new (PageId 2) y)]"
  by (auto simp: full_def two_pages_def HEADER_def fun_eq_iff)

lemma two_pages_safe: "safe {} (two_pages Free Free) two_pages_file"
proof -
  have "page_at 0 (encode_file_header \<lparr>fh_page_count = 3\<rparr>) two_pages_file"
    "page_at 1 (seal (page_new (PageId 1) Free)) two_pages_file" "page_at 2 (seal (page_new (PageId 2) Free)) two_pages_file"
    by (simp_all add: page_at_def file_page_def two_pages_file_def subslice_def)
  then show ?thesis by (auto simp: safe_def full_two_pages split: if_splits)
qed

lemma two_pages_log:
  "log_ok first_records (two_pages Free y)" "logged first_records = {PageId 1}"
  "log_ok (first_records @ second_records) (two_pages Heap Heap)" "logged (first_records @ second_records) = {PageId 1, PageId 2}"
proof -
  have i1: "images (committed_in first_records) first_records = [(PageId 1, seal (page_new (PageId 1) Free))]"
    by (simp add: first_records_def committed_in_def)
  have i2: "images (committed_in (first_records @ second_records)) (first_records @ second_records) =
      [(PageId 1, seal (page_new (PageId 1) Free)), (PageId 1, seal (page_new (PageId 1) Heap)), (PageId 2, seal (page_new (PageId 2) Heap))]"
    by (simp add: first_records_def second_records_def committed_in_def)
  have ok: "image_ok (PageId 1, seal (page_new (PageId 1) x))" "image_ok (PageId 2, seal (page_new (PageId 2) x))" for x
    by (simp_all add: image_ok_def HEADER_def valid_new_page)
  show "log_ok first_records (two_pages Free y)" "logged first_records = {PageId 1}"
    by (simp_all add: log_ok_def all_images_ok_def redo_def i1 ok full_two_pages map_le_def)
  show "log_ok (first_records @ second_records) (two_pages Heap Heap)"
    "logged (first_records @ second_records) = {PageId 1, PageId 2}"
    by (auto simp: log_ok_def all_images_ok_def redo_def i2 ok full_two_pages map_le_def)
qed

lemma sealed_types_differ: "seal (page_new pid Free) \<noteq> seal (page_new pid Heap)"
proof
  assume "seal (page_new pid Free) = seal (page_new pid Heap)"
  then have "as_bytes (seal (page_new pid Free)) ! 4 = as_bytes (seal (page_new pid Heap)) ! 4" by simp
  then show False by (simp add: page_fields)
qed

lemma two_pages_differ: "two_pages Free Heap \<noteq> two_pages Free Free" "two_pages Free Heap \<noteq> two_pages Heap Heap"
  using sealed_types_differ by (auto simp: two_pages_def fun_eq_iff dest: sym)

text \<open>
  C37: The whole run: a closed database with two pages, the second commit cut off after its write, the
  process killed, the log opened and replayed by the next one, power lost. The database that is opened
  then has one page of the commit and not the other.
\<close>
theorem restart_then_power_loss_tears_commit:
  "\<exists>e wl s s1 opened s2 st s3 c db s4.
     settled example_path example_wal_path (snd before_flush) (two_pages Free Free)
     \<and> wal_flush before_flush = (Inl e, (wl, s)) \<and> killed s s1 \<and> healthy s1
     \<and> wal_open example_wal_path s1 = (Inr opened, s2) \<and> replay example_path (ow_records opened) s2 = (Inr st, s3)
     \<and> crash_os s3 c \<and> tears_found example_wal_path s3 c \<and> script c = []
     \<and> database_open example_path options_default c = (Inr db, s4)
     \<and> view db s4 = two_pages Free Heap
     \<and> view db s4 \<noteq> two_pages Free Free \<and> view db s4 \<noteq> two_pages Heap Heap"
proof -
  let ?p = example_path and ?w = example_wal_path and ?W = "wal_image 0 first_records" and ?s0 = "snd before_flush"
  let ?data = "encode_all 2 second_records" and ?all = "first_records @ second_records"
  let ?g = "add_op (Write (length ?W) ?data) (disk_file ?W)"
  have "no_record (0 + of_nat (length first_records)) []" by simp
  then have set0: "settled ?p ?w ?s0 (two_pages Free Free)"
    unfolding settled_def
    using two_pages_ok two_pages_log(1) safe_mono [OF _ two_pages_safe, of "logged first_records"]
    by (intro conjI exI [of _ two_pages_file] exI [of _ 0] exI [of _ first_records] exI [of _ "[]"])
      (simp_all add: before_flush_def first_records_def)
  have pend: "?data \<noteq> []" using encode_all_eq_Nil [of 2 second_records] by (simp add: second_records_def)
  then obtain e wl s where fl: "wal_flush before_flush = (Inl e, (wl, s))"
    and s: "files s = [?p \<mapsto> disk_file two_pages_file, ?w \<mapsto> ?g]" "named s = named ?s0"
    by (auto simp: wal_flush_def before_flush_def wal_check_poisoned_def and_then_def write_all_at_def sync_all_def io_write_def
        next_outcome_def Let_def)
  define s1 where "s1 = s\<lparr>crashed := False, script := []\<rparr>"
  have up: "healthy s1" and k: "killed s s1" and f1: "files s1 = files s" by (simp_all add: s1_def healthy_def killed_def)
  have cg: "contents ?g = wal_image 0 ?all @ []"
    using wal_image_append [of 0 first_records second_records] by (simp add: write_bytes_end) (simp add: first_records_def)
  obtain why where o: "wal_open ?w s1 = (Inr \<lparr>ow_wal = \<lparr>wal_file = ?w, wal_durable_len = length (wal_image 0 ?all), wal_pending = [],
       wal_next_seq = 0 + of_nat (length ?all), wal_poisoned = False\<rparr>, ow_records = numbered 0 ?all, ow_discarded = None\<rparr>, s1)"
    using wal_open_run [OF up _ cg no_record_Nil, of ?w] s(1) f1 by auto
  let ?bs = "redo_bytes (latest ?all) two_pages_file" and ?s3 = "with_file ?p (disk_file (redo_bytes (latest ?all) two_pages_file)) s1"
  have "latest ?all \<noteq> []"
  proof
    assume "latest ?all = []"
    then have "redo ?all = Map.empty" unfolding map_of_latest [of ?all, symmetric] by simp
    with two_pages_log(4) show False by simp
  qed
  moreover have "all_images_ok (map dr_record (numbered 0 ?all))" using two_pages_log(3) by (simp add: log_ok_def)
  ultimately obtain st where rp: "replay ?p (numbered 0 ?all) s1 = (Inr st, ?s3)"
    using replay_run [OF up _ _ _, of ?p "disk_file two_pages_file" "numbered 0 ?all"] s(1) f1 by simp
  define c where "c = new_os\<lparr>files := [?p \<mapsto> disk_file ?bs, ?w \<mapsto> disk_file ?W], named := named ?s0\<rparr>"
  have "torn_write (\<lambda>_. False) (length ?W) (length ?W) ?data ?W = ?W" by (intro nth_equalityI) (simp_all add: torn_write_def)
  then have "persists ?W [Write (length ?W) ?data] ?W"
    using persists.torn [of ?W "length ?W" "length ?W" ?data "\<lambda>_. False" "[]" ?W] persists.none by simp
  then have cr: "crash_os ?s3 c"
    by (auto simp: crash_os_def crash_file_def c_def s1_def s new_os_def before_flush_def add_op_def disk_file_def intro: persists.none)
  have "tears_detected ?data []" using tears_detected_prefix [of ?data 0] by simp
  then have tf: "tears_found ?w ?s3 c"
    by (simp add: tears_found_def crash_detected_def c_def s1_def s add_op_def) (simp add: disk_file_def)
  have "safe (logged ?all) (two_pages Heap Heap) two_pages_file"
    using two_pages_safe by (auto simp: safe_def full_two_pages two_pages_log(4) split: if_splits)
  from redo_bytes_safe [OF two_pages_ok two_pages_log(3) this]
  have "safe (logged first_records) (two_pages Free Heap) ?bs"
    by (auto simp: safe_def full_two_pages two_pages_log(2) split: if_splits)
  then have "settled ?p ?w c (two_pages Free Heap)"
    unfolding settled_def using two_pages_ok two_pages_log(1)
    by (intro conjI exI [of _ ?bs] exI [of _ 0] exI [of _ first_records] exI [of _ "[]"])
      (simp_all add: c_def before_flush_def first_records_def)
  moreover have "healthy c" by (simp add: c_def new_os_def healthy_def)
  ultimately obtain db s4 first where op: "database_open ?p options_default c = (Inr db, s4)"
    and inv: "db_inv ?p ?w db s4 (two_pages Free Heap) first []"
    using database_open_run [OF _ settled_at_rest, of c ?p ?w "two_pages Free Heap" options_default] by (auto simp: options_default_def)
  have "script c = []" by (simp add: c_def new_os_def)
  with set0 fl k up o rp cr tf op db_inv_view [OF inv] two_pages_differ show ?thesis by fastforce
qed

section \<open>Between a failed publish and the poisoning\<close>

text \<open>
  When publishing a commit fails half way, the lock that keeps readers out is released before the
  database is poisoned. A read transaction that begins in between is let in, and sees some of the
  commit's pages and not the others. Here the pool has one frame, and the eviction that the second
  page needs fails.
\<close>

definition small_db :: database where
  "small_db = \<lparr>db_disk = \<lparr>dk_file = example_path, dk_page_count = 3\<rparr>, db_pool = [shard_new 1],
     db_auto_checkpoint_bytes = None, db_wal = fst before_flush, db_next_txn = 3, db_poisoned = False,
     db_report = open_report_default\<rparr>"

definition one_fault :: os where
  "one_fault = (snd before_flush)\<lparr>script := [Fault (Io_Error OtherKind ''No space left on device'') 0]\<rparr>"

abbreviation "page1 \<equiv> seal (page_new (PageId 1) Heap)"
abbreviation "page2 \<equiv> seal (page_new (PageId 2) Heap)"

definition one_frame :: "bool \<Rightarrow> shard" where
  "one_frame ref = \<lparr>sh_frames = [\<lparr>fr_page = page1, fr_dirty = True\<rparr>], sh_page_table = [(PageId 1, 0)],
     sh_frame_pages = [Some (PageId 1)], sh_pin_counts = [0], sh_ref_bits = [ref], sh_clock_hand = 0, sh_free_frames = []\<rparr>"

lemma one_shard [simp]: "shard_for [sh] pid = 0"
  by (simp add: shard_for_def Let_def)

lemma new_page_simps [simp]: "get_page_id (page_new pid ty) = pid" "seal (seal (page_new pid ty)) = seal (page_new pid ty)"
  using valid_page_sealed [OF valid_new_page] by (simp_all add: page_fields)

lemma find_victim_one_frame: "find_victim (one_frame ref) = (Some 0, one_frame False)"
  by (cases ref) (simp_all add: find_victim_def one_frame_def numeral_2_eq_2 set_ref_def Let_def)

lemma small_checks: "disk_check_data_page (db_disk small_db) (PageId 1) = Inr ()" "disk_check_data_page (db_disk small_db) (PageId 2) = Inr ()"
  by (simp_all add: small_db_def check_data_page_iff HEADER_def word_less_nat_alt)

lemma install_first:
  "install_page d (PageId 1) page1 ([shard_new 1], s) = (Inr (), ([one_frame True], s))"
  by (simp add: install_page_def on_shard_def shard_install_page_def acquire_frame_def and_then_def shard_new_def set_frame_def
      set_ref_def table_insert_def one_frame_def Let_def)

lemma install_second:
  assumes "script s0 = [Fault e0 0]" and "\<not> crashed s0" and "files s0 example_path = Some (disk_file two_pages_file)"
  shows "\<exists>e s. install_page (db_disk small_db) (PageId 2) page2 ([one_frame True], s0) = (Inl e, ([one_frame False], s))
     \<and> healthy s \<and> (\<exists>f. files s example_path = Some f \<and> contents f = two_pages_file)"
proof -
  have "\<exists>e s. disk_write_page (db_disk small_db) (PageId 1) (page1, s0) = (Inl e, (page1, s))
     \<and> healthy s \<and> (\<exists>f. files s example_path = Some f \<and> contents f = two_pages_file)"
    using small_checks assms
    by (simp add: disk_write_page_def small_db_def try_io_def write_all_at_def io_write_def
        next_outcome_def healthy_def write_bytes_def Let_def)
  then obtain e s where wr: "disk_write_page (db_disk small_db) (PageId 1) (page1, s0) = (Inl e, (page1, s))"
    and s: "healthy s \<and> (\<exists>f. files s example_path = Some f \<and> contents f = two_pages_file)" by blast
  have "map_of (sh_page_table (one_frame True)) (PageId 2) = None" "sh_free_frames (one_frame True) = []"
    by (simp_all add: one_frame_def)
  moreover have "write_back (db_disk small_db) 0 (PageId 1) (one_frame False, s0) = (Inl e, (one_frame False, s))"
    using wr by (simp add: write_back_def one_frame_def set_frame_def Let_def)
  moreover have "sh_frame_pages (one_frame False) ! 0 = Some (PageId 1)" by (simp add: one_frame_def)
  ultimately have "acquire_frame (db_disk small_db) (one_frame True, s0) = (Inl e, (one_frame False, s))"
    by (simp add: acquire_frame_def find_victim_one_frame)
  then have "install_page (db_disk small_db) (PageId 2) page2 ([one_frame True], s0) = (Inl e, ([one_frame False], s))"
    by (simp add: install_page_def on_shard_def shard_install_page_def and_then_def one_frame_def)
  with s show ?thesis by blast
qed

lemma small_chk:
  "check_data_page (PageId 1) 3 = Inr ()" "check_data_page (PageId 2) 3 = Inr ()"
  "read_txn_page_count (small_db\<lparr>db_pool := pool\<rparr>) = 3"
  by (simp_all add: check_data_page_def HEADER_def word_le_nat_alt read_txn_page_count_def disk_page_count_def small_db_def)

lemma read_first:
  "read_txn_read_page (PageId 1) (\<lambda>page. page) (small_db\<lparr>db_pool := [one_frame False]\<rparr>, s) =
     (Inr page1, (small_db\<lparr>db_pool := [one_frame True]\<rparr>, s))"
proof -
  have "read_through (db_disk small_db) (PageId 1) ([one_frame False], s) = (Inr page1, ([one_frame True], s))"
    by (simp add: read_through_def fetch_page_def on_shard_def shard_fetch_page_def handle_read_def handle_drop_def pin_def unpin_def
        set_ref_def one_frame_def Let_def)
  then show ?thesis using small_chk by (simp add: read_txn_read_page_def and_then_def ok_def on_pool_def)
qed

text \<open>Reading the second page evicts the first, now successfully, and finds the old contents in the file.\<close>

lemma evict_first:
  assumes up: "healthy s" and f: "files s example_path = Some f" "contents f = two_pages_file"
  shows "\<exists>sh s2. acquire_frame (db_disk small_db) (one_frame True, s) = (Inr 0, (sh, s2)) \<and> length (sh_frames sh) = 1
    \<and> disk_read_page (db_disk small_db) (PageId 2) s2 = (Inr (seal (page_new (PageId 2) Free)), s2)"
proof -
  let ?d = "db_disk small_db"
  have fd: "files s (dk_file ?d) = Some f" using f(1) by (simp add: small_db_def)
  have lt: "raw (PageId 1) < dk_page_count ?d" "raw (PageId 2) < dk_page_count ?d" by (simp_all add: small_db_def word_less_nat_alt)
  define s2 where "s2 = with_file (dk_file ?d) (add_op (Write 4096 (as_bytes page1)) f) s"
  have "disk_write_page ?d (PageId 1) (page1, s) = (Inr (), (page1, s2))"
    using write_page_run [OF up fd _ _ lt(1), of page1] by (simp add: no_wrap_def HEADER_def s2_def)
  then have wb: "write_back ?d 0 (PageId 1) (one_frame False, s) = (Inr (), (set_frame 0 \<lparr>fr_page = page1, fr_dirty = False\<rparr> (one_frame False), s2))"
    by (simp add: write_back_def one_frame_def Let_def)
  have "page_at 2 (seal (page_new (PageId 2) Free)) two_pages_file"
    by (simp add: page_at_def file_page_def two_pages_file_def subslice_def)
  then have "page_at 2 (seal (page_new (PageId 2) Free)) (write_bytes 4096 (as_bytes page1) two_pages_file)"
    using file_page_write_other [of 1 2 "as_bytes page1" two_pages_file] by (simp add: page_at_def)
  then have "disk_read_page ?d (PageId 2) s2 = (Inr (seal (page_new (PageId 2) Free)), s2)"
    using read_page_valid [of s2 ?d "add_op (Write 4096 (as_bytes page1)) f" "PageId 2", OF _ _ _ _ lt(2) valid_new_page] up f(2)
    by (simp add: no_wrap_def HEADER_def page_at_def s2_def)
  moreover have "sh_free_frames (one_frame True) = []" "sh_frame_pages (one_frame False) ! 0 = Some (PageId 1)"
    "length (sh_frames (one_frame False)) = 1" by (simp_all add: one_frame_def)
  ultimately show ?thesis by (simp add: acquire_frame_def find_victim_one_frame wb Let_def)
qed

lemma read_second:
  assumes "healthy s" and "files s example_path = Some f" and "contents f = two_pages_file"
  shows "\<exists>db2 s2. read_txn_read_page (PageId 2) (\<lambda>page. page) (small_db\<lparr>db_pool := [one_frame True]\<rparr>, s) =
     (Inr (seal (page_new (PageId 2) Free)), (db2, s2))"
proof -
  from evict_first [OF assms] obtain sh1 s2 where ac: "acquire_frame (db_disk small_db) (one_frame True, s) = (Inr 0, (sh1, s2))"
    "length (sh_frames sh1) = 1" "disk_read_page (db_disk small_db) (PageId 2) s2 = (Inr (seal (page_new (PageId 2) Free)), s2)" by blast
  moreover have "map_of (sh_page_table (one_frame True)) (PageId 2) = None" by (simp add: one_frame_def)
  ultimately have "\<exists>sh. shard_fetch_page (db_disk small_db) (PageId 2) (one_frame True, s) = (Inr \<lparr>ph_frame_id = 0, ph_page_id = PageId 2\<rparr>, (sh, s2))
      \<and> fr_page (sh_frames sh ! 0) = seal (page_new (PageId 2) Free)"
    by (simp add: shard_fetch_page_def and_then_def Let_def)
  then have "\<exists>pool. read_through (db_disk small_db) (PageId 2) ([one_frame True], s) = (Inr (seal (page_new (PageId 2) Free)), (pool, s2))"
    by (auto simp: read_through_def fetch_page_def on_shard_def handle_read_def Let_def)
  then show ?thesis using small_chk by (auto simp: read_txn_read_page_def and_then_def ok_def on_pool_def)
qed


section \<open>A checkpoint that waited for the commit that failed\<close>

text \<open>
  \<^verbatim>\<open>checkpoint\<close> looks at the poison flag before it waits for the log's lock and not again once it has it,
  as \<^verbatim>\<open>WriteTxn::new\<close> does. If the commit it waited for has failed to publish, the checkpoint runs on the
  poisoned handle: it writes the half-published pages to the data file and empties the log, which was the
  only place that still had the commit.
\<close>

text \<open>A checkpoint makes permanent whatever the cache shows.\<close>

lemma checkpoint_settles:
  assumes ok: "cache_ok p w db s a" and up: "healthy s" and "\<not> unsure s p" "named s p" "named s w"
    and holds: "wal_holds (db_wal db) s first rs []"
  shows "\<exists>db' s'. checkpoint_locked (db, s) = (Inr (), (db', s')) \<and> healthy s' \<and> settled p w s' a"
proof -
  let ?d = "db_disk db"
  have b: "p \<noteq> w" "dk_file ?d = p" "dk_page_count ?d = ad_count a" "adb_ok a" "wal_file (db_wal db) = w"
    and pool: "pool_inv ?d (\<lambda>_. True) UNIV (ad_pages a) (db_pool db, s)" and idle: "idle_pool (db_pool db)"
    using ok by (simp_all add: cache_ok_def)
  obtain r1 pool1 s1 where fl: "flush_all ?d (db_pool db, s) = (r1, (pool1, s1))" by (metis surj_pair)
  have r1: "r1 = Inr ()" "healthy s1" using flush_all_idle [OF cache_ok_ctx [OF ok] pool idle fl] up by simp_all
  note F = flush_all_any [OF cache_ok_ctx [OF ok] pool fl]
  then have clean: "\<forall>i pid. \<not> dirty_at pool1 i pid" and k: "keeps p s s1"
    and pool1: "pool_inv ?d (\<lambda>_. True) UNIV (ad_pages a) (pool1, s1)" using r1(1) b(2) by auto
  then obtain f where f: "files s1 p = Some f" using b(2) by (auto simp: pool_inv_def file_inv_def)
  obtain g where hd: "write_file_header ?d s1 = (Inr (), with_file p g s1)"
    using f r1(2) b(2) by (simp add: write_file_header_def write_all_at_def os_simps prog_simps Let_def)
  let ?s2 = "with_file p (sync_file g) s1"
  have sy: "disk_sync ?d (with_file p g s1) = (Inr (), ?s2)"
    using r1(2) b(2) by (simp add: disk_sync_def sync_all_def os_simps prog_simps)
  have hs: "and_then (write_file_header ?d) (\<lambda>_. disk_sync ?d) s1 = (Inr (), ?s2)" using hd sy by (simp add: and_then_def)
  have "HEADER \<notin> dom (ad_pages a)" using adb_ok_page(2) [OF b(4)] by blast
  from checkpoint_file [OF b(2,3) this clean pool1 _ hs] obtain g2 where g2: "files ?s2 p = Some g2" "g2 = disk_file (contents g2)" "safe {} a (contents g2)"
    using k assms(3) by (auto simp: write_closed_def keeps_def)
  have w2: "files ?s2 w = files s w" "named ?s2 = named s" using k b(1) by (auto simp: keeps_def touches_def)
  have "wal_holds (db_wal db) ?s2 first rs []" using holds w2 b(5) by (simp add: wal_holds_def)
  from wal_reset_run [OF this] r1(2) obtain wl s3 where rs: "wal_reset (db_wal db, ?s2) = (Inr (), (wl, s3))" "healthy s3"
    and h3: "wal_holds wl s3 (wal_next_seq (db_wal db)) [] []" "wal_file wl = w" "named s3 = named ?s2" "files s3 p = files ?s2 p"
    using b(1,5) by auto
  have "settled p w s3 a" unfolding settled_def
    by (intro conjI exI [of _ "contents g2"] exI [of _ "wal_next_seq (db_wal db)"] exI [of _ "[]"])
      (use b g2 h3 w2 assms(4,5) in \<open>auto simp: wal_holds_def\<close>)
  with fl r1 hd sy rs show ?thesis
    by (simp add: checkpoint_locked_def write_checkpoint_def and_then_def on_pool_def on_disk_def on_wal_def)
qed

definition race_txn :: write_txn where
  "race_txn = \<lparr>wt_dirty = [(PageId 1, page_new (PageId 1) Heap), (PageId 2, page_new (PageId 2) Heap)], wt_page_count = 3\<rparr>"

text \<open>The commit is in the log; the next write to the data file will fail.\<close>

definition race_db :: database where
  "race_db = small_db\<lparr>db_wal := \<lparr>wal_file = example_wal_path, wal_durable_len = length (wal_image 0 (first_records @ second_records)),
     wal_pending = [], wal_next_seq = 5, wal_poisoned = False\<rparr>\<rparr>"

definition race_os :: os where
  "race_os = one_fault\<lparr>files := (files one_fault)(example_wal_path \<mapsto> disk_file (wal_image 0 (first_records @ second_records)))\<rparr>"

text \<open>Thread 1 is about to publish, thread 2 waits to checkpoint.\<close>

definition race_world :: world where
  "race_world = \<lparr>wd_db = race_db, wd_os = race_os, wd_wal_lock = Some 1, wd_readers = {}, wd_publisher = Some 1,
     wd_at = (\<lambda>_. Idle)(1 := Publishing race_txn (two_pages Free Free) [PageImage (TxnId 2) (PageId 1) page1, PageImage (TxnId 2) (PageId 2) page2],
       2 := Checkpoint_Checked), wd_committed = two_pages Free Free, wd_broken = False\<rparr>"

abbreviation "race_dirty \<equiv> [(PageId 1, page1), (PageId 2, page2)]"
abbreviation "race_images \<equiv> [PageImage (TxnId 2) (PageId 1) page1, PageImage (TxnId 2) (PageId 2) page2]"

lemma race_pool:
  "pool_inv (db_disk race_db) P {} (ad_pages (two_pages Free Free)) (db_pool race_db, race_os)" "idle_pool (db_pool race_db)"
  if "P two_pages_file"
proof -
  have "pool_new 1 = Inr [shard_new 1]" by (simp add: pool_new_def shard_count_for_def MAX_SHARDS_def ilog2.simps [of "Suc 0"] Let_def)
  moreover have "file_inv (db_disk race_db) P (ad_pages (two_pages Free Free)) (\<lambda>_. False) race_os"
  proof -
    have "page_at (unat (raw pid)) x two_pages_file" if "ad_pages (two_pages Free Free) pid = Some x" for pid x
      using two_pages_safe that adb_ok_page(2) [OF two_pages_ok that] by (auto simp: safe_def full_def)
    with \<open>P two_pages_file\<close> show ?thesis
      by (auto simp: file_inv_def race_db_def small_db_def race_os_def one_fault_def before_flush_def survives_synced)
  qed
  ultimately show "pool_inv (db_disk race_db) P {} (ad_pages (two_pages Free Free)) (db_pool race_db, race_os)" "idle_pool (db_pool race_db)"
    using fresh_pool [of 1 "[shard_new 1]"] by (simp_all add: race_db_def small_db_def)
qed

lemma race_applied: "apply_txn race_txn (two_pages Free Free) = two_pages Heap Heap"
  by (auto simp: apply_txn_def race_txn_def two_pages_def fun_eq_iff map_add_def)

lemma race_txn_ok: "txn_ok race_txn (two_pages Free Free)"
  by (auto simp: txn_ok_def race_txn_def two_pages_def bt_ordered_def HEADER_def word_less_nat_alt word_le_nat_alt less_page_id_def)

lemma race_sealed: "seal_all (wt_dirty race_txn) = Inr race_dirty"
proof -
  have "\<forall>(pid, page) \<in> set (wt_dirty race_txn). valid_page pid (seal page)" by (simp add: race_txn_def valid_new_page)
  from seal_all_ok [OF this] show ?thesis by (simp add: race_txn_def)
qed

text \<open>It is a state of the engine: the transaction is logged, and nothing has failed.\<close>

lemma race_logged:
  "txn_logged example_path example_wal_path race_txn race_dirty 0 (first_records @ second_records) race_db race_os (two_pages Free Free)"
proof -
  let ?rs = "first_records @ second_records"
  have "safe (logged ?rs) (two_pages Heap Heap) two_pages_file"
    using two_pages_safe by (auto simp: safe_def full_two_pages two_pages_log(4) split: if_splits)
  from race_pool(1) [of "safe (logged ?rs) (two_pages Heap Heap)", OF this]
  have "pool_inv (db_disk race_db) (safe (logged ?rs) (two_pages Heap Heap)) (logged ?rs) (ad_pages (two_pages Free Free)) (db_pool race_db, race_os)"
    by (rule pool_inv_weaken) simp_all
  moreover have "idle_pool (db_pool race_db)" by (rule race_pool(2) [of "\<lambda>_. True"]) simp
  moreover have "wal_holds (db_wal race_db) race_os 0 ?rs []"
    by (simp add: wal_holds_def race_db_def race_os_def) (simp add: first_records_def second_records_def)
  moreover have "\<forall>r \<in> set ?rs. committed_in ?rs (record_txn r) \<and> txn_raw (record_txn r) < db_next_txn race_db"
    by (auto simp: first_records_def second_records_def committed_in_def race_db_def small_db_def word_less_nat_alt)
  moreover have "length ?rs < 2 ^ 64" by (simp add: first_records_def second_records_def)
  ultimately show ?thesis
    using two_pages_ok two_pages_log(3,4) race_txn_ok race_sealed
    by (simp add: txn_logged_def race_applied)
      (simp add: race_db_def small_db_def race_os_def one_fault_def before_flush_def two_pages_def unsure_def)
qed

lemma race_publish:
  "\<exists>e db s. publish 3 race_images (race_db, race_os) = (Inl e, (db, s)) \<and> healthy s \<and> \<not> unsure s example_path
     \<and> named s example_path \<and> named s example_wal_path \<and> cache_ok example_path example_wal_path db s (two_pages Heap Free)
     \<and> wal_holds (db_wal db) s 0 (first_records @ second_records) [] \<and> \<not> db_poisoned db"
proof -
  let ?d = "db_disk small_db" and ?db = "race_db\<lparr>db_pool := [one_frame False]\<rparr>" and ?a = "two_pages Free Free"
  have d: "db_disk race_db = ?d" "db_pool race_db = [shard_new 1]" "dk_file ?d = example_path" "dk_page_count ?d = 3"
    by (simp_all add: race_db_def small_db_def)
  note lg = race_logged [unfolded txn_logged_def]
  obtain e s f where ins: "install_page ?d (PageId 2) page2 ([one_frame True], race_os) = (Inl e, ([one_frame False], s))"
    and s: "healthy s" using install_second [of race_os] by (auto simp: race_os_def one_fault_def before_flush_def)
  have "set_page_count 3 ?d = (Inr (), ?d)" by (simp add: set_page_count_def disk_page_count_def small_db_def)
  then have pub: "publish 3 race_images (race_db, race_os) = (Inl e, (?db, s))"
    using ins install_first [of ?d race_os] by (simp add: publish_def and_then_def on_pool_def HEADER_def d)
  have "pool_inv ?d (\<lambda>_. True) UNIV (ad_pages ?a) ([shard_new 1], race_os)"
    using pool_inv_weaken [OF race_pool(1) [of "\<lambda>_. True"], of ?d "\<lambda>_. True" UNIV] d by simp
  then have "cache_state ?d (\<lambda>_. True) UNIV race_os (ad_pages ?a) ([shard_new 1], race_os)"
    using any_cache_ctx [OF two_pages_ok, of ?d Free Free] race_pool(2) [of "\<lambda>_. True"] d
    by (simp add: cache_state_def two_pages_def)
  moreover have acc: "cache_accepts ?d UNIV (PageId 1) page1" "cache_accepts ?d UNIV (PageId 2) page2"
    using adb_ok_page(2-4) [OF two_pages_ok [of Heap Heap]] d(4)
    by (simp_all add: cache_accepts_def valid_new_page disk_addr_def two_pages_def no_wrap_def HEADER_def word_less_nat_alt)
  ultimately have "cache_state ?d (\<lambda>_. True) UNIV race_os ((ad_pages ?a)(PageId 1 \<mapsto> page1)) ([one_frame True], race_os)"
    using pc.put_any install_first [of ?d race_os] by fastforce
  from pc.put_any [OF this acc(2) ins] have st: "cache_state ?d (\<lambda>_. True) UNIV race_os ((ad_pages ?a)(PageId 1 \<mapsto> page1)) ([one_frame False], s)"
    by simp
  have pages: "(ad_pages ?a)(PageId 1 \<mapsto> page1) = ad_pages (two_pages Heap Free)" by (auto simp: two_pages_def fun_eq_iff)
  have k: "keeps example_path race_os s" using st d by (simp add: cache_state_def)
  then have n: "named s = named race_os" "files s example_wal_path = files race_os example_wal_path" "\<not> unsure s example_path"
    using lg by (auto simp: keeps_def touches_def)
  have "cache_ok example_path example_wal_path ?db s (two_pages Heap Free)"
    using st two_pages_ok [of Heap Free] lg d unfolding pages cache_ok_def cache_state_def by (simp add: two_pages_def)
  moreover have "wal_holds (db_wal ?db) s 0 (first_records @ second_records) []" using lg n by (clarsimp simp: wal_holds_def)
  ultimately show ?thesis using pub s n lg by auto
qed

lemma two_pages_mixed: "two_pages Heap Free \<noteq> two_pages Free Free" "two_pages Heap Free \<noteq> two_pages Heap Heap"
  using sealed_types_differ by (auto simp: two_pages_def fun_eq_iff dest: sym)

text \<open>
  C39: From a state in which the commit is durable in the log and nothing has failed, with thread 2 waiting
  to checkpoint: publishing fails, the handle is poisoned, the checkpoint goes through all the same, and the
  database that is opened next has one page of the commit and not the other.
\<close>
theorem late_checkpoint_tears_commit:
  "txn_logged example_path example_wal_path race_txn race_dirty 0 (first_records @ second_records) (wd_db race_world) (wd_os race_world)
     (two_pages Free Free)
   \<and> (\<exists>y db s. steps race_world y \<and> db_poisoned (wd_db y) \<and> healthy (wd_os y)
        \<and> database_open example_path options_default (wd_os y) = (Inr db, s) \<and> view db s = two_pages Heap Free
        \<and> view db s \<noteq> two_pages Free Free \<and> view db s \<noteq> apply_txn race_txn (two_pages Free Free))"
proof -
  let ?x = race_world and ?p = example_path and ?w = example_wal_path
  obtain e db s where pub: "publish 3 race_images (race_db, race_os) = (Inl e, (db, s))"
    and s: "healthy s" "\<not> unsure s ?p" "named s ?p" "named s ?w" and ok: "cache_ok ?p ?w db s (two_pages Heap Free)"
    and holds: "wal_holds (db_wal db) s 0 (first_records @ second_records) []" using race_publish by blast
  have "cache_ok ?p ?w (poison db) s (two_pages Heap Free)"
    using cache_ok_other [OF ok, of "poison db" s] ok by (simp add: poison_def cache_ok_def)
  moreover have "wal_holds (db_wal (poison db)) s 0 (first_records @ second_records) []" using holds by (simp add: poison_def)
  ultimately obtain db' s' where ck: "checkpoint_locked (poison db, s) = (Inr (), (db', s'))"
    and s': "healthy s'" "settled ?p ?w s' (two_pages Heap Free)"
    using checkpoint_settles [OF _ s] by blast
  let ?x1 = "goto 1 (Publish_Done False) (?x\<lparr>wd_db := db, wd_os := s, wd_broken := True\<rparr>)"
  let ?x2 = "goto 1 Failing (?x1\<lparr>wd_publisher := None\<rparr>)"
  let ?x3 = "goto 1 Releasing (?x2\<lparr>wd_db := poison db\<rparr>)"
  let ?x4 = "goto 1 Idle (?x3\<lparr>wd_wal_lock := None\<rparr>)"
  let ?x5 = "goto 2 Checkpoint_Locked (?x4\<lparr>wd_wal_lock := Some 2\<rparr>)"
  let ?y = "goto 2 Releasing (?x5\<lparr>wd_db := db', wd_os := s'\<rparr>)"
  have "step 1 ?x ?x1"
    using step.publish_pages [of ?x 1 race_txn "two_pages Free Free" race_images "Inl e" "?x\<lparr>wd_db := db, wd_os := s\<rparr>"] pub
    by (simp add: race_world_def on_shared_def race_txn_def)
  moreover have "step 1 ?x1 ?x2" using step.publish_unlock [of ?x1 1 False] by simp
  moreover have "step 1 ?x2 ?x3" using step.commit_poison [of ?x2 1] by simp
  moreover have "step 1 ?x3 ?x4" by (rule step.release) simp
  moreover have "step 2 ?x4 ?x5" by (rule step.checkpoint_lock) (simp_all add: race_world_def lock_wal_def)
  moreover have "step 2 ?x5 ?y" by (rule step.checkpoint_run) (use ck in \<open>simp_all add: on_shared_def\<close>)
  ultimately have "steps ?x ?y" by (blast intro: converse_rtranclp_into_rtranclp)
  moreover have "db_poisoned db'" using checkpoint_poisoned(1) [OF ck] by (simp add: poison_def)
  moreover obtain db3 s3 first where "database_open ?p options_default s' = (Inr db3, s3)" "db_inv ?p ?w db3 s3 (two_pages Heap Free) first []"
    using database_open_run [OF s'(1) settled_at_rest [OF s'(2)], of options_default] by (auto simp: options_default_def)
  ultimately show ?thesis using s'(1) db_inv_view two_pages_mixed race_logged
    by (auto simp: race_applied intro!: exI [of _ ?y]) (simp_all add: race_world_def)
qed

end
