(* ===== verification/Shard_Locks.thy ===== *)
theory Shard_Locks
  imports Buffer_Pool
begin

text \<open>
  The locks of one shard of the buffer pool (\<^verbatim>\<open>storage/buffer_pool.rs\<close>): the mutex \<^verbatim>\<open>state\<close> around the
  bookkeeping and one \<^verbatim>\<open>RwLock\<close> per frame, with any number of threads. The operations of
  the theory of the pool are cut at every place where a thread may have to wait, and the pieces of
  different threads interleave. No operation holds locks of two shards, so one shard is enough.
\<close>

section \<open>Definitions\<close>

text \<open>
  A guard (\<^verbatim>\<open>PageReadGuard\<close> or \<^verbatim>\<open>PageWriteGuard\<close>) locks its frame shared or exclusive. It borrows the
  handle it was taken through, which cannot be dropped before it.
\<close>

datatype latch = Shared | Exclusive

text \<open>What a thread needs a frame for.\<close>

datatype need = Fetch page_id | Install page_id page

text \<open>
  Where a thread is: in its own code, with the result of its last call; or in a call, about to take
  \<^verbatim>\<open>state\<close> (\<open>State_Wait\<close>, \<open>Flush_Wait\<close>, \<open>Unpin_Wait\<close>), about to take a frame's lock with \<^verbatim>\<open>state\<close>
  held (\<open>Evict_Wait\<close>, \<open>Fill_Wait\<close>) or without (\<open>Install_Frame\<close>, \<open>Flush_Frame\<close>, \<open>Read_Wait\<close>,
  \<open>Write_Wait\<close>), or about to read a page from disk with \<^verbatim>\<open>state\<close> held (\<open>Load\<close>).
\<close>

datatype shard_point =
  User "unit result"
| State_Wait need
| Evict_Wait need nat page_id
| Load page_id nat
| Fill_Wait page_id nat frame bool
| Install_Frame page_handle page
| Flush_Wait page_id
| Flush_Frame page_handle
| Unpin_Wait page_handle "unit result"
| Read_Wait page_handle
| Write_Wait page_handle

text \<open>
  The shard, the system, the thread that holds \<^verbatim>\<open>state\<close>, the handles that exist, each with its thread
  and the guards taken through it, and where every thread is.
\<close>

record pool_world =
  pw_shard :: shard
  pw_os :: os
  pw_state :: "nat option"
  pw_handles :: "(nat \<times> page_handle \<times> latch list) list"
  pw_point :: "nat \<Rightarrow> shard_point"

definition fresh_world :: "nat \<Rightarrow> os \<Rightarrow> pool_world" where
  "fresh_world n s = \<lparr>pw_shard = shard_new n, pw_os = s, pw_state = None, pw_handles = [], pw_point = (\<lambda>_. User (Inr ()))\<rparr>"

text \<open>The guards that exist on a frame. The exclusive lock needs that there are none.\<close>

definition latches_in :: "nat \<Rightarrow> (nat \<times> page_handle \<times> latch list) list \<Rightarrow> latch list" where
  "latches_in f hs = concat (map (\<lambda>(t, h, ls). if ph_frame_id h = f then ls else []) hs)"

abbreviation latches :: "nat \<Rightarrow> pool_world \<Rightarrow> latch list" where
  "latches f w \<equiv> latches_in f (pw_handles w)"

definition write_frame :: "nat \<Rightarrow> pool_world \<Rightarrow> bool" where
  "write_frame f w \<longleftrightarrow> latches f w = []"

fun waits_to_write :: "nat \<Rightarrow> shard_point \<Rightarrow> bool" where
  "waits_to_write f (Install_Frame h page) \<longleftrightarrow> ph_frame_id h = f"
| "waits_to_write f (Flush_Frame h) \<longleftrightarrow> ph_frame_id h = f"
| "waits_to_write f (Write_Wait h) \<longleftrightarrow> ph_frame_id h = f"
| "waits_to_write f _ \<longleftrightarrow> False"

text \<open>
  The shared lock needs that nobody has the exclusive one. The standard library leaves open whether a
  thread that waits for the exclusive lock keeps new readers out: \<open>writers_first\<close> says whether it does.
\<close>

definition read_frame :: "bool \<Rightarrow> nat \<Rightarrow> pool_world \<Rightarrow> bool" where
  "read_frame writers_first f w \<longleftrightarrow>
     Exclusive \<notin> set (latches f w) \<and> (writers_first \<longrightarrow> (\<forall>t. \<not> waits_to_write f (pw_point w t)))"

definition lock_state :: "nat \<Rightarrow> pool_world \<Rightarrow> pool_world option" where
  "lock_state t w = (if pw_state w = None then Some (w\<lparr>pw_state := Some t\<rparr>) else None)"

definition go :: "nat \<Rightarrow> shard_point \<Rightarrow> pool_world \<Rightarrow> pool_world" where
  "go t p w = w\<lparr>pw_point := (pw_point w)(t := p)\<rparr>"

text \<open>Go on without \<^verbatim>\<open>state\<close>: its guard is dropped.\<close>

definition leave :: "nat \<Rightarrow> shard_point \<Rightarrow> pool_world \<Rightarrow> pool_world" where
  "leave t p w = go t p (w\<lparr>pw_state := None\<rparr>)"

definition new_handle :: "nat \<Rightarrow> page_handle \<Rightarrow> pool_world \<Rightarrow> pool_world" where
  "new_handle t h w = w\<lparr>pw_handles := (t, h, []) # pw_handles w\<rparr>"

abbreviation handle :: "nat \<Rightarrow> page_id \<Rightarrow> page_handle" where
  "handle f pid \<equiv> \<lparr>ph_frame_id = f, ph_page_id = pid\<rparr>"

text \<open>\<^verbatim>\<open>acquire_frame\<close> up to the place where it takes the lock of a victim.\<close>

datatype claim = Refused error | Victim nat page_id | Empty nat

definition claim_frame :: "shard \<Rightarrow> claim \<times> shard" where
  "claim_frame sh =
     (if sh_free_frames sh \<noteq> []
      then (Empty (last (sh_free_frames sh)), sh\<lparr>sh_free_frames := butlast (sh_free_frames sh)\<rparr>)
      else case find_victim sh of
        (None, sh) \<Rightarrow> (Refused (ResourceExhausted (''all '' @ show_nat (length (sh_frames sh))
            @ '' frames in a buffer pool shard are pinned'')), sh)
      | (Some victim, sh) \<Rightarrow> (Victim victim (the (sh_frame_pages sh ! victim)), sh))"

fun wanted :: "need \<Rightarrow> page_id" where
  "wanted (Fetch pid) = pid"
| "wanted (Install pid page) = pid"

text \<open>Where a call goes on once it has an empty frame.\<close>

fun acquired :: "need \<Rightarrow> nat \<Rightarrow> shard_point" where
  "acquired (Fetch pid) f = Load pid f"
| "acquired (Install pid page) f = Fill_Wait pid f \<lparr>fr_page = page, fr_dirty = True\<rparr> False"

definition start_acquire :: "nat \<Rightarrow> need \<Rightarrow> pool_world \<Rightarrow> pool_world" where
  "start_acquire t need w =
     (case claim_frame (pw_shard w) of
        (Refused e, sh) \<Rightarrow> leave t (User (Inl e)) (w\<lparr>pw_shard := sh\<rparr>)
      | (Victim f old, sh) \<Rightarrow> go t (Evict_Wait need f old) (w\<lparr>pw_shard := sh\<rparr>)
      | (Empty f, sh) \<Rightarrow> go t (acquired need f) (w\<lparr>pw_shard := sh\<rparr>))"

text \<open>\<^verbatim>\<open>fetch_page\<close> and \<^verbatim>\<open>install_page\<close> from the moment they have \<^verbatim>\<open>state\<close>.\<close>

definition enter :: "nat \<Rightarrow> need \<Rightarrow> pool_world \<Rightarrow> pool_world" where
  "enter t need w =
     (case map_of (sh_page_table (pw_shard w)) (wanted need) of
        Some f \<Rightarrow>
          let h = handle f (wanted need);
              w = new_handle t h (w\<lparr>pw_shard := set_ref f True (pin f (pw_shard w))\<rparr>)
          in leave t (case need of Fetch pid \<Rightarrow> User (Inr ()) | Install pid page \<Rightarrow> Install_Frame h page) w
      | None \<Rightarrow> start_acquire t need w)"

definition enter_flush :: "nat \<Rightarrow> page_id \<Rightarrow> pool_world \<Rightarrow> pool_world" where
  "enter_flush t pid w =
     (case map_of (sh_page_table (pw_shard w)) pid of
        None \<Rightarrow> leave t (User (Inr ())) w
      | Some f \<Rightarrow>
          let h = handle f pid
          in leave t (Flush_Frame h) (new_handle t h (w\<lparr>pw_shard := pin f (pw_shard w)\<rparr>)))"

text \<open>The rest of \<^verbatim>\<open>acquire_frame\<close>, with the lock of the victim.\<close>

definition evict_victim :: "disk_manager \<Rightarrow> nat \<Rightarrow> need \<Rightarrow> nat \<Rightarrow> page_id \<Rightarrow> pool_world \<Rightarrow> pool_world" where
  "evict_victim d t need victim old_id w =
     (case write_back d victim old_id (pw_shard w, pw_os w) of
        (Inl e, (sh, s)) \<Rightarrow> leave t (User (Inl e)) (w\<lparr>pw_shard := sh, pw_os := s\<rparr>)
      | (Inr _, (sh, s)) \<Rightarrow>
          go t (acquired need victim) (w\<lparr>pw_shard := sh\<lparr>sh_page_table := table_remove old_id (sh_page_table sh),
            sh_frame_pages := (sh_frame_pages sh)[victim := None]\<rparr>, pw_os := s\<rparr>))"

text \<open>The disk read of a miss.\<close>

definition load_page :: "disk_manager \<Rightarrow> nat \<Rightarrow> page_id \<Rightarrow> nat \<Rightarrow> pool_world \<Rightarrow> pool_world" where
  "load_page d t pid f w =
     (case disk_read_page d pid (pw_os w) of
        (Inl e, s) \<Rightarrow> leave t (User (Inl e))
          (w\<lparr>pw_shard := (pw_shard w)\<lparr>sh_free_frames := sh_free_frames (pw_shard w) @ [f]\<rparr>, pw_os := s\<rparr>)
      | (Inr page, s) \<Rightarrow> go t (Fill_Wait pid f \<lparr>fr_page = page, fr_dirty = False\<rparr> True) (w\<lparr>pw_os := s\<rparr>))"

text \<open>The new contents of the frame and the bookkeeping for them; a fetched page is pinned for its handle.\<close>

definition fill_frame :: "nat \<Rightarrow> page_id \<Rightarrow> nat \<Rightarrow> frame \<Rightarrow> bool \<Rightarrow> pool_world \<Rightarrow> pool_world" where
  "fill_frame t pid f fr fetched w =
     (let sh = set_frame f fr (pw_shard w);
          sh = sh\<lparr>sh_page_table := table_insert pid f (sh_page_table sh)\<rparr>;
          sh = sh\<lparr>sh_frame_pages := (sh_frame_pages sh)[f := Some pid]\<rparr>;
          sh = (if fetched then sh\<lparr>sh_pin_counts := (sh_pin_counts sh)[f := 1]\<rparr> else sh);
          w = w\<lparr>pw_shard := set_ref f True sh\<rparr>
      in leave t (User (Inr ())) (if fetched then new_handle t (handle f pid) w else w))"

text \<open>\<^verbatim>\<open>install_page\<close> and \<^verbatim>\<open>flush_page\<close> with a handle and the lock of its frame; the handle is then dropped.\<close>

definition install_frame :: "nat \<Rightarrow> page_handle \<Rightarrow> page \<Rightarrow> pool_world \<Rightarrow> pool_world" where
  "install_frame t h page w =
     go t (Unpin_Wait h (Inr ())) (w\<lparr>pw_shard := set_frame (ph_frame_id h) \<lparr>fr_page = page, fr_dirty = True\<rparr> (pw_shard w)\<rparr>)"

definition flush_frame :: "disk_manager \<Rightarrow> nat \<Rightarrow> page_handle \<Rightarrow> pool_world \<Rightarrow> pool_world" where
  "flush_frame d t h w =
     (case write_back d (ph_frame_id h) (ph_page_id h) (pw_shard w, pw_os w) of
        (r, (sh, s)) \<Rightarrow> go t (Unpin_Wait h r) (w\<lparr>pw_shard := sh, pw_os := s\<rparr>))"

text \<open>Replace the entry of a handle: its guards change, or it is dropped.\<close>

definition set_handles :: "(nat \<times> page_handle \<times> latch list) list \<Rightarrow> pool_world \<Rightarrow> pool_world" where
  "set_handles hs w = w\<lparr>pw_handles := hs\<rparr>"

definition mark_dirty :: "nat \<Rightarrow> pool_world \<Rightarrow> pool_world" where
  "mark_dirty f w = w\<lparr>pw_shard := set_frame f ((sh_frames (pw_shard w) ! f)\<lparr>fr_dirty := True\<rparr>) (pw_shard w)\<rparr>"

definition change_page :: "nat \<Rightarrow> page \<Rightarrow> pool_world \<Rightarrow> pool_world" where
  "change_page f page w = w\<lparr>pw_shard := set_frame f ((sh_frames (pw_shard w) ! f)\<lparr>fr_page := page\<rparr>) (pw_shard w)\<rparr>"

definition drop_handle :: "nat \<Rightarrow> page_handle \<Rightarrow> unit result \<Rightarrow> pool_world \<Rightarrow> pool_world" where
  "drop_handle t h r w = leave t (User r) (w\<lparr>pw_shard := unpin (ph_frame_id h) (pw_shard w)\<rparr>)"

text \<open>
  One step of a thread that is in a call, or that gives something back. A panic in the thread's own
  code drops its guards and handles too; a lock it poisons is used as if it were not
  (\<^verbatim>\<open>into_inner\<close>).
\<close>

inductive pool_step :: "bool \<Rightarrow> disk_manager \<Rightarrow> nat \<Rightarrow> pool_world \<Rightarrow> pool_world \<Rightarrow> bool" for writers_first d t where
  enters: "pw_point w t = State_Wait need \<Longrightarrow> lock_state t w = Some v \<Longrightarrow> pool_step writers_first d t w (enter t need v)"
| evicts: "pw_point w t = Evict_Wait need f old \<Longrightarrow> write_frame f w \<Longrightarrow> pool_step writers_first d t w (evict_victim d t need f old w)"
| loads: "pw_point w t = Load pid f \<Longrightarrow> pool_step writers_first d t w (load_page d t pid f w)"
| fills: "pw_point w t = Fill_Wait pid f fr fetched \<Longrightarrow> write_frame f w \<Longrightarrow>
    pool_step writers_first d t w (fill_frame t pid f fr fetched w)"
| installs: "pw_point w t = Install_Frame h page \<Longrightarrow> write_frame (ph_frame_id h) w \<Longrightarrow>
    pool_step writers_first d t w (install_frame t h page w)"
| enters_flush: "pw_point w t = Flush_Wait pid \<Longrightarrow> lock_state t w = Some v \<Longrightarrow> pool_step writers_first d t w (enter_flush t pid v)"
| flushes: "pw_point w t = Flush_Frame h \<Longrightarrow> write_frame (ph_frame_id h) w \<Longrightarrow> pool_step writers_first d t w (flush_frame d t h w)"
| unpins: "pw_point w t = Unpin_Wait h r \<Longrightarrow> lock_state t w = Some v \<Longrightarrow> pw_handles w = xs @ (t, h, []) # ys \<Longrightarrow>
    pool_step writers_first d t w (drop_handle t h r (set_handles (xs @ ys) v))"
| reads: "pw_point w t = Read_Wait h \<Longrightarrow> read_frame writers_first (ph_frame_id h) w \<Longrightarrow> pw_handles w = xs @ (t, h, ls) # ys \<Longrightarrow>
    pool_step writers_first d t w (go t (User (Inr ())) (set_handles (xs @ (t, h, Shared # ls) # ys) w))"
| writes: "pw_point w t = Write_Wait h \<Longrightarrow> write_frame (ph_frame_id h) w \<Longrightarrow> pw_handles w = xs @ (t, h, ls) # ys \<Longrightarrow>
    pool_step writers_first d t w
      (go t (User (Inr ())) (set_handles (xs @ (t, h, Exclusive # ls) # ys) (mark_dirty (ph_frame_id h) w)))"
| releases: "pw_point w t = User r \<Longrightarrow> pw_handles w = xs @ (t, h, ls @ l # ls') # ys \<Longrightarrow>
    pool_step writers_first d t w (set_handles (xs @ (t, h, ls @ ls') # ys) w)"
| drops: "pw_point w t = User r \<Longrightarrow> (t, h, []) \<in> set (pw_handles w) \<Longrightarrow> pool_step writers_first d t w (go t (Unpin_Wait h r) w)"

text \<open>
  What a thread does of its own accord: call an operation, ask for a guard, change a page through an
  exclusive one. A pin count is a \<^verbatim>\<open>u32\<close>, so there are fewer than 2^32 handles, those asked for included.
\<close>

fun asking :: "shard_point \<Rightarrow> bool" where
  "asking (State_Wait need) \<longleftrightarrow> True"
| "asking (Evict_Wait need f old) \<longleftrightarrow> True"
| "asking (Load pid f) \<longleftrightarrow> True"
| "asking (Fill_Wait pid f fr fetched) \<longleftrightarrow> True"
| "asking (Flush_Wait pid) \<longleftrightarrow> True"
| "asking _ \<longleftrightarrow> False"

definition crowd :: "pool_world \<Rightarrow> nat" where
  "crowd w = length (pw_handles w) + card {t. asking (pw_point w t)}"

inductive pool_ask :: "nat \<Rightarrow> pool_world \<Rightarrow> pool_world \<Rightarrow> bool" for t where
  asks: "pw_point w t = User r \<Longrightarrow> Suc (crowd w) < 2 ^ 32 \<Longrightarrow> pool_ask t w (go t (State_Wait need) w)"
| asks_flush: "pw_point w t = User r \<Longrightarrow> Suc (crowd w) < 2 ^ 32 \<Longrightarrow> pool_ask t w (go t (Flush_Wait pid) w)"
| asks_read: "pw_point w t = User r \<Longrightarrow> (t, h, ls) \<in> set (pw_handles w) \<Longrightarrow> pool_ask t w (go t (Read_Wait h) w)"
| asks_write: "pw_point w t = User r \<Longrightarrow> (t, h, ls) \<in> set (pw_handles w) \<Longrightarrow> pool_ask t w (go t (Write_Wait h) w)"
| changes: "pw_point w t = User r \<Longrightarrow> (t, h, ls) \<in> set (pw_handles w) \<Longrightarrow> Exclusive \<in> set ls \<Longrightarrow>
    pool_ask t w (change_page (ph_frame_id h) page w)"

definition pool_move :: "bool \<Rightarrow> disk_manager \<Rightarrow> pool_world \<Rightarrow> pool_world \<Rightarrow> bool" where
  "pool_move writers_first d w v \<longleftrightarrow> (\<exists>t. pool_step writers_first d t w v \<or> pool_ask t w v) \<or> (\<exists>s. v = w\<lparr>pw_os := s\<rparr>)"

text \<open>The system may change at any time, since the other shards use it too.\<close>

definition pool_runs :: "bool \<Rightarrow> disk_manager \<Rightarrow> nat \<Rightarrow> pool_world \<Rightarrow> bool" where
  "pool_runs writers_first d n w \<longleftrightarrow> 0 < n \<and> (\<exists>s. (pool_move writers_first d)\<^sup>*\<^sup>* (fresh_world n s) w)"

section \<open>The invariant\<close>

fun holds_state :: "shard_point \<Rightarrow> bool" where
  "holds_state (Evict_Wait need f old) \<longleftrightarrow> True"
| "holds_state (Load pid f) \<longleftrightarrow> True"
| "holds_state (Fill_Wait pid f fr fetched) \<longleftrightarrow> True"
| "holds_state _ \<longleftrightarrow> False"

text \<open>The frame a call has taken from the free list or emptied, and not yet filled.\<close>

fun taken :: "shard_point \<Rightarrow> nat set" where
  "taken (Load pid f) = {f}"
| "taken (Fill_Wait pid f fr fetched) = {f}"
| "taken _ = {}"

definition taken_in :: "pool_world \<Rightarrow> nat set" where
  "taken_in w = (case pw_state w of None \<Rightarrow> {} | Some t \<Rightarrow> taken (pw_point w t))"

abbreviation handle_list :: "pool_world \<Rightarrow> page_handle list" where
  "handle_list w \<equiv> map (\<lambda>(t, h, ls). h) (pw_handles w)"

fun point_ok :: "shard \<Rightarrow> (page_handle \<times> latch list) set \<Rightarrow> shard_point \<Rightarrow> bool" where
  "point_ok sh hs (Evict_Wait need f old) \<longleftrightarrow> map_of (sh_page_table sh) old = Some f \<and> sh_pin_counts sh ! f = 0
     \<and> map_of (sh_page_table sh) (wanted need) = None"
| "point_ok sh hs (Load pid f) \<longleftrightarrow> map_of (sh_page_table sh) pid = None"
| "point_ok sh hs (Fill_Wait pid f fr fetched) \<longleftrightarrow> map_of (sh_page_table sh) pid = None"
| "point_ok sh hs (Install_Frame h page) \<longleftrightarrow> (h, []) \<in> hs"
| "point_ok sh hs (Flush_Frame h) \<longleftrightarrow> (h, []) \<in> hs"
| "point_ok sh hs (Unpin_Wait h r) \<longleftrightarrow> (h, []) \<in> hs"
| "point_ok sh hs (Read_Wait h) \<longleftrightarrow> (\<exists>ls. (h, ls) \<in> hs)"
| "point_ok sh hs (Write_Wait h) \<longleftrightarrow> (\<exists>ls. (h, ls) \<in> hs)"
| "point_ok sh hs _ \<longleftrightarrow> True"

abbreviation own :: "pool_world \<Rightarrow> nat \<Rightarrow> (page_handle \<times> latch list) set" where
  "own w t \<equiv> {(h, ls). (t, h, ls) \<in> set (pw_handles w)}"

definition pool_ok :: "pool_world \<Rightarrow> bool" where
  "pool_ok w \<longleftrightarrow> shard_wf (taken_in w) (pw_shard w) \<and> handles_ok (handle_list w) (pw_shard w)
     \<and> finite {t. \<not> (\<exists>r. pw_point w t = User r)} \<and> crowd w < 2 ^ 32
     \<and> (\<forall>t. pw_state w = Some t \<longleftrightarrow> holds_state (pw_point w t))
     \<and> (\<forall>t. point_ok (pw_shard w) (own w t) (pw_point w t))
     \<and> (\<forall>f. Exclusive \<in> set (latches f w) \<longrightarrow> latches f w = [Exclusive])"

lemma lock_state_Some: "lock_state t w = Some v \<longleftrightarrow> pw_state w = None \<and> v = w\<lparr>pw_state := Some t\<rparr>"
  by (auto simp: lock_state_def)

lemma latches_in_simps [simp]:
  "latches_in f [] = []" "latches_in f ((t, h, ls) # hs) = (if ph_frame_id h = f then ls else []) @ latches_in f hs"
  "latches_in f (hs @ hs') = latches_in f hs @ latches_in f hs'"
  by (simp_all add: latches_in_def)

lemma set_latches_in: "set (latches_in f hs) = {l. \<exists>t h ls. (t, h, ls) \<in> set hs \<and> ph_frame_id h = f \<and> l \<in> set ls}"
  by (force simp: latches_in_def split: if_splits)

lemmas pool_moves = go_def leave_def new_handle_def set_handles_def mark_dirty_def change_page_def drop_handle_def
  install_frame_def

lemma pool_okD:
  assumes "pool_ok w"
  shows "shard_wf (taken_in w) (pw_shard w)" "handles_ok (handle_list w) (pw_shard w)"
    "finite {t. \<not> (\<exists>r. pw_point w t = User r)}" "length (pw_handles w) < 2 ^ 32"
    "pw_state w = Some t \<longleftrightarrow> holds_state (pw_point w t)" "point_ok (pw_shard w) (own w t) (pw_point w t)"
    "Exclusive \<in> set (latches f w) \<Longrightarrow> latches f w = [Exclusive]"
    "pw_state w = None \<Longrightarrow> shard_wf {} (pw_shard w)"
  using assms by (auto simp: pool_ok_def crowd_def taken_in_def)

lemma crowd_move:
  assumes fin: "finite {u. asking (pw_point w u)}" and "\<And>u. u \<noteq> t \<Longrightarrow> pw_point v u = pw_point w u"
    and "length (pw_handles v) + of_bool (asking (pw_point v t)) \<le> length (pw_handles w) + of_bool (asking (pw_point w t)) + k"
  shows "finite {u. asking (pw_point v u)} \<and> crowd v \<le> crowd w + k"
proof -
  have same: "{u. asking (pw_point v u)} - {t} = {u. asking (pw_point w u)} - {t}" using assms(2) by auto
  then have fin': "finite {u. asking (pw_point v u)}" by (intro finite_subset [OF _ finite.insertI [OF fin, of t]]) blast
  with card_without [OF fin, of t] card_without [OF fin', of t] same assms(3) show ?thesis by (simp add: crowd_def)
qed

lemma finite_asking: "finite {t. \<not> (\<exists>r. pw_point w t = User r)} \<Longrightarrow> finite {t. asking (pw_point w t)}"
  by (erule rev_finite_subset) auto

text \<open>What has to be shown of a step of thread \<open>t\<close>: the others stay where they are, with their handles.\<close>

lemma pool_okI:
  assumes ok: "pool_ok w"
    and wf: "shard_wf (taken_in v) (pw_shard v)" "handles_ok (handle_list v) (pw_shard v)"
    and point: "\<And>u. u \<noteq> t \<Longrightarrow> pw_point v u = pw_point w u" "\<And>u. u \<noteq> t \<Longrightarrow> own v u = own w u"
    and state: "\<And>u. u \<noteq> t \<Longrightarrow> pw_state v = Some u \<longleftrightarrow> pw_state w = Some u" "pw_state v = Some t \<longleftrightarrow> holds_state (pw_point v t)"
    and frozen: "\<And>u. u \<noteq> t \<Longrightarrow> pw_state w = Some u \<Longrightarrow>
      sh_page_table (pw_shard v) = sh_page_table (pw_shard w) \<and> sh_pin_counts (pw_shard v) = sh_pin_counts (pw_shard w)"
    and at: "point_ok (pw_shard v) (own v t) (pw_point v t)" and crowd: "crowd v < 2 ^ 32"
    and latch: "\<And>f. Exclusive \<in> set (latches f v) \<Longrightarrow> latches f v = [Exclusive]"
  shows "pool_ok v"
proof -
  have "finite {u. \<not> (\<exists>r. pw_point v u = User r)}"
    by (rule finite_subset [OF _ finite.insertI [OF pool_okD(3) [OF ok], of t]]) (use point(1) in auto)
  moreover have "point_ok (pw_shard v) (own v u) (pw_point v u)" for u
  proof (cases "u = t")
    case False
    have "point_ok (pw_shard v) (own w u) (pw_point w u)"
      using pool_okD(6) [OF ok, of u] frozen [OF False] by (cases "pw_point w u") (simp_all add: pool_okD(5) [OF ok])
    with False point [OF False] show ?thesis by simp
  qed (use at in simp)
  moreover have "pw_state v = Some u \<longleftrightarrow> holds_state (pw_point v u)" for u
    using state pool_okD(5) [OF ok, of u] point(1) [of u] by (cases "u = t") simp_all
  ultimately show ?thesis unfolding pool_ok_def using wf latch crowd by blast
qed

text \<open>A step that only changes where the thread is, the contents of frames and the system.\<close>

lemma pool_ok_frames:
  assumes ok: "pool_ok w" and fields: "pw_state v = pw_state w" "\<And>u. u \<noteq> t \<Longrightarrow> pw_point v u = pw_point w u"
    and hs: "handle_list v = handle_list w" "\<And>u. u \<noteq> t \<Longrightarrow> own v u = own w u"
    and sh: "\<exists>fs. length fs = length (sh_frames (pw_shard w)) \<and> pw_shard v = (pw_shard w)\<lparr>sh_frames := fs\<rparr>"
    and p: "\<not> holds_state (pw_point w t)" "\<not> holds_state (pw_point v t)" "point_ok (pw_shard v) (own v t) (pw_point v t)"
    and crowd: "crowd v < 2 ^ 32" and latch: "\<And>f. Exclusive \<in> set (latches f v) \<Longrightarrow> latches f v = [Exclusive]"
  shows "pool_ok v"
proof (rule pool_okI [OF ok, where t = t])
  have st: "pw_state w \<noteq> Some t" using pool_okD(5) [OF ok] p(1) by simp
  then have "taken_in v = taken_in w" using fields by (auto simp: taken_in_def split: option.splits)
  with sh pool_okD(1,2) [OF ok] show "shard_wf (taken_in v) (pw_shard v)" "handles_ok (handle_list v) (pw_shard v)"
    by (auto simp: hs(1) shard_wf_def handles_ok_def)
  show "pw_state v = Some t \<longleftrightarrow> holds_state (pw_point v t)" using st fields p by simp
  show "pw_state v = Some u \<longleftrightarrow> pw_state w = Some u" for u using fields by simp
  show "sh_page_table (pw_shard v) = sh_page_table (pw_shard w) \<and> sh_pin_counts (pw_shard v) = sh_pin_counts (pw_shard w)"
    using sh by auto
qed (rule fields(2) hs(2) p(3) crowd latch; assumption)+

subsection \<open>Every step keeps it\<close>

lemma claim_frame_ok:
  assumes wf: "shard_wf {} sh" and run: "claim_frame sh = (c, sh')"
  shows "sh_page_table sh' = sh_page_table sh" "sh_pin_counts sh' = sh_pin_counts sh" "sh_frames sh' = sh_frames sh"
    "case c of Refused e \<Rightarrow> shard_wf {} sh' | Empty f \<Rightarrow> shard_wf {f} sh'
     | Victim f old \<Rightarrow> shard_wf {} sh' \<and> map_of (sh_page_table sh) old = Some f \<and> sh_pin_counts sh ! f = 0"
proof -
  obtain v sh1 where fv: "find_victim sh = (v, sh1)" by fastforce
  note sw = swept_fields [OF clock_sweep_swept [OF fv [unfolded find_victim_def]]]
  note vic = clock_sweep_wf [OF fv [unfolded find_victim_def] wf]
  show "sh_page_table sh' = sh_page_table sh" "sh_pin_counts sh' = sh_pin_counts sh" "sh_frames sh' = sh_frames sh"
    using run fv sw by (auto simp: claim_frame_def split: if_splits option.splits)
  show "case c of Refused e \<Rightarrow> shard_wf {} sh' | Empty f \<Rightarrow> shard_wf {f} sh'
     | Victim f old \<Rightarrow> shard_wf {} sh' \<and> map_of (sh_page_table sh) old = Some f \<and> sh_pin_counts sh ! f = 0"
  proof (cases "sh_free_frames sh = []")
    case False
    then show ?thesis using run shard_wf_pop [OF wf False] by (auto simp: claim_frame_def)
  next
    case True
    then show ?thesis
    proof (cases v)
      case (Some f)
      then have f: "f < length (sh_frames sh)" "sh_pin_counts sh ! f = 0" "shard_wf {} sh1" using vic sw by auto
      then obtain old where old: "sh_frame_pages sh ! f = Some old" using shard_wfD(9) [OF wf] True by auto
      with f have "map_of (sh_page_table sh) old = Some f" using shard_wfD(7) [OF wf] by auto
      with True run fv Some f old sw show ?thesis by (auto simp: claim_frame_def)
    qed (use True run fv vic in \<open>auto simp: claim_frame_def\<close>)
  qed
qed

lemma handles_ok_same:
  "handles_ok hs sh \<Longrightarrow> sh_page_table sh' = sh_page_table sh \<Longrightarrow> sh_pin_counts sh' = sh_pin_counts sh \<Longrightarrow>
   sh_frames sh' = sh_frames sh \<Longrightarrow> handles_ok hs sh'"
  by (simp add: handles_ok_def)

lemma handle_list_entry: "(t, h, ls) \<in> set (pw_handles w) \<Longrightarrow> h \<in> set (handle_list w)"
  by force

text \<open>
  The lock a thread waits for while it holds \<^verbatim>\<open>state\<close> belongs to a frame no handle names, and so to one
  with no guard.
\<close>

lemma state_holder_free:
  assumes ok: "pool_ok w" and "pw_point w t = Evict_Wait need f old \<or> pw_point w t = Fill_Wait pid f fr fetched"
  shows "f < length (sh_frames (pw_shard w)) \<and> sh_pin_counts (pw_shard w) ! f = 0" "write_frame f w"
proof -
  have st: "pw_state w = Some t" using assms pool_okD(5) [OF ok, of t] by auto
  note wf = pool_okD(1) [OF ok]
  show f: "f < length (sh_frames (pw_shard w)) \<and> sh_pin_counts (pw_shard w) ! f = 0"
  proof (cases "taken (pw_point w t) = {f}")
    case True
    then show ?thesis using shard_wfD(8,10) [OF wf] st by (auto simp: taken_in_def)
  next
    case False
    then show ?thesis using assms(2) pool_okD(6) [OF ok, of t] shard_wfD(7) [OF wf] by auto
  qed
  have "ph_frame_id h \<noteq> f" if "(u, h, ls) \<in> set (pw_handles w)" for u h ls
    using unpinned_no_handle [OF pool_okD(2) [OF ok] _ conjunct1 [OF f] conjunct2 [OF f] handle_list_entry [OF that]]
      pool_okD(4) [OF ok] by simp
  then show "write_frame f w" by (auto simp: write_frame_def latches_in_def)
qed

lemma pool_ok_state:
  assumes ok: "pool_ok w" and st: "pw_state w = None \<or> pw_state w = Some t"
    and v: "pw_state v = (if holds_state (pw_point v t) then Some t else None)" "\<And>u. u \<noteq> t \<Longrightarrow> pw_point v u = pw_point w u"
    and hs: "\<And>u. u \<noteq> t \<Longrightarrow> own v u = own w u" "\<And>f. latches f v = latches f w"
    and sh: "shard_wf (taken (pw_point v t)) (pw_shard v)" "handles_ok (handle_list v) (pw_shard v)"
    and at: "point_ok (pw_shard v) (own v t) (pw_point v t)"
    and room: "length (pw_handles v) + of_bool (asking (pw_point v t)) \<le> length (pw_handles w) + of_bool (asking (pw_point w t))"
  shows "pool_ok v"
proof (rule pool_okI [OF ok])
  have "taken (pw_point v t) = {}" if "\<not> holds_state (pw_point v t)" using that by (cases "pw_point v t") simp_all
  then have "taken_in v = taken (pw_point v t)" using v(1) by (simp add: taken_in_def)
  with sh show "shard_wf (taken_in v) (pw_shard v)" "handles_ok (handle_list v) (pw_shard v)" by simp_all
  show "pw_state v = Some u \<longleftrightarrow> pw_state w = Some u" if "u \<noteq> t" for u using st v(1) that by auto
  show "pw_state v = Some t \<longleftrightarrow> holds_state (pw_point v t)" using v(1) by simp
  show "sh_page_table (pw_shard v) = sh_page_table (pw_shard w) \<and> sh_pin_counts (pw_shard v) = sh_pin_counts (pw_shard w)"
    if "u \<noteq> t" "pw_state w = Some u" for u using st that by auto
  have "crowd v \<le> crowd w + 0" using crowd_move [where t = t, OF finite_asking [OF pool_okD(3) [OF ok]] v(2), of 0] room by simp
  with ok show "crowd v < 2 ^ 32" by (simp add: pool_ok_def)
  show "latches f v = [Exclusive]" if "Exclusive \<in> set (latches f v)" for f using that pool_okD(7) [OF ok, of f] hs(2) by simp
qed (rule v(2) hs(1) at; assumption)+

lemma enter_flush_ok:
  assumes ok: "pool_ok w" and st: "pw_state w = None" and pt: "pw_point w t = Flush_Wait pid"
  shows "pool_ok (enter_flush t pid (w\<lparr>pw_state := Some t\<rparr>))"
proof (rule pool_ok_state [OF ok disjI1 [OF st], where t = t])
  note wf = pool_okD(8) [OF ok st] and hok = pool_okD(2) [OF ok]
  let ?v = "enter_flush t pid (w\<lparr>pw_state := Some t\<rparr>)"
  show "shard_wf (taken (pw_point ?v t)) (pw_shard ?v)"
    using wf shard_wf_pin [OF wf] by (auto simp: enter_flush_def pool_moves Let_def split: option.split)
  show "handles_ok (handle_list ?v) (pw_shard ?v)"
    using hok handles_ok_pin [OF wf hok] by (auto simp: enter_flush_def pool_moves Let_def split: option.split)
qed (use pt in \<open>auto simp: enter_flush_def pool_moves Let_def split: option.split\<close>)

lemma start_acquire_ok:
  assumes ok: "pool_ok w" and st: "pw_state w = None" and pt: "pw_point w t = State_Wait need"
    and miss: "map_of (sh_page_table (pw_shard w)) (wanted need) = None"
  shows "pool_ok (start_acquire t need (w\<lparr>pw_state := Some t\<rparr>))"
proof (rule pool_ok_state [OF ok disjI1 [OF st], where t = t])
  obtain c sh where run: "claim_frame (pw_shard w) = (c, sh)" by fastforce
  note C = claim_frame_ok [OF pool_okD(8) [OF ok st] run]
  let ?v = "start_acquire t need (w\<lparr>pw_state := Some t\<rparr>)"
  note v = start_acquire_def run pool_moves
  show "shard_wf (taken (pw_point ?v t)) (pw_shard ?v)" using C(4) by (cases c; cases need) (simp_all add: v)
  show "handles_ok (handle_list ?v) (pw_shard ?v)"
    using handles_ok_same [OF pool_okD(2) [OF ok] C(1,2,3)] by (cases c) (simp_all add: v)
  show "point_ok (pw_shard ?v) (own ?v t) (pw_point ?v t)" using C miss by (cases c; cases need) (simp_all add: v)
  show "pw_state ?v = (if holds_state (pw_point ?v t) then Some t else None)" by (cases c; cases need) (simp_all add: v)
  show "length (pw_handles ?v) + of_bool (asking (pw_point ?v t)) \<le> length (pw_handles w) + of_bool (asking (pw_point w t))"
    using pt by (cases c) (simp_all add: v)
  show "own ?v u = own w u" "latches f ?v = latches f w" for u f by (cases c; simp add: v)+
  show "pw_point ?v u = pw_point w u" if "u \<noteq> t" for u using that by (cases c) (simp_all add: v)
qed

lemma enter_ok:
  assumes ok: "pool_ok w" and st: "pw_state w = None" and pt: "pw_point w t = State_Wait need"
  shows "pool_ok (enter t need (w\<lparr>pw_state := Some t\<rparr>))"
proof (cases "map_of (sh_page_table (pw_shard w)) (wanted need)")
  case None
  with start_acquire_ok [OF assms None] show ?thesis by (simp add: enter_def)
next
  case (Some f)
  note wf = pool_okD(8) [OF ok st] and hok = pool_okD(2) [OF ok]
  let ?p = "case need of Fetch pid \<Rightarrow> User (Inr ()) | Install pid page \<Rightarrow> Install_Frame (handle f (wanted need)) page"
  let ?v = "leave t ?p (new_handle t (handle f (wanted need)) (w\<lparr>pw_shard := set_ref f True (pin f (pw_shard w))\<rparr>))"
  have p: "taken ?p = {}" "\<not> holds_state ?p" "\<not> asking ?p"
    "(handle f (wanted need), []) \<in> hs \<Longrightarrow> point_ok sh hs ?p" for sh hs by (cases need; simp)+
  have "pool_ok ?v"
  proof (rule pool_ok_state [OF ok disjI1 [OF st], where t = t])
    show "shard_wf (taken (pw_point ?v t)) (pw_shard ?v)" using shard_wf_pin [OF wf Some] by (simp add: pool_moves p(1))
    show "handles_ok (handle_list ?v) (pw_shard ?v)" using handles_ok_pin [OF wf hok Some] by (simp add: pool_moves)
    show "point_ok (pw_shard ?v) (own ?v t) (pw_point ?v t)" by (simp add: pool_moves p(4))
  qed (use pt p(2,3) in \<open>simp_all add: pool_moves\<close>)
  then show ?thesis by (simp add: enter_def Some pool_moves Let_def)
qed

lemma evict_victim_ok:
  assumes ok: "pool_ok w" and pt: "pw_point w t = Evict_Wait need f old"
  shows "pool_ok (evict_victim d t need f old w)"
proof -
  have st: "pw_state w = Some t" using pool_okD(5) [OF ok, of t] pt by simp
  have wf: "shard_wf {} (pw_shard w)" using pool_okD(1) [OF ok] st pt by (simp add: taken_in_def)
  have at: "map_of (sh_page_table (pw_shard w)) old = Some f" "sh_pin_counts (pw_shard w) ! f = 0"
    "map_of (sh_page_table (pw_shard w)) (wanted need) = None" using pool_okD(6) [OF ok, of t] pt by simp_all
  obtain r sh s where wb: "write_back d f old (pw_shard w, pw_os w) = (r, (sh, s))" by (metis surj_pair)
  from write_back_shard [OF wb] obtain fr where sh: "sh = set_frame f fr (pw_shard w)" ..
  have wf1: "shard_wf {} sh" and hok1: "handles_ok (handle_list w) sh" using wf pool_okD(2) [OF ok] by (simp_all add: sh)
  have wf2: "shard_wf {f} (evict old f sh)" and hok2: "handles_ok (handle_list w) (evict old f sh)"
    using shard_wf_evict [OF wf1, of old f] handles_ok_evict [OF wf1 hok1, of old f] pool_okD(4) [OF ok] at by (simp_all add: sh)
  let ?v = "evict_victim d t need f old w"
  note v = evict_victim_def wb pool_moves evict_def [symmetric]
  show ?thesis
  proof (rule pool_ok_state [OF ok disjI2 [OF st]])
    show "shard_wf (taken (pw_point ?v t)) (pw_shard ?v)" using wf1 wf2 by (cases r; cases need) (simp_all add: v)
    show "handles_ok (handle_list ?v) (pw_shard ?v)" using hok1 hok2 by (cases r) (simp_all add: v)
    show "point_ok (pw_shard ?v) (own ?v t) (pw_point ?v t)"
      using at(3) by (cases r; cases need) (simp_all add: v sh, simp_all add: evict_def)
    show "pw_state ?v = (if holds_state (pw_point ?v t) then Some t else None)"
      using st by (cases r; cases need) (simp_all add: v)
    show "length (pw_handles ?v) + of_bool (asking (pw_point ?v t)) \<le> length (pw_handles w) + of_bool (asking (pw_point w t))"
      using pt by (cases r) (simp_all add: v)
    show "own ?v u = own w u" "latches g ?v = latches g w" for u g by (cases r; simp add: v)+
    show "pw_point ?v u = pw_point w u" if "u \<noteq> t" for u using that by (cases r) (simp_all add: v)
  qed
qed

lemma load_page_ok:
  assumes ok: "pool_ok w" and pt: "pw_point w t = Load pid f"
  shows "pool_ok (load_page d t pid f w)"
proof -
  have st: "pw_state w = Some t" using pool_okD(5) [OF ok, of t] pt by simp
  have wf: "shard_wf {f} (pw_shard w)" using pool_okD(1) [OF ok] st pt by (simp add: taken_in_def)
  obtain r s where rd: "disk_read_page d pid (pw_os w) = (r, s)" by fastforce
  note v = load_page_def rd pool_moves
  show ?thesis
  proof (rule pool_ok_state [OF ok disjI2 [OF st]])
    show "shard_wf (taken (pw_point (load_page d t pid f w) t)) (pw_shard (load_page d t pid f w))"
      using wf shard_wf_give_back [OF wf] by (cases r) (simp_all add: v)
    show "handles_ok (handle_list (load_page d t pid f w)) (pw_shard (load_page d t pid f w))"
      using pool_okD(2) [OF ok] by (cases r) (simp_all add: v handles_ok_def)
  qed (cases r; use pt st pool_okD(6) [OF ok, of t] in \<open>simp add: v\<close>)+
qed

lemma fill_frame_ok:
  assumes ok: "pool_ok w" and pt: "pw_point w t = Fill_Wait pid f fr fetched"
  shows "pool_ok (fill_frame t pid f fr fetched w)"
proof -
  have st: "pw_state w = Some t" using pool_okD(5) [OF ok, of t] pt by simp
  have wf: "shard_wf {f} (pw_shard w)" using pool_okD(1) [OF ok] st pt by (simp add: taken_in_def)
  have none: "map_of (sh_page_table (pw_shard w)) pid = None" using pool_okD(6) [OF ok, of t] pt by simp
  have zero: "sh_pin_counts (pw_shard w) ! f = 0" using state_holder_free(1) [OF ok] pt by blast
  let ?sh = "fill pid f fr (pw_shard w)"
  have wf1: "shard_wf {} ?sh" by (rule shard_wf_fill [OF wf none])
  have hok1: "handles_ok (handle_list w) ?sh" by (rule handles_ok_fill [OF wf pool_okD(2) [OF ok] none])
  have at: "map_of (sh_page_table ?sh) pid = Some f" by (simp add: fill_def)
  have v: "fill_frame t pid f fr fetched w = leave t (User (Inr ()))
      (if fetched then new_handle t (handle f pid) (w\<lparr>pw_shard := set_ref f True (pin f ?sh)\<rparr>)
       else w\<lparr>pw_shard := set_ref f True ?sh\<rparr>)"
    using zero by (simp add: fill_frame_def Let_def fill_def set_frame_def pin_def set_ref_def)
  show ?thesis unfolding v
    by (rule pool_ok_state [OF ok disjI2 [OF st]])
      (use wf1 hok1 shard_wf_pin [OF wf1 at] handles_ok_pin [OF wf1 hok1 at] pt in \<open>auto simp: pool_moves\<close>)
qed

lemma drop_handle_ok:
  assumes ok: "pool_ok w" and st: "pw_state w = None" and pt: "pw_point w t = Unpin_Wait h r"
    and hs: "pw_handles w = xs @ (t, h, []) # ys"
  shows "pool_ok (drop_handle t h r (set_handles (xs @ ys) (w\<lparr>pw_state := Some t\<rparr>)))"
proof (rule pool_ok_state [OF ok disjI1 [OF st], where t = t])
  note wf = pool_okD(8) [OF ok st] and hok = pool_okD(2) [OF ok]
  let ?v = "drop_handle t h r (set_handles (xs @ ys) (w\<lparr>pw_state := Some t\<rparr>))"
  have at: "map_of (sh_page_table (pw_shard w)) (ph_page_id h) = Some (ph_frame_id h)" using hok hs by (simp add: handles_ok_def)
  show "shard_wf (taken (pw_point ?v t)) (pw_shard ?v)" using shard_wf_unpin [OF wf at] by (simp add: pool_moves)
  show "handles_ok (handle_list ?v) (pw_shard ?v)"
    using handles_ok_unpin [OF wf hok [unfolded hs, simplified]] by (simp add: pool_moves)
qed (use hs in \<open>auto simp: pool_moves\<close>)

lemma crowd_same:
  assumes "pool_ok w" and "\<And>u. u \<noteq> t \<Longrightarrow> pw_point v u = pw_point w u" and "\<not> asking (pw_point v t)"
    and "length (pw_handles v) = length (pw_handles w)"
  shows "crowd v < 2 ^ 32"
  using crowd_move [where t = t, OF finite_asking [OF pool_okD(3) [OF assms(1)]] assms(2), of 0] assms(1,3,4)
  by (simp add: pool_ok_def)

lemma shard_only [simp]: "w\<lparr>pw_shard := sh, pw_os := pw_os w\<rparr> = w\<lparr>pw_shard := sh\<rparr>"
  by (cases w) simp

text \<open>Steps without \<^verbatim>\<open>state\<close> that leave the guards alone.\<close>

lemma pool_ok_go:
  assumes ok: "pool_ok w" and "\<exists>fs. length fs = length (sh_frames (pw_shard w)) \<and> sh = (pw_shard w)\<lparr>sh_frames := fs\<rparr>"
    and "\<not> holds_state (pw_point w t)" and "\<not> asking p" and "point_ok sh (own w t) p"
  shows "pool_ok (go t p (w\<lparr>pw_shard := sh, pw_os := s\<rparr>))"
proof -
  have "\<not> holds_state p" using assms(4) by (cases p) simp_all
  with assms pool_okD(7) [OF ok] show ?thesis
    by (intro pool_ok_frames [OF ok, where t = t] crowd_same [OF ok, where t = t]) (simp_all add: pool_moves)
qed

lemma set_frame_frames: "\<exists>fs. length fs = length (sh_frames sh) \<and> set_frame f fr sh = sh\<lparr>sh_frames := fs\<rparr>"
  by (rule exI [of _ "(sh_frames sh)[f := fr]"]) (simp add: set_frame_def)

lemma same_frames: "\<exists>fs. length fs = length (sh_frames sh) \<and> sh = sh\<lparr>sh_frames := fs\<rparr>"
  by (rule exI [of _ "sh_frames sh"]) simp

text \<open>Steps that change the guards of a handle.\<close>

lemma pool_ok_latch:
  assumes ok: "pool_ok w" and hs: "pw_handles w = xs @ (t, h, ls) # ys"
    and "\<exists>fs. length fs = length (sh_frames (pw_shard w)) \<and> sh = (pw_shard w)\<lparr>sh_frames := fs\<rparr>"
    and "\<not> holds_state (pw_point w t)"
    and l: "Exclusive \<in> set (latches_in (ph_frame_id h) (xs @ (t, h, ls') # ys)) \<Longrightarrow>
      latches_in (ph_frame_id h) (xs @ (t, h, ls') # ys) = [Exclusive]"
  shows "pool_ok (go t (User r) (set_handles (xs @ (t, h, ls') # ys) (w\<lparr>pw_shard := sh\<rparr>)))"
proof -
  have "latches_in f (xs @ (t, h, ls') # ys) = [Exclusive]" if "Exclusive \<in> set (latches_in f (xs @ (t, h, ls') # ys))" for f
    using that l pool_okD(7) [OF ok, of f] by (cases "ph_frame_id h = f") (simp_all add: hs)
  with assms show ?thesis
    by (intro pool_ok_frames [OF ok, where t = t] crowd_same [OF ok, where t = t]) (auto simp: pool_moves)
qed

lemma step_ok:
  assumes "pool_step b d t w v" and ok: "pool_ok w"
  shows "pool_ok v"
  using assms(1)
proof cases
  case (installs h page)
  from pool_ok_go [OF ok set_frame_frames, of t "Unpin_Wait h (Inr ())" _ _ "pw_os w"] installs pool_okD(6) [OF ok, of t]
  show ?thesis by (simp add: install_frame_def)
next
  case (flushes h)
  obtain r sh s where wb: "write_back d (ph_frame_id h) (ph_page_id h) (pw_shard w, pw_os w) = (r, (sh, s))" by (metis surj_pair)
  from write_back_shard [OF wb] obtain fr where sh: "sh = set_frame (ph_frame_id h) fr (pw_shard w)" ..
  from pool_ok_go [OF ok set_frame_frames, of t "Unpin_Wait h r"] flushes pool_okD(6) [OF ok, of t]
  show ?thesis by (simp add: flush_frame_def wb sh)
next
  case (reads h xs ls ys)
  then have "pool_ok (go t (User (Inr ())) (set_handles (xs @ (t, h, Shared # ls) # ys) (w\<lparr>pw_shard := pw_shard w\<rparr>)))"
    by (intro pool_ok_latch [OF ok _ same_frames]) (auto simp: read_frame_def)
  with reads show ?thesis by simp
next
  case (writes h xs ls ys)
  from pool_ok_latch [OF ok writes(4) set_frame_frames, of "Exclusive # ls"] writes
  show ?thesis by (simp add: write_frame_def mark_dirty_def set_handles_def)
next
  case (releases r xs h ls l ls' ys)
  have "pool_ok (go t (User r) (set_handles (xs @ (t, h, ls @ ls') # ys) (w\<lparr>pw_shard := pw_shard w\<rparr>)))"
    using pool_okD(7) [OF ok, of "ph_frame_id h"] releases(2,3)
    by (intro pool_ok_latch [OF ok releases(3) same_frames]) (auto simp: append_eq_Cons_conv)
  with releases show ?thesis by (simp add: go_def set_handles_def fun_upd_idem)
next
  case (drops r h)
  from pool_ok_go [OF ok same_frames, of t "Unpin_Wait h r" "pw_os w"] drops show ?thesis by simp
qed (use ok in \<open>auto simp: lock_state_Some intro: enter_ok evict_victim_ok load_page_ok fill_frame_ok enter_flush_ok drop_handle_ok\<close>)

lemma ask_ok:
  assumes "pool_ask t w v" and ok: "pool_ok w"
  shows "pool_ok v"
  using assms(1)
proof cases
  case (changes r h ls page)
  from pool_ok_go [OF ok set_frame_frames, of t "User r" _ _ "pw_os w"] changes show ?thesis
    by (simp add: change_page_def go_def fun_upd_idem)
next
  case (asks_read r h ls)
  from pool_ok_go [OF ok same_frames, of t "Read_Wait h" "pw_os w"] asks_read show ?thesis by auto
next
  case (asks_write r h ls)
  from pool_ok_go [OF ok same_frames, of t "Write_Wait h" "pw_os w"] asks_write show ?thesis by auto
next
  case (asks r need)
  have "crowd v \<le> crowd w + 1"
    using crowd_move [where t = t and v = v, OF finite_asking [OF pool_okD(3) [OF ok]], of 1] asks by (simp add: pool_moves)
  with asks pool_okD(7) [OF ok] show ?thesis
    by (intro pool_ok_frames [OF ok, where t = t]) (simp_all add: pool_moves same_frames)
next
  case (asks_flush r pid)
  have "crowd v \<le> crowd w + 1"
    using crowd_move [where t = t and v = v, OF finite_asking [OF pool_okD(3) [OF ok]], of 1] asks_flush by (simp add: pool_moves)
  with asks_flush pool_okD(7) [OF ok] show ?thesis
    by (intro pool_ok_frames [OF ok, where t = t]) (simp_all add: pool_moves same_frames)
qed

lemma pool_ok_os: "pool_ok w \<Longrightarrow> pool_ok (w\<lparr>pw_os := s\<rparr>)"
  by (cases "pw_state w") (simp_all add: pool_ok_def taken_in_def crowd_def)

lemma pool_ok_fresh: "0 < n \<Longrightarrow> pool_ok (fresh_world n s)"
  using shard_wf_new by (simp add: pool_ok_def fresh_world_def taken_in_def crowd_def handles_ok_def shard_new_def)

lemma pool_runs_ok:
  assumes "pool_runs b d n w"
  shows "pool_ok w"
proof -
  obtain s where n: "0 < n" and run: "(pool_move b d)\<^sup>*\<^sup>* (fresh_world n s) w" using assms by (auto simp: pool_runs_def)
  from run show ?thesis
  proof induction
    case (step v w)
    then show ?case by (auto simp: pool_move_def intro: step_ok ask_ok pool_ok_os)
  qed (simp add: pool_ok_fresh n)
qed

section \<open>What a step may touch\<close>

text \<open>Thread \<open>t\<close> has a guard on frame \<open>f\<close>.\<close>

definition guard_in :: "(nat \<times> page_handle \<times> latch list) list \<Rightarrow> nat \<Rightarrow> nat \<Rightarrow> latch \<Rightarrow> bool" where
  "guard_in hs t f l \<longleftrightarrow> (\<exists>h ls. (t, h, ls) \<in> set hs \<and> ph_frame_id h = f \<and> l \<in> set ls)"

abbreviation guarded :: "pool_world \<Rightarrow> nat \<Rightarrow> nat \<Rightarrow> latch \<Rightarrow> bool" where
  "guarded w \<equiv> guard_in (pw_handles w)"

lemma guard_in_simps [simp]:
  "\<not> guard_in [] t f l"
  "guard_in ((u, h, ls) # hs) t f l \<longleftrightarrow> u = t \<and> ph_frame_id h = f \<and> l \<in> set ls \<or> guard_in hs t f l"
  "guard_in (hs @ hs') t f l \<longleftrightarrow> guard_in hs t f l \<or> guard_in hs' t f l"
  by (auto simp: guard_in_def)

lemma latch_guarded: "l \<in> set (latches f w) \<longleftrightarrow> (\<exists>t. guarded w t f l)"
  by (auto simp: set_latches_in guard_in_def)

lemma not_write_frame: "\<not> write_frame f w \<longleftrightarrow> (\<exists>t l. guarded w t f l)"
proof -
  have "\<not> write_frame f w \<longleftrightarrow> (\<exists>l. l \<in> set (latches f w))" by (cases "latches f w") (auto simp: write_frame_def)
  then show ?thesis by (auto simp: latch_guarded)
qed

lemmas step_parts = enter_def start_acquire_def evict_victim_def load_page_def fill_frame_def enter_flush_def flush_frame_def
  pool_moves lock_state_Some Let_def

text \<open>What each piece does to the handles and to where the threads are.\<close>

lemma piece_handles [simp]:
  "pw_handles (go t p w) = pw_handles w" "pw_handles (leave t p w) = pw_handles w" "pw_handles (set_handles hs w) = hs"
  "pw_handles (mark_dirty f w) = pw_handles w" "pw_handles (drop_handle t h r w) = pw_handles w"
  "pw_handles (enter t need w) = (case map_of (sh_page_table (pw_shard w)) (wanted need) of
     None \<Rightarrow> pw_handles w | Some f \<Rightarrow> (t, handle f (wanted need), []) # pw_handles w)"
  "pw_handles (enter_flush t pid w) = (case map_of (sh_page_table (pw_shard w)) pid of
     None \<Rightarrow> pw_handles w | Some f \<Rightarrow> (t, handle f pid, []) # pw_handles w)"
  "pw_handles (evict_victim d t need f old w) = pw_handles w" "pw_handles (load_page d t pid f w) = pw_handles w"
  "pw_handles (fill_frame t pid f fr fetched w) = (if fetched then (t, handle f pid, []) # pw_handles w else pw_handles w)"
  "pw_handles (install_frame t h page w) = pw_handles w" "pw_handles (flush_frame d t h w) = pw_handles w"
  by (simp_all add: step_parts split: option.split prod.split sum.split claim.split)

lemma piece_point [simp]:
  "pw_point (go t p w) = (pw_point w)(t := p)" "pw_point (leave t p w) = (pw_point w)(t := p)" "pw_point (set_handles hs w) = pw_point w"
  "pw_point (mark_dirty f w) = pw_point w" "pw_point (drop_handle t h r w) = (pw_point w)(t := User r)"
  "pw_point (enter t need w) = (pw_point w)(t := case map_of (sh_page_table (pw_shard w)) (wanted need) of
     None \<Rightarrow> (case fst (claim_frame (pw_shard w)) of Refused e \<Rightarrow> User (Inl e) | Victim f old \<Rightarrow> Evict_Wait need f old
                | Empty f \<Rightarrow> acquired need f)
   | Some f \<Rightarrow> (case need of Fetch pid \<Rightarrow> User (Inr ()) | Install pid page \<Rightarrow> Install_Frame (handle f (wanted need)) page))"
  "pw_point (enter_flush t pid w) = (pw_point w)(t := case map_of (sh_page_table (pw_shard w)) pid of
     None \<Rightarrow> User (Inr ()) | Some f \<Rightarrow> Flush_Frame (handle f pid))"
  "pw_point (evict_victim d t need f old w) = (pw_point w)(t := case fst (write_back d f old (pw_shard w, pw_os w)) of
     Inl e \<Rightarrow> User (Inl e) | Inr _ \<Rightarrow> acquired need f)"
  "pw_point (load_page d t pid f w) = (pw_point w)(t := case fst (disk_read_page d pid (pw_os w)) of
     Inl e \<Rightarrow> User (Inl e) | Inr page \<Rightarrow> Fill_Wait pid f \<lparr>fr_page = page, fr_dirty = False\<rparr> True)"
  "pw_point (fill_frame t pid f fr fetched w) = (pw_point w)(t := User (Inr ()))"
  "pw_point (install_frame t h page w) = (pw_point w)(t := Unpin_Wait h (Inr ()))"
  "pw_point (flush_frame d t h w) = (pw_point w)(t := Unpin_Wait h (fst (write_back d (ph_frame_id h) (ph_page_id h) (pw_shard w, pw_os w))))"
  by (simp_all add: step_parts split: option.split prod.split sum.split claim.split)

text \<open>The other threads stay where they are and keep their handles and guards.\<close>

lemma step_others:
  assumes "pool_step b d t w v" and "u \<noteq> t"
  shows "pw_point v u = pw_point w u \<and> own v u = own w u"
  using assms by cases (auto simp: lock_state_Some split: option.split)

lemma ask_others:
  assumes "pool_ask t w v"
  shows "(u \<noteq> t \<longrightarrow> pw_point v u = pw_point w u) \<and> pw_handles v = pw_handles w \<and> pw_state v = pw_state w"
  using assms by cases (simp_all add: pool_moves)

lemma guarded_own: "own v u = own w u \<Longrightarrow> guarded v u f l = guarded w u f l"
  by (auto simp: guard_in_def set_eq_iff)

text \<open>Only a frame without guards changes, unless through an exclusive guard.\<close>

lemma claim_frame_frames: "claim_frame sh = (c, sh') \<Longrightarrow> sh_frames sh' = sh_frames sh"
proof -
  assume run: "claim_frame sh = (c, sh')"
  obtain v sh1 where fv: "find_victim sh = (v, sh1)" by fastforce
  from run fv swept_fields(1) [OF clock_sweep_swept [OF fv [unfolded find_victim_def]]] show ?thesis
    by (auto simp: claim_frame_def split: if_splits option.splits)
qed

lemma write_back_frames:
  "write_back d f pid (sh, s) = (r, (sh', s')) \<Longrightarrow> g \<noteq> f \<Longrightarrow> sh_frames sh' ! g = sh_frames sh ! g"
  by (drule write_back_shard) auto

lemma step_frame:
  assumes "pool_step b d t w v" and "\<not> write_frame f w"
  shows "sh_frames (pw_shard v) ! f = sh_frames (pw_shard w) ! f"
  using assms(1)
proof cases
  case (evicts need g old)
  with assms(2) have "f \<noteq> g" by blast
  with evicts show ?thesis by (auto simp: step_parts split: prod.splits sum.splits dest: write_back_frames)
next
  case (flushes h)
  with assms(2) have "f \<noteq> ph_frame_id h" by blast
  with flushes show ?thesis by (auto simp: step_parts split: prod.splits dest: write_back_frames)
next
  case (fills pid g fr fetched)
  with assms(2) have "f \<noteq> g" by blast
  with fills show ?thesis by (simp add: step_parts)
next
  case (installs h page)
  with assms(2) have "f \<noteq> ph_frame_id h" by blast
  with installs show ?thesis by (simp add: step_parts)
next
  case (writes h xs ls ys)
  with assms(2) have "f \<noteq> ph_frame_id h" by blast
  with writes show ?thesis by (simp add: step_parts)
next
  case (enters need)
  obtain c sh where run: "claim_frame (pw_shard w) = (c, sh)" by fastforce
  with claim_frame_frames [OF run] enters show ?thesis by (cases c) (auto simp: step_parts split: option.splits)
qed (auto simp: step_parts split: option.splits prod.splits sum.splits)

lemma ask_frame:
  assumes "pool_ask t w v" and "\<not> guarded w t f Exclusive"
  shows "sh_frames (pw_shard v) ! f = sh_frames (pw_shard w) ! f"
  using assms
proof cases
  case (changes r h ls page)
  with assms(2) have "ph_frame_id h \<noteq> f" by (auto simp: guard_in_def)
  with changes show ?thesis by (simp add: pool_moves)
qed (simp_all add: pool_moves)

lemma exclusive_alone:
  assumes ok: "pool_ok w" and "guarded w t f Exclusive" and "guarded w u f l"
  shows "l = Exclusive \<and> u = t"
proof -
  have L: "latches f w = [Exclusive]" using pool_okD(7) [OF ok, of f] assms(2) latch_guarded by blast
  obtain h ls h' ls' where at: "(t, h, ls) \<in> set (pw_handles w)" "ph_frame_id h = f" "Exclusive \<in> set ls"
    and at': "(u, h', ls') \<in> set (pw_handles w)" "ph_frame_id h' = f" "l \<in> set ls'" using assms(2,3) by (auto simp: guard_in_def)
  from at(1) obtain xs ys where hs: "pw_handles w = xs @ (t, h, ls) # ys" by (metis split_list)
  then have "latches_in f xs = []" "latches_in f ys = []" using L at(2,3) by (auto simp: append_eq_Cons_conv)
  then have "(u, h', ls') \<notin> set xs" "(u, h', ls') \<notin> set ys" using at' set_latches_in [of f] by (metis (mono_tags, lifting) empty_iff list.set(1) mem_Collect_eq)+
  with at' hs have "u = t" by auto
  moreover have "l \<in> set (latches f w)" using assms(3) latch_guarded by blast
  ultimately show ?thesis using L by simp
qed

section \<open>A thread with the state\<close>

text \<open>Alone, the thread gets to where it does not have \<^verbatim>\<open>state\<close>.\<close>

definition lets_go :: "bool \<Rightarrow> disk_manager \<Rightarrow> nat \<Rightarrow> pool_world \<Rightarrow> bool" where
  "lets_go b d t w \<longleftrightarrow> (\<exists>v. (pool_step b d t)\<^sup>*\<^sup>* w v \<and> pw_state v = None)"

lemma lets_go_now: "pw_state w = None \<Longrightarrow> lets_go b d t w"
  unfolding lets_go_def by blast

lemma lets_go_step: "pool_step b d t w v \<Longrightarrow> lets_go b d t v \<Longrightarrow> lets_go b d t w"
  unfolding lets_go_def by (blast intro: converse_rtranclp_into_rtranclp)

lemma evict_goes_on:
  "pool_ok w \<Longrightarrow> pw_point w t = Evict_Wait need f old \<Longrightarrow> pool_step b d t w (evict_victim d t need f old w)"
  using state_holder_free(2) [of w t need f old] by (intro evicts) simp_all

lemma fill_goes_on:
  "pool_ok w \<Longrightarrow> pw_point w t = Fill_Wait pid f fr fetched \<Longrightarrow> pool_step b d t w (fill_frame t pid f fr fetched w)"
  using state_holder_free(2) [of w t _ f _ pid fr fetched] by (intro fills) simp_all

lemma fill_lets_go: "pool_ok w \<Longrightarrow> pw_point w t = Fill_Wait pid f fr fetched \<Longrightarrow> lets_go b d t w"
  by (rule lets_go_step [OF fill_goes_on]) (simp_all add: lets_go_now step_parts)

lemma load_lets_go:
  assumes "pool_ok w" and "pw_point w t = Load pid f"
  shows "lets_go b d t w"
proof -
  let ?v = "load_page d t pid f w"
  have st: "pool_step b d t w ?v" by (rule loads [OF assms(2)])
  have "pw_state ?v = None \<or> (\<exists>fr. pw_point ?v t = Fill_Wait pid f fr True)" by (auto simp: step_parts split: prod.splits sum.splits)
  then have "lets_go b d t ?v" using fill_lets_go [OF step_ok [OF st assms(1)]] lets_go_now by blast
  with st show ?thesis by (rule lets_go_step)
qed

lemma evict_lets_go:
  assumes "pool_ok w" and "pw_point w t = Evict_Wait need f old"
  shows "lets_go b d t w"
proof -
  let ?v = "evict_victim d t need f old w"
  have st: "pool_step b d t w ?v" by (rule evict_goes_on [OF assms])
  have "pw_state ?v = None \<or> pw_point ?v t = acquired need f" by (auto simp: step_parts split: prod.splits sum.splits)
  moreover have "(\<exists>pid. acquired need f = Load pid f) \<or> (\<exists>pid fr. acquired need f = Fill_Wait pid f fr False)" by (cases need) simp_all
  ultimately have "lets_go b d t ?v"
    using fill_lets_go [OF step_ok [OF st assms(1)]] load_lets_go [OF step_ok [OF st assms(1)]] lets_go_now by metis
  with st show ?thesis by (rule lets_go_step)
qed

lemma state_holder_leaves:
  assumes "pool_ok w" and "pw_state w = Some t"
  shows "lets_go b d t w"
proof -
  have "holds_state (pw_point w t)" using pool_okD(5) [OF assms(1), of t] assms(2) by simp
  then show ?thesis using evict_lets_go load_lets_go fill_lets_go assms(1) by (cases "pw_point w t") auto
qed

section \<open>An example\<close>

lemma pool_runs_ask: "pool_runs b d n w \<Longrightarrow> pool_ask t w v \<Longrightarrow> pool_runs b d n v"
  unfolding pool_runs_def pool_move_def by (blast intro: rtranclp.rtrancl_into_rtrancl)

lemma pool_runs_step: "pool_runs b d n w \<Longrightarrow> pool_step b d t w v \<Longrightarrow> pool_runs b d n v"
  unfolding pool_runs_def pool_move_def by (blast intro: rtranclp.rtrancl_into_rtrancl)

lemma pool_runs_fresh: "0 < n \<Longrightarrow> pool_runs b d n (fresh_world n s)"
  unfolding pool_runs_def by blast

text \<open>A pool of one frame that has page 1 in it, with handles to it.\<close>

definition example_page :: page where
  "example_page = seal (page_new (PageId 1) Heap)"

abbreviation example_handle :: page_handle where
  "example_handle \<equiv> handle 0 (PageId 1)"

definition example_world :: "os \<Rightarrow> (nat \<times> page_handle \<times> latch list) list \<Rightarrow> (nat \<Rightarrow> shard_point) \<Rightarrow> pool_world" where
  "example_world s hs pts = \<lparr>pw_shard = \<lparr>sh_frames = [\<lparr>fr_page = example_page, fr_dirty = True\<rparr>],
       sh_page_table = [(PageId 1, 0)], sh_frame_pages = [Some (PageId 1)], sh_pin_counts = [of_nat (length hs)],
       sh_ref_bits = [True], sh_clock_hand = 0, sh_free_frames = []\<rparr>,
     pw_os = s, pw_state = None, pw_handles = hs, pw_point = pts\<rparr>"

lemma example_sel [simp]:
  "pw_state (example_world s hs pts) = None" "pw_handles (example_world s hs pts) = hs" "pw_point (example_world s hs pts) = pts"
  "go t p (example_world s hs pts) = example_world s hs (pts(t := p))"
  by (simp_all add: example_world_def go_def)

text \<open>Thread 0 installs the page. On the way there it has \<^verbatim>\<open>state\<close>.\<close>

definition example_filling :: "os \<Rightarrow> pool_world" where
  "example_filling s = start_acquire 0 (Install (PageId 1) example_page) ((fresh_world 1 s)\<lparr>pw_state := Some 0\<rparr>)"

abbreviation example_frame :: frame where
  "example_frame \<equiv> \<lparr>fr_page = example_page, fr_dirty = True\<rparr>"

lemma example_filling:
  "pool_runs b d 1 (example_filling s)" "pw_state (example_filling s) = Some 0"
  "pw_point (example_filling s) 0 = Fill_Wait (PageId 1) 0 example_frame False"
proof -
  let ?w = "fresh_world 1 s" and ?n = "Install (PageId 1) example_page"
  let ?v = "go 0 (State_Wait ?n) ?w"
  have "pool_ask 0 ?w ?v" by (rule asks [of _ _ "Inr ()"]) (simp_all add: fresh_world_def crowd_def)
  then have r: "pool_runs b d 1 ?v" by (rule pool_runs_ask [OF pool_runs_fresh [OF zero_less_one]])
  have "pool_step b d 0 ?v (enter 0 ?n (?v\<lparr>pw_state := Some 0\<rparr>))"
    by (rule enters) (simp_all add: go_def fresh_world_def lock_state_def)
  moreover have "enter 0 ?n (?v\<lparr>pw_state := Some 0\<rparr>) = example_filling s"
    by (simp add: example_filling_def step_parts fresh_world_def claim_frame_def shard_new_def)
  ultimately show "pool_runs b d 1 (example_filling s)" using pool_runs_step [OF r] by metis
  show "pw_state (example_filling s) = Some 0" "pw_point (example_filling s) 0 = Fill_Wait (PageId 1) 0 example_frame False"
    by (simp_all add: example_filling_def step_parts fresh_world_def claim_frame_def shard_new_def)
qed

lemma example_cached: "pool_runs b d 1 (example_world s [] (\<lambda>_. User (Inr ())))"
proof -
  have "fill_frame 0 (PageId 1) 0 example_frame False (example_filling s) = example_world s [] (\<lambda>_. User (Inr ()))"
    by (simp add: example_filling_def step_parts fresh_world_def claim_frame_def shard_new_def table_insert_def set_frame_def
        set_ref_def example_world_def fun_eq_iff)
  with pool_runs_step [OF example_filling(1) fill_goes_on [OF pool_runs_ok [OF example_filling(1)] example_filling(3)]]
  show ?thesis by metis
qed

lemma example_ask:
  assumes "pool_runs b d 1 (example_world s hs pts)" and "pts t = User r" and "pool_ask t (example_world s hs pts) (go t p (example_world s hs pts))"
  shows "pool_runs b d 1 (example_world s hs (pts(t := p)))"
  using pool_runs_ask [OF assms(1,3)] by simp

text \<open>A thread fetches the page, or starts to flush it.\<close>

lemma example_fetch:
  assumes "pool_runs b d 1 (example_world s hs pts)" and "pts t = User r" and "\<And>u. \<not> asking (pts u)" and "Suc (length hs) < 2 ^ 32"
  shows "pool_runs b d 1 (example_world s ((t, example_handle, []) # hs) (pts(t := User (Inr ()))))"
proof -
  let ?n = "Fetch (PageId 1)"
  let ?w = "example_world s hs (pts(t := State_Wait ?n))"
  have "pool_ask t (example_world s hs pts) (go t (State_Wait ?n) (example_world s hs pts))"
    by (rule asks) (use assms in \<open>simp_all add: crowd_def\<close>)
  from example_ask [OF assms(1,2) this] have r: "pool_runs b d 1 ?w" .
  have "pool_step b d t ?w (enter t ?n (?w\<lparr>pw_state := Some t\<rparr>))" by (rule enters) (simp_all add: lock_state_def)
  moreover have "enter t ?n (?w\<lparr>pw_state := Some t\<rparr>) = example_world s ((t, example_handle, []) # hs) (pts(t := User (Inr ())))"
    by (simp add: step_parts example_world_def pin_def set_ref_def)
  ultimately show ?thesis using pool_runs_step [OF r] by metis
qed

lemma example_flush:
  assumes "pool_runs b d 1 (example_world s hs pts)" and "pts t = User r" and "\<And>u. \<not> asking (pts u)" and "Suc (length hs) < 2 ^ 32"
  shows "pool_runs b d 1 (example_world s ((t, example_handle, []) # hs) (pts(t := Flush_Frame example_handle)))"
proof -
  let ?w = "example_world s hs (pts(t := Flush_Wait (PageId 1)))"
  have "pool_ask t (example_world s hs pts) (go t (Flush_Wait (PageId 1)) (example_world s hs pts))"
    by (rule asks_flush) (use assms in \<open>simp_all add: crowd_def\<close>)
  from example_ask [OF assms(1,2) this] have r: "pool_runs b d 1 ?w" .
  have "pool_step b d t ?w (enter_flush t (PageId 1) (?w\<lparr>pw_state := Some t\<rparr>))" by (rule enters_flush) (simp_all add: lock_state_def)
  moreover have "enter_flush t (PageId 1) (?w\<lparr>pw_state := Some t\<rparr>)
      = example_world s ((t, example_handle, []) # hs) (pts(t := Flush_Frame example_handle))"
    by (simp add: step_parts example_world_def pin_def)
  ultimately show ?thesis using pool_runs_step [OF r] by metis
qed

text \<open>Thread 0 reads the page: it has a handle and a guard, as \<^verbatim>\<open>ReadTxn::read_page\<close> before it calls its closure.\<close>

lemma example_reading: "pool_runs b d 1 (example_world s [(0, example_handle, [Shared])] (\<lambda>_. User (Inr ())))"
proof -
  let ?hs = "[(0 :: nat, example_handle, [])]" and ?idle = "\<lambda>_. User (Inr ())"
  have upd: "?idle(0 := User (Inr ())) = ?idle" by auto
  have r: "pool_runs b d 1 (example_world s ?hs ?idle)"
    using example_fetch [OF example_cached [of b d s], where t = 0 and r = "Inr ()"] by (simp add: upd)
  let ?w = "example_world s ?hs (?idle(0 := Read_Wait example_handle))"
  have r1: "pool_runs b d 1 ?w"
    by (rule example_ask [OF r refl asks_read [of _ _ "Inr ()" _ "[]"]]) simp_all
  have "pool_step b d 0 ?w (go 0 (User (Inr ())) (set_handles ([] @ (0, example_handle, [Shared]) # []) ?w))"
    by (rule reads) (simp_all add: read_frame_def)
  from pool_runs_step [OF r1 this] show ?thesis by (simp add: example_world_def set_handles_def go_def upd)
qed

section \<open>Properties\<close>

text \<open>
  C21: A thread that holds \<^verbatim>\<open>state\<close> never waits for another one. In every state of every run with any
  number of threads, whatever the disk does and whoever has guards, the thread that has the mutex can
  go on by itself until it has given it back. The frames whose locks it takes meanwhile have no handles.
\<close>
theorem state_holder_never_waits:
  assumes "pool_runs b d n w" and "pw_state w = Some t"
  shows "(\<exists>v. (pool_step b d t)\<^sup>*\<^sup>* w v \<and> pw_state v = None)
    \<and> (\<forall>f need old pid fr fetched. pw_point w t = Evict_Wait need f old \<or> pw_point w t = Fill_Wait pid f fr fetched \<longrightarrow>
        f < length (sh_frames (pw_shard w)) \<and> sh_pin_counts (pw_shard w) ! f = 0 \<and> latches f w = [])"
proof -
  have ok: "pool_ok w" by (rule pool_runs_ok [OF assms(1)])
  from state_holder_leaves [OF ok assms(2)] state_holder_free [OF ok, of t] show ?thesis
    unfolding lets_go_def write_frame_def by blast
qed

theorem state_holder_never_waits_witness:
  "\<exists>d w. pool_runs True d 1 w \<and> pw_point w 0 = Fill_Wait (PageId 1) 0 example_frame False
     \<and> (\<exists>v. (pool_step True d 0)\<^sup>*\<^sup>* w v \<and> pw_state v = None) \<and> latches 0 w = []"
proof -
  fix s d
  from state_holder_never_waits [OF example_filling(1,2), of True d s] example_filling(1,3) show ?thesis
    by (intro exI [of _ d] exI [of _ "example_filling s"]) blast
qed

text \<open>
  C22: Guards protect pages. However the threads interleave, every frame has as many pins as there
  are handles to it and every handle names the frame that holds its page, so a page in use is never
  evicted; an exclusive guard is the only guard on its frame; and while a thread has a guard, no
  other thread changes the page, nor does the thread itself if the guard is shared.
\<close>
theorem guards_protect_pages:
  assumes "pool_runs b d n w" and "(t, h, ls) \<in> set (pw_handles w)"
  shows "sh_frame_pages (pw_shard w) ! ph_frame_id h = Some (ph_page_id h)
    \<and> sh_pin_counts (pw_shard w) ! ph_frame_id h = of_nat (handles_on (handle_list w) (ph_frame_id h))
    \<and> (Exclusive \<in> set ls \<longrightarrow> latches (ph_frame_id h) w = [Exclusive])
    \<and> (\<forall>l u v. l \<in> set ls \<and> (u \<noteq> t \<or> l = Shared) \<and> (pool_step b d u w v \<or> pool_ask u w v) \<longrightarrow>
        sh_frames (pw_shard v) ! ph_frame_id h = sh_frames (pw_shard w) ! ph_frame_id h)"
proof -
  let ?f = "ph_frame_id h"
  have ok: "pool_ok w" by (rule pool_runs_ok [OF assms(1)])
  have g: "guarded w t ?f l" if "l \<in> set ls" for l using assms(2) that by (auto simp: guard_in_def)
  have hok: "handles_ok (handle_list w) (pw_shard w)" by (rule pool_okD(2) [OF ok])
  then have at: "map_of (sh_page_table (pw_shard w)) (ph_page_id h) = Some ?f"
    using handle_list_entry [OF assms(2)] by (auto simp: handles_ok_def)
  then have f: "?f < length (sh_frames (pw_shard w)) \<and> sh_frame_pages (pw_shard w) ! ?f = Some (ph_page_id h)"
    using shard_wfD(7) [OF pool_okD(1) [OF ok]] by blast
  moreover have "sh_pin_counts (pw_shard w) ! ?f = of_nat (handles_on (handle_list w) ?f)"
    using hok f by (auto simp: handles_ok_def)
  moreover have "Exclusive \<in> set ls \<longrightarrow> latches ?f w = [Exclusive]" using pool_okD(7) [OF ok, of ?f] g latch_guarded by blast
  moreover have "sh_frames (pw_shard v) ! ?f = sh_frames (pw_shard w) ! ?f"
    if "l \<in> set ls" "u \<noteq> t \<or> l = Shared" "pool_step b d u w v \<or> pool_ask u w v" for l u v
    using that(2,3) g [OF that(1)] step_frame ask_frame exclusive_alone [OF ok _ g [OF that(1)]] not_write_frame
    by (metis latch.distinct(1))
  ultimately show ?thesis by blast
qed

theorem guards_protect_pages_witness:
  "\<exists>d w v. pool_runs True d 1 w \<and> pool_step True d 0 w v \<and> pw_handles w = [(0, example_handle, [Shared])]
     \<and> sh_frame_pages (pw_shard w) ! 0 = Some (PageId 1) \<and> sh_frames (pw_shard v) ! 0 = sh_frames (pw_shard w) ! 0"
proof -
  fix s d
  let ?w = "example_world s [(0, example_handle, [Shared])] (\<lambda>_. User (Inr ()))"
  let ?v = "set_handles ([] @ (0, example_handle, [] @ []) # []) ?w"
  have r: "pool_runs True d 1 ?w" by (rule example_reading)
  have st: "pool_step True d 0 ?w ?v" by (rule releases [of _ _ "Inr ()" _ _ _ Shared]) simp_all
  have "sh_frame_pages (pw_shard ?w) ! 0 = Some (PageId 1) \<and> sh_frames (pw_shard ?v) ! 0 = sh_frames (pw_shard ?w) ! 0"
    using guards_protect_pages [OF r, of 0 example_handle "[Shared]"] st by auto
  with r st show ?thesis by (intro exI [of _ d] exI [of _ ?w] exI [of _ ?v]) simp
qed

end
