(* ===== verification/Shard_Progress.thy ===== *)
theory Shard_Progress
  imports Shard_Locks
begin

text \<open>
  What the threads of one shard of the buffer pool get done: a thread that is not interrupted does what
  the functions of the pool say, every call returns as long as the threads do not wait for their own
  guards, and a thread that does waits forever.
\<close>

section \<open>A thread that is not interrupted\<close>

text \<open>The call has returned, with these handles and this shard and system.\<close>

definition returned :: "nat \<Rightarrow> unit result \<Rightarrow> (nat \<times> page_handle \<times> latch list) list \<Rightarrow> shard \<times> os \<Rightarrow> pool_world \<Rightarrow> pool_world" where
  "returned t r hs ss w = w\<lparr>pw_shard := fst ss, pw_os := snd ss, pw_handles := hs, pw_point := (pw_point w)(t := User r)\<rparr>"

lemma acquire_split:
  "acquire_frame d (sh, s) =
     (case claim_frame sh of
        (Refused e, sh1) \<Rightarrow> (Inl e, (sh1, s))
      | (Empty f, sh1) \<Rightarrow> (Inr f, (sh1, s))
      | (Victim f old, sh1) \<Rightarrow>
          (case write_back d f old (sh1, s) of
             (Inl e, ss) \<Rightarrow> (Inl e, ss)
           | (Inr _, (sh2, s2)) \<Rightarrow> (Inr f, (evict old f sh2, s2))))"
  by (simp add: acquire_frame_def claim_frame_def evict_def Let_def split: prod.split option.split sum.split)

text \<open>Where a call is that has tried to get a frame.\<close>

definition after_acquire :: "nat \<Rightarrow> need \<Rightarrow> nat result \<Rightarrow> shard \<times> os \<Rightarrow> pool_world \<Rightarrow> pool_world" where
  "after_acquire t need r ss w =
     (case r of
        Inl e \<Rightarrow> leave t (User (Inl e)) (w\<lparr>pw_shard := fst ss, pw_os := snd ss\<rparr>)
      | Inr f \<Rightarrow> go t (acquired need f) (w\<lparr>pw_shard := fst ss, pw_os := snd ss, pw_state := Some t\<rparr>))"

lemma acquire_alone:
  assumes ok: "pool_ok w" and st: "pw_state w = None" and pt: "pw_point w t = State_Wait need"
    and miss: "map_of (sh_page_table (pw_shard w)) (wanted need) = None"
    and run: "acquire_frame d (pw_shard w, pw_os w) = (r, ss)"
  shows "(pool_step b d t)\<^sup>*\<^sup>* w (after_acquire t need r ss w)"
proof -
  let ?v = "enter t need (w\<lparr>pw_state := Some t\<rparr>)"
  have s1: "pool_step b d t w ?v" by (rule enters [OF pt]) (simp add: lock_state_def st)
  obtain c sh where cl: "claim_frame (pw_shard w) = (c, sh)" by fastforce
  have v: "?v = start_acquire t need (w\<lparr>pw_state := Some t\<rparr>)" using miss by (simp add: enter_def)
  show ?thesis
  proof (cases c)
    case (Victim f old)
    have "pw_point ?v t = Evict_Wait need f old" by (simp add: v start_acquire_def cl Victim pool_moves)
    from evict_goes_on [OF step_ok [OF s1 ok] this, of b d] have s2: "pool_step b d t ?v (evict_victim d t need f old ?v)" .
    have "evict_victim d t need f old ?v = after_acquire t need r ss w"
      using run by (auto simp: acquire_split cl Victim v start_acquire_def pool_moves evict_victim_def after_acquire_def
          evict_def [symmetric] intro!: pool_world.equality split: prod.splits sum.splits)
    with s1 s2 show ?thesis by (metis converse_rtranclp_into_rtranclp r_into_rtranclp)
  next
    case (Refused e)
    have "?v = after_acquire t need r ss w" using run
      by (auto simp: acquire_split cl Refused v start_acquire_def pool_moves after_acquire_def intro!: pool_world.equality)
    with s1 show ?thesis by (metis r_into_rtranclp)
  next
    case (Empty f)
    have "?v = after_acquire t need r ss w" using run
      by (auto simp: acquire_split cl Empty v start_acquire_def pool_moves after_acquire_def intro!: pool_world.equality)
    with s1 show ?thesis by (metis r_into_rtranclp)
  qed
qed

lemma alone_ok: "(pool_step b d t)\<^sup>*\<^sup>* w v \<Longrightarrow> pool_ok w \<Longrightarrow> pool_ok v"
  by (induction rule: rtranclp_induct) (auto intro: step_ok)

lemma alone_step: "(pool_step b d t)\<^sup>*\<^sup>* w v \<Longrightarrow> pool_step b d t v v' \<Longrightarrow> v' = u \<Longrightarrow> (pool_step b d t)\<^sup>*\<^sup>* w u"
  by simp

definition fetched_handles :: "nat \<Rightarrow> page_handle result \<Rightarrow> (nat \<times> page_handle \<times> latch list) list \<Rightarrow> (nat \<times> page_handle \<times> latch list) list" where
  "fetched_handles t r hs = (case r of Inl _ \<Rightarrow> hs | Inr h \<Rightarrow> (t, h, []) # hs)"

lemma fill_alone:
  assumes ok: "pool_ok w" and reach: "(pool_step b d t)\<^sup>*\<^sup>* w v" and pt: "pw_point v t = Fill_Wait pid f fr fetched"
    and "fill_frame t pid f fr fetched v = u"
  shows "(pool_step b d t)\<^sup>*\<^sup>* w u"
  by (rule alone_step [OF reach fill_goes_on [OF alone_ok [OF reach ok] pt] assms(4)])

lemma fetch_alone:
  assumes ok: "pool_ok w" and st: "pw_state w = None" and pt: "pw_point w t = State_Wait (Fetch pid)"
    and run: "shard_fetch_page d pid (pw_shard w, pw_os w) = (r, ss)"
  shows "(pool_step b d t)\<^sup>*\<^sup>* w (returned t (map_sum id (\<lambda>_. ()) r) (fetched_handles t r (pw_handles w)) ss w)" (is "(_)\<^sup>*\<^sup>* w ?u")
proof (cases "map_of (sh_page_table (pw_shard w)) pid")
  case (Some f)
  show ?thesis
    by (rule alone_step [OF rtranclp.rtrancl_refl enters [OF pt]])
      (use run Some st in \<open>auto simp: shard_fetch_page_def enter_def lock_state_def pool_moves returned_def fetched_handles_def
        intro!: pool_world.equality\<close>)
next
  case None
  obtain r1 sh1 s1 where ac: "acquire_frame d (pw_shard w, pw_os w) = (r1, (sh1, s1))" by (metis surj_pair)
  let ?v = "after_acquire t (Fetch pid) r1 (sh1, s1) w"
  have go: "(pool_step b d t)\<^sup>*\<^sup>* w ?v" using acquire_alone [OF ok st pt _ ac] None by simp
  show ?thesis
  proof (cases r1)
    case (Inl e)
    have "?v = ?u" using run None ac Inl st
      by (auto simp: shard_fetch_page_def and_then_def after_acquire_def pool_moves returned_def fetched_handles_def
          intro!: pool_world.equality)
    with go show ?thesis by simp
  next
    case (Inr f)
    have lp: "pw_point ?v t = Load pid f" by (simp add: after_acquire_def Inr pool_moves)
    obtain r2 s2 where rd: "disk_read_page d pid s1 = (r2, s2)" by fastforce
    have load: "(pool_step b d t)\<^sup>*\<^sup>* w (load_page d t pid f ?v)" by (rule alone_step [OF go loads [OF lp] refl])
    note parts = shard_fetch_page_def and_then_def after_acquire_def load_page_def rd pool_moves returned_def fetched_handles_def
    show ?thesis
    proof (cases r2)
      case (Inl e)
      have "load_page d t pid f ?v = ?u" using run None ac \<open>r1 = Inr f\<close> Inl st by (auto simp: parts intro!: pool_world.equality)
      with load show ?thesis by simp
    next
      case (Inr page)
      have "fill_frame t pid f \<lparr>fr_page = page, fr_dirty = False\<rparr> True (load_page d t pid f ?v) = ?u"
        using run None ac \<open>r1 = Inr f\<close> Inr st by (auto simp: parts fill_frame_def Let_def intro!: pool_world.equality)
      moreover have "pw_point (load_page d t pid f ?v) t = Fill_Wait pid f \<lparr>fr_page = page, fr_dirty = False\<rparr> True"
        using \<open>r1 = Inr f\<close> Inr by (simp add: parts)
      ultimately show ?thesis by (intro fill_alone [OF ok load])
    qed
  qed
qed

text \<open>Give back the handle of a call: the thread alone gets \<^verbatim>\<open>state\<close> and returns.\<close>

lemma unpin_alone:
  assumes reach: "(pool_step b d t)\<^sup>*\<^sup>* w v" and "pw_point v t = Unpin_Wait h r" and "pw_state v = None" and "pw_handles v = (t, h, []) # hs"
    and "drop_handle t h r (set_handles hs (v\<lparr>pw_state := Some t\<rparr>)) = u"
  shows "(pool_step b d t)\<^sup>*\<^sup>* w u"
  by (rule alone_step [OF reach unpins [of _ _ _ _ _ "[]"]]) (use assms in \<open>simp_all add: lock_state_def\<close>)

lemma install_alone:
  assumes ok: "pool_ok w" and st: "pw_state w = None" and pt: "pw_point w t = State_Wait (Install pid page)"
    and free: "\<And>f. map_of (sh_page_table (pw_shard w)) pid = Some f \<Longrightarrow> write_frame f w"
    and run: "shard_install_page d pid page (pw_shard w, pw_os w) = (r, ss)"
  shows "(pool_step b d t)\<^sup>*\<^sup>* w (returned t r (pw_handles w) ss w)" (is "(_)\<^sup>*\<^sup>* w ?u")
proof (cases "map_of (sh_page_table (pw_shard w)) pid")
  case (Some f)
  let ?v = "enter t (Install pid page) (w\<lparr>pw_state := Some t\<rparr>)"
  have v: "?v = leave t (Install_Frame (handle f pid) page) (new_handle t (handle f pid)
      (w\<lparr>pw_shard := set_ref f True (pin f (pw_shard w))\<rparr>))" using Some by (simp add: enter_def pool_moves Let_def)
  have s1: "(pool_step b d t)\<^sup>*\<^sup>* w ?v" by (rule alone_step [OF rtranclp.rtrancl_refl enters [OF pt] refl]) (simp add: lock_state_def st)
  have "(pool_step b d t)\<^sup>*\<^sup>* w (install_frame t (handle f pid) page ?v)"
    by (rule alone_step [OF s1 installs refl]) (use free [OF Some] in \<open>simp_all add: v pool_moves write_frame_def\<close>)
  then show ?thesis
    by (rule unpin_alone [where hs = "pw_handles w"])
      (use run Some st in \<open>auto simp: v pool_moves shard_install_page_def returned_def Let_def intro!: pool_world.equality\<close>)
next
  case None
  obtain r1 sh1 s1 where ac: "acquire_frame d (pw_shard w, pw_os w) = (r1, (sh1, s1))" by (metis surj_pair)
  let ?v = "after_acquire t (Install pid page) r1 (sh1, s1) w"
  have go: "(pool_step b d t)\<^sup>*\<^sup>* w ?v" using acquire_alone [OF ok st pt _ ac] None by simp
  note parts = shard_install_page_def and_then_def after_acquire_def pool_moves returned_def
  show ?thesis
  proof (cases r1)
    case (Inl e)
    have "?v = ?u" using run None ac Inl st by (auto simp: parts intro!: pool_world.equality)
    with go show ?thesis by simp
  next
    case (Inr f)
    have "fill_frame t pid f \<lparr>fr_page = page, fr_dirty = True\<rparr> False ?v = ?u"
      using run None ac Inr st by (auto simp: parts fill_frame_def Let_def intro!: pool_world.equality)
    then show ?thesis by (intro fill_alone [OF ok go]) (simp_all add: Inr parts)
  qed
qed

lemma flush_alone:
  assumes ok: "pool_ok w" and st: "pw_state w = None" and pt: "pw_point w t = Flush_Wait pid"
    and free: "\<And>f. map_of (sh_page_table (pw_shard w)) pid = Some f \<Longrightarrow> write_frame f w"
    and run: "shard_flush_page d pid (pw_shard w, pw_os w) = (r, ss)"
  shows "(pool_step b d t)\<^sup>*\<^sup>* w (returned t r (pw_handles w) ss w)" (is "(_)\<^sup>*\<^sup>* w ?u")
proof -
  let ?v = "enter_flush t pid (w\<lparr>pw_state := Some t\<rparr>)"
  have s1: "(pool_step b d t)\<^sup>*\<^sup>* w ?v" by (rule alone_step [OF rtranclp.rtrancl_refl enters_flush [OF pt] refl]) (simp add: lock_state_def st)
  show ?thesis
  proof (cases "map_of (sh_page_table (pw_shard w)) pid")
    case None
    have "?v = ?u" using None run st
      by (auto simp: enter_flush_def shard_flush_page_def pool_moves returned_def intro!: pool_world.equality)
    with s1 show ?thesis by simp
  next
    case (Some f)
    have v: "?v = leave t (Flush_Frame (handle f pid)) (new_handle t (handle f pid) (w\<lparr>pw_shard := pin f (pw_shard w)\<rparr>))"
      using Some by (simp add: enter_flush_def pool_moves Let_def)
    obtain r1 sh1 s1' where wb: "write_back d f pid (pin f (pw_shard w), pw_os w) = (r1, (sh1, s1'))" by (metis surj_pair)
    have "(pool_step b d t)\<^sup>*\<^sup>* w (flush_frame d t (handle f pid) ?v)"
      by (rule alone_step [OF s1 flushes refl]) (use free [OF Some] in \<open>simp_all add: v pool_moves write_frame_def\<close>)
    then show ?thesis
      by (rule unpin_alone [where r = r1 and hs = "pw_handles w"])
        (use run Some st in \<open>auto simp: v pool_moves flush_frame_def wb shard_flush_page_def returned_def intro!: pool_world.equality\<close>)
  qed
qed

section \<open>Every call returns\<close>

text \<open>
  The calls that take the exclusive lock of a frame on their own: those of a commit that publishes its
  pages and of a checkpoint.
\<close>

fun changing :: "shard_point \<Rightarrow> bool" where
  "changing (State_Wait (Install pid page)) \<longleftrightarrow> True"
| "changing (Evict_Wait (Install pid page) f old) \<longleftrightarrow> True"
| "changing (Fill_Wait pid f fr fetched) \<longleftrightarrow> \<not> fetched"
| "changing (Install_Frame h page) \<longleftrightarrow> True"
| "changing (Flush_Wait pid) \<longleftrightarrow> True"
| "changing (Flush_Frame h) \<longleftrightarrow> True"
| "changing _ \<longleftrightarrow> False"

text \<open>
  How transactions and checkpoints use the pool: they take shared guards only, and a commit or
  checkpoint has none while it installs or flushes pages. If writers go first, one commit or
  checkpoint at a time (they hold the lock of the log) and no second guard on a frame the thread has one on.
\<close>

definition polite :: "bool \<Rightarrow> pool_world \<Rightarrow> bool" where
  "polite b w \<longleftrightarrow> (\<forall>t f. \<not> guarded w t f Exclusive) \<and> (\<forall>t h. pw_point w t \<noteq> Write_Wait h)
     \<and> (\<forall>t f l. changing (pw_point w t) \<longrightarrow> \<not> guarded w t f l)
     \<and> (b \<longrightarrow> (\<forall>t u. changing (pw_point w t) \<and> changing (pw_point w u) \<longrightarrow> t = u)
           \<and> (\<forall>t h l. pw_point w t = Read_Wait h \<longrightarrow> \<not> guarded w t (ph_frame_id h) l))"

lemma step_guards:
  assumes "pool_step b d t w v" and "guarded v t f l"
  shows "guarded w t f l \<or> (\<exists>h. pw_point w t = Read_Wait h \<and> l = Shared) \<or> (\<exists>h. pw_point w t = Write_Wait h)"
  using assms by cases (auto simp: lock_state_Some split: option.splits if_splits)

lemma acquired_point [simp]:
  "changing (acquired need f) = changing (State_Wait need)" "changing (Evict_Wait need f old) = changing (State_Wait need)"
  "acquired need f \<noteq> Read_Wait h" "acquired need f \<noteq> Write_Wait h"
  by (cases need; simp)+

lemma step_point:
  assumes "pool_step b d t w v"
  shows "changing (pw_point v t) \<longrightarrow> changing (pw_point w t)" "pw_point v t \<noteq> Read_Wait h" "pw_point v t \<noteq> Write_Wait h"
  using assms by (cases; auto simp: lock_state_Some split: option.split sum.split claim.split need.split)+

lemma step_polite:
  assumes st: "pool_step b d t w v" and p: "polite b w"
  shows "polite b v"
proof -
  note same = step_others [OF st]
  have g: "guarded v u f l \<Longrightarrow> guarded w u f l \<or> l = Shared \<and> u = t \<and> \<not> changing (pw_point w t)" for u f l
  proof (cases "u = t")
    case True
    assume "guarded v u f l"
    then have "guarded w t f l \<or> (\<exists>h. pw_point w t = Read_Wait h \<and> l = Shared) \<or> (\<exists>h. pw_point w t = Write_Wait h)"
      using step_guards [OF st] True by blast
    with True p show ?thesis by (auto simp: polite_def)
  qed (use same guarded_own in blast)
  have c: "changing (pw_point v u) \<Longrightarrow> changing (pw_point w u)" for u
    using step_point(1) [OF st] same [of u] by (cases "u = t") auto
  have w: "pw_point w u \<noteq> Write_Wait h" for u h using p by (simp add: polite_def)
  have r: "pw_point v u = Read_Wait h \<Longrightarrow> u \<noteq> t \<and> pw_point w u = Read_Wait h" for u h
    using step_point(2) [OF st] same [of u] by metis
  have "pw_point v u \<noteq> Write_Wait h" for u h using step_point(3) [OF st] same [of u] w by metis
  then show ?thesis unfolding polite_def
  proof (intro conjI allI impI)
    show "\<not> guarded v u f Exclusive" for u f using g [of u f Exclusive] p by (auto simp: polite_def)
    show "\<not> guarded v u f l" if "changing (pw_point v u)" for u f l using g [of u f l] c [OF that] p by (auto simp: polite_def)
    show "u = u'" if "b" "changing (pw_point v u) \<and> changing (pw_point v u')" for u u'
      using c that p by (auto simp: polite_def)
    show "\<not> guarded v u (ph_frame_id h) l" if "b" "pw_point v u = Read_Wait h" for u h l
      using g [of u "ph_frame_id h" l] r [OF that(2)] that(1) p by (auto simp: polite_def)
  qed blast
qed

subsection \<open>What is left to do\<close>

fun to_do :: "shard_point \<Rightarrow> nat" where
  "to_do (User r) = 0"
| "to_do (Unpin_Wait h r) = 1"
| "to_do (Fill_Wait pid f fr fetched) = 3"
| "to_do (Load pid f) = 4"
| "to_do (Flush_Wait pid) = 4"
| "to_do (Evict_Wait need f old) = 5"
| "to_do (State_Wait need) = 6"
| "to_do _ = 2"

definition weight :: "(nat \<times> page_handle \<times> latch list) list \<Rightarrow> nat" where
  "weight hs = sum_list (map (\<lambda>(t, h, ls). Suc (length ls)) hs)"

definition left_over :: "pool_world \<Rightarrow> nat" where
  "left_over w = (\<Sum>t | to_do (pw_point w t) \<noteq> 0. to_do (pw_point w t)) + weight (pw_handles w)"

lemma weight_simps [simp]: "weight [] = 0" "weight ((t, h, ls) # hs) = Suc (length ls) + weight hs" "weight (hs @ hs') = weight hs + weight hs'"
  by (simp_all add: weight_def)

lemma busy_finite: "pool_ok w \<Longrightarrow> finite {t. to_do (pw_point w t) \<noteq> 0}"
  by (rule finite_subset [OF _ pool_okD(3)]) auto

lemma left_over_change:
  assumes "pool_ok w" and "\<And>u. u \<noteq> t \<Longrightarrow> pw_point v u = pw_point w u"
    and "to_do (pw_point v t) + weight (pw_handles v) < to_do (pw_point w t) + weight (pw_handles w)"
  shows "left_over v < left_over w"
  using sum_support_change [OF busy_finite [OF assms(1)], of t "\<lambda>u. to_do (pw_point v u)"] assms(2,3)
  by (simp add: left_over_def)

lemma to_do_acquired [simp]: "to_do (acquired need f) \<le> 4" "\<not> 5 \<le> to_do (acquired need f)"
  by (cases need; simp)+

lemma step_less:
  assumes "pool_step b d t w v" and "\<And>r. pw_point w t \<noteq> User r"
  shows "to_do (pw_point v t) + weight (pw_handles v) < to_do (pw_point w t) + weight (pw_handles w)"
  using assms
  by cases (auto simp: lock_state_Some less_Suc_eq_le split: option.split sum.split claim.split need.split intro: le_less_trans [OF to_do_acquired(1)])

text \<open>The threads get something done.\<close>

definition any_step :: "bool \<Rightarrow> disk_manager \<Rightarrow> pool_world \<Rightarrow> pool_world \<Rightarrow> bool" where
  "any_step b d w v \<longleftrightarrow> (\<exists>t. pool_step b d t w v)"

definition advances :: "bool \<Rightarrow> disk_manager \<Rightarrow> pool_world \<Rightarrow> bool" where
  "advances b d w \<longleftrightarrow> (\<exists>v. (any_step b d)\<^sup>*\<^sup>* w v \<and> pool_ok v \<and> polite b v \<and> left_over v < left_over w)"

lemma busy_advances:
  assumes "pool_ok w" and "polite b w" and st: "pool_step b d t w v" and "\<And>r. pw_point w t \<noteq> User r"
  shows "advances b d w"
  unfolding advances_def
proof (intro exI conjI)
  show "(any_step b d)\<^sup>*\<^sup>* w v" using st unfolding any_step_def by (intro r_into_rtranclp) blast
  show "left_over v < left_over w"
    by (rule left_over_change [OF assms(1) _ step_less [OF st assms(4)]]) (use step_others [OF st] in blast)
qed (use assms step_ok step_polite in blast)+

text \<open>A thread in its own code gives back a guard or a handle.\<close>

lemma user_advances:
  assumes ok: "pool_ok w" and p: "polite b w" and st: "pw_state w = None" and pt: "pw_point w t = User r"
    and h: "(t, h, ls) \<in> set (pw_handles w)"
  shows "advances b d w"
proof -
  from h obtain xs ys where hs: "pw_handles w = xs @ (t, h, ls) # ys" by (metis split_list)
  show ?thesis
  proof (cases ls)
    case (Cons l ls')
    let ?v = "set_handles (xs @ (t, h, [] @ ls') # ys) w"
    have s: "pool_step b d t w ?v" by (rule releases [OF pt]) (simp add: hs Cons)
    have "left_over ?v < left_over w" by (rule left_over_change [OF ok, of t]) (simp_all add: hs Cons)
    with step_ok [OF s ok] step_polite [OF s p] s show ?thesis unfolding advances_def any_step_def by blast
  next
    case Nil
    let ?u = "go t (Unpin_Wait h r) w"
    let ?v = "drop_handle t h r (set_handles (xs @ ys) (?u\<lparr>pw_state := Some t\<rparr>))"
    have s1: "pool_step b d t w ?u" by (rule drops [OF pt]) (use h Nil in simp)
    have s2: "pool_step b d t ?u ?v" by (rule unpins) (simp_all add: lock_state_def go_def st hs Nil)
    have "left_over ?v < left_over w" by (rule left_over_change [OF ok, of t]) (simp_all add: hs Nil)
    moreover have "(any_step b d)\<^sup>*\<^sup>* w ?v" using s1 s2 unfolding any_step_def by (blast intro: converse_rtranclp_into_rtranclp r_into_rtranclp)
    ultimately show ?thesis unfolding advances_def
      using step_ok [OF s2 step_ok [OF s1 ok]] step_polite [OF s2 step_polite [OF s1 p]] by blast
  qed
qed

lemma read_goes_on:
  assumes ok: "pool_ok w" and p: "polite b w" and pt: "pw_point w t = Read_Wait h"
    and free: "b \<Longrightarrow> \<forall>u. \<not> waits_to_write (ph_frame_id h) (pw_point w u)"
  shows "advances b d w"
proof -
  obtain ls where "(t, h, ls) \<in> set (pw_handles w)" using pool_okD(6) [OF ok, of t] pt by auto
  then obtain xs ys where hs: "pw_handles w = xs @ (t, h, ls) # ys" by (metis split_list)
  have "Exclusive \<notin> set (latches (ph_frame_id h) w)" using p by (simp add: latch_guarded polite_def)
  with free have "read_frame b (ph_frame_id h) w" by (simp add: read_frame_def)
  from busy_advances [OF ok p reads [OF pt this hs]] pt show ?thesis by simp
qed

lemma waiting_writer:
  assumes "polite b w" and "waits_to_write f (pw_point w t)"
  shows "changing (pw_point w t)" "(\<exists>h page. pw_point w t = Install_Frame h page \<and> ph_frame_id h = f) \<or> (\<exists>h. pw_point w t = Flush_Frame h \<and> ph_frame_id h = f)"
  using assms by (cases "pw_point w t"; simp add: polite_def)+

text \<open>
  A thread waits for the exclusive lock of a frame. Whoever has a guard on the frame either is in its own
  code, or waits for another frame that no writer waits for.
\<close>

lemma writer_advances:
  assumes ok: "pool_ok w" and p: "polite b w" and st: "pw_state w = None" and wt: "waits_to_write f (pw_point w t)"
    and no: "\<And>u. \<not> asking (pw_point w u)" "\<And>u h r. pw_point w u \<noteq> Unpin_Wait h r"
  shows "advances b d w"
proof (cases "write_frame f w")
  case True
  from waiting_writer(2) [OF p wt] obtain v where s: "pool_step b d t w v" and "\<And>r. pw_point w t \<noteq> User r"
    using True installs [of w t] flushes [of w t] by (metis shard_point.distinct(9,13))
  then show ?thesis by (rule busy_advances [OF ok p])
next
  case False
  then obtain u l where g: "guarded w u f l" by (auto simp: not_write_frame)
  then obtain h ls where h: "(u, h, ls) \<in> set (pw_handles w)" by (auto simp: guard_in_def)
  have "\<not> changing (pw_point w u)" using p g by (auto simp: polite_def)
  then consider r where "pw_point w u = User r" | h' where "pw_point w u = Read_Wait h'"
    using no [of u] p by (cases "pw_point w u") (auto simp: polite_def)
  then show ?thesis
  proof cases
    case 1
    from user_advances [OF ok p st this h] show ?thesis .
  next
    case (2 h')
    have "\<not> waits_to_write (ph_frame_id h') (pw_point w t')" if b for t'
    proof
      assume wt': "waits_to_write (ph_frame_id h') (pw_point w t')"
      have "t' = t" using waiting_writer(1) [OF p wt] waiting_writer(1) [OF p wt'] p that by (auto simp: polite_def)
      with wt wt' have "ph_frame_id h' = f" by (cases "pw_point w t") auto
      with g 2 that p show False by (auto simp: polite_def)
    qed
    with read_goes_on [OF ok p 2] show ?thesis by blast
  qed
qed

lemma who_is_busy:
  assumes "\<not> ((\<forall>t. \<exists>r. pw_point w t = User r) \<and> pw_handles w = [])"
  obtains (ask) t where "asking (pw_point w t)" | (unpin) t h r where "pw_point w t = Unpin_Wait h r"
    | (writer) f t where "\<And>u. \<not> asking (pw_point w u)" "\<And>u h r. pw_point w u \<noteq> Unpin_Wait h r" "waits_to_write f (pw_point w t)"
    | (reader) t h where "pw_point w t = Read_Wait h" "\<And>f u. \<not> waits_to_write f (pw_point w u)"
    | (user) t h ls r where "(t, h, ls) \<in> set (pw_handles w)" "pw_point w t = User r"
proof (cases "(\<exists>t. asking (pw_point w t)) \<or> (\<exists>t h r. pw_point w t = Unpin_Wait h r)")
  case True
  then show ?thesis using ask unpin by blast
next
  case calm: False
  show ?thesis
  proof (cases "\<exists>f t. waits_to_write f (pw_point w t)")
    case True
    then show ?thesis using calm writer by blast
  next
    case no_writer: False
    show ?thesis
    proof (cases "\<exists>t h. pw_point w t = Read_Wait h")
      case True
      then show ?thesis using no_writer reader by blast
    next
      case False
      have own: "\<exists>r. pw_point w t = User r" for t
        using False no_writer calm by (cases "pw_point w t") (metis asking.simps waits_to_write.simps)+
      with assms obtain t h ls where "(t, h, ls) \<in> set (pw_handles w)" by (cases "pw_handles w") auto
      with own show ?thesis using user by blast
    qed
  qed
qed

lemma someone_advances:
  assumes ok: "pool_ok w" and p: "polite b w" and busy: "\<not> ((\<forall>t. \<exists>r. pw_point w t = User r) \<and> pw_handles w = [])"
  shows "advances b d w"
proof (cases "pw_state w")
  case (Some t)
  have "holds_state (pw_point w t)" using pool_okD(5) [OF ok, of t] Some by simp
  then have "\<exists>v. pool_step b d t w v \<and> (\<forall>r. pw_point w t \<noteq> User r)"
    using evict_goes_on [OF ok, of t] fill_goes_on [OF ok, of t] loads [of w t] by (cases "pw_point w t") auto
  then show ?thesis using busy_advances [OF ok p] by blast
next
  case None
  have lock: "lock_state t w = Some (w\<lparr>pw_state := Some t\<rparr>)" for t by (simp add: lock_state_def None)
  have held: "\<not> holds_state (pw_point w t)" for t using pool_okD(5) [OF ok, of t] None by simp
  from busy show ?thesis
  proof (cases rule: who_is_busy)
    case (ask t)
    then have "\<exists>v. pool_step b d t w v \<and> (\<forall>r. pw_point w t \<noteq> User r)"
      using enters [OF _ lock, of t] enters_flush [OF _ lock, of t] held [of t] by (cases "pw_point w t") auto
    then show ?thesis using busy_advances [OF ok p] by blast
  next
    case (unpin t h r)
    then have "(t, h, []) \<in> set (pw_handles w)" using pool_okD(6) [OF ok, of t] by simp
    then obtain xs ys where hs: "pw_handles w = xs @ (t, h, []) # ys" by (metis split_list)
    from busy_advances [OF ok p unpins [OF unpin lock hs]] unpin show ?thesis by simp
  next
    case (writer f t)
    then show ?thesis by (intro writer_advances [OF ok p None])
  next
    case (reader t h)
    then show ?thesis by (intro read_goes_on [OF ok p]) auto
  next
    case (user t h ls r)
    then show ?thesis by (intro user_advances [OF ok p None])
  qed
qed

lemma all_can_return:
  assumes "pool_ok w" and "polite b w"
  shows "\<exists>v. (any_step b d)\<^sup>*\<^sup>* w v \<and> (\<forall>t. \<exists>r. pw_point v t = User r) \<and> pw_handles v = [] \<and> pw_state v = None"
  using assms
proof (induction "left_over w" arbitrary: w rule: less_induct)
  case less
  show ?case
  proof (cases "(\<forall>t. \<exists>r. pw_point w t = User r) \<and> pw_handles w = []")
    case True
    have "pw_state w \<noteq> Some t" for t using True pool_okD(5) [OF less(2), of t] by (metis holds_state.simps(4))
    with True show ?thesis by (intro exI [of _ w]) auto
  next
    case False
    from someone_advances [OF less(2,3) this] obtain v where v: "(any_step b d)\<^sup>*\<^sup>* w v" "pool_ok v" "polite b v" "left_over v < left_over w"
      unfolding advances_def by blast
    from less(1) [OF v(4,2,3)] v(1) show ?thesis by (meson rtranclp_trans)
  qed
qed

section \<open>Waiting for one's own guard\<close>

text \<open>
  A thread that has a guard on a frame waits for the exclusive lock of the frame; or, if writers go
  first, for a second guard on it while somebody else waits for the exclusive lock.
\<close>

definition waits_for_itself :: "bool \<Rightarrow> pool_world \<Rightarrow> nat \<Rightarrow> bool" where
  "waits_for_itself b w t \<longleftrightarrow> (\<exists>f l. guarded w t f l \<and> (waits_to_write f (pw_point w t)
     \<or> b \<and> (\<exists>h. pw_point w t = Read_Wait h \<and> ph_frame_id h = f) \<and> (\<exists>u. waits_to_write f (pw_point w u))))"

lemma writer_blocked:
  assumes "waits_to_write f (pw_point w u)" and "guarded w t f l"
  shows "\<not> pool_step b d u w v" "\<not> pool_ask u w v"
proof -
  have nf: "\<not> write_frame f w" using assms(2) not_write_frame by blast
  show "\<not> pool_step b d u w v"
  proof
    assume "pool_step b d u w v"
    then show False using assms(1) nf by cases auto
  qed
  show "\<not> pool_ask u w v"
  proof
    assume "pool_ask u w v"
    then show False using assms(1) by cases auto
  qed
qed

lemma reader_blocked:
  assumes "pw_point w t = Read_Wait h" and "waits_to_write (ph_frame_id h) (pw_point w u)"
  shows "\<not> pool_step True d t w v" "\<not> pool_ask t w v"
proof -
  show "\<not> pool_step True d t w v"
  proof
    assume "pool_step True d t w v"
    then show False using assms by cases (auto simp: read_frame_def)
  qed
  show "\<not> pool_ask t w v"
  proof
    assume "pool_ask t w v"
    then show False using assms(1) by cases auto
  qed
qed

lemma move_others:
  assumes "pool_move b d w v" and "\<not> pool_step b d u w v" and "\<not> pool_ask u w v"
  shows "pw_point v u = pw_point w u \<and> own v u = own w u"
proof (cases "\<exists>s. v = w\<lparr>pw_os := s\<rparr>")
  case False
  with assms(1) obtain t where "pool_step b d t w v \<or> pool_ask t w v" by (auto simp: pool_move_def)
  with assms(2,3) step_others [of b d t w v u] ask_others [of t w v u] show ?thesis by metis
qed auto

lemma self_wait_move:
  assumes "waits_for_itself b w t" and m: "pool_move b d w v"
  shows "waits_for_itself b v t \<and> pw_point v t = pw_point w t"
proof -
  obtain f l where g: "guarded w t f l" and alt: "waits_to_write f (pw_point w t)
     \<or> b \<and> (\<exists>h. pw_point w t = Read_Wait h \<and> ph_frame_id h = f) \<and> (\<exists>u. waits_to_write f (pw_point w u))"
    using assms(1) by (auto simp: waits_for_itself_def)
  have stays: "pw_point v u = pw_point w u \<and> own v u = own w u" if "waits_to_write f (pw_point w u) \<or> u = t" for u
  proof (rule move_others [OF m])
    show "\<not> pool_step b d u w v" "\<not> pool_ask u w v"
      using that alt writer_blocked [OF _ g, of u] writer_blocked [OF _ g, of t] reader_blocked [of w t] by (metis (full_types))+
  qed
  have own: "own v t = own w t" and pt: "pw_point v t = pw_point w t" using stays [of t] by blast+
  have "guarded v t f l" by (rule iffD2 [OF guarded_own [OF own] g])
  moreover have "waits_to_write f (pw_point v u)" if "waits_to_write f (pw_point w u)" for u using stays that by simp
  ultimately show ?thesis unfolding waits_for_itself_def pt using alt by blast
qed

section \<open>Properties\<close>

text \<open>
  C24: The pieces make the whole. A thread that nobody interrupts, and that finds no guard on a page
  it installs or flushes, gets from its call to its return what \<^verbatim>\<open>fetch_page\<close>, \<^verbatim>\<open>install_page\<close> and \<^verbatim>\<open>flush_page\<close>
  compute: the same result, bookkeeping and files, and a new handle exactly when a fetch succeeds.
\<close>
theorem pool_steps_make_operations:
  assumes "pool_runs b d n w" and "pw_state w = None" and "pw_point w t = User r0" and "Suc (crowd w) < 2 ^ 32"
    and "\<And>f. map_of (sh_page_table (pw_shard w)) pid = Some f \<Longrightarrow> latches f w = []"
  shows "(case shard_fetch_page d pid (pw_shard w, pw_os w) of (r, ss) \<Rightarrow>
      (pool_step b d t)\<^sup>*\<^sup>* (go t (State_Wait (Fetch pid)) w)
        (returned t (map_sum id (\<lambda>_. ()) r) (case r of Inl _ \<Rightarrow> pw_handles w | Inr h \<Rightarrow> (t, h, []) # pw_handles w) ss w))
    \<and> (case shard_install_page d pid page (pw_shard w, pw_os w) of (r, ss) \<Rightarrow>
      (pool_step b d t)\<^sup>*\<^sup>* (go t (State_Wait (Install pid page)) w) (returned t r (pw_handles w) ss w))
    \<and> (case shard_flush_page d pid (pw_shard w, pw_os w) of (r, ss) \<Rightarrow>
      (pool_step b d t)\<^sup>*\<^sup>* (go t (Flush_Wait pid) w) (returned t r (pw_handles w) ss w))"
proof -
  have ok: "pool_ok w" by (rule pool_runs_ok [OF assms(1)])
  let ?F = "go t (State_Wait (Fetch pid)) w" and ?I = "go t (State_Wait (Install pid page)) w" and ?L = "go t (Flush_Wait pid) w"
  have asked: "pool_ok ?F" "pool_ok ?I" "pool_ok ?L"
    using ask_ok [OF asks [OF assms(3,4)] ok] ask_ok [OF asks_flush [OF assms(3,4)] ok] by blast+
  have st: "pw_state (go t p w) = None" "pw_shard (go t p w) = pw_shard w" "pw_os (go t p w) = pw_os w"
    "returned t r hs ss (go t p w) = returned t r hs ss w" for p r hs ss using assms(2) by (simp_all add: go_def returned_def)
  have free: "write_frame f (go t p w)" if "map_of (sh_page_table (pw_shard w)) pid = Some f" for f p
    using assms(5) [OF that] by (simp add: write_frame_def)
  show ?thesis
  proof (intro conjI)
    show "case shard_fetch_page d pid (pw_shard w, pw_os w) of (r, ss) \<Rightarrow> (pool_step b d t)\<^sup>*\<^sup>* ?F
        (returned t (map_sum id (\<lambda>_. ()) r) (case r of Inl _ \<Rightarrow> pw_handles w | Inr h \<Rightarrow> (t, h, []) # pw_handles w) ss w)"
      using fetch_alone [OF asked(1), of t pid d] by (simp add: st fetched_handles_def split: prod.split)
    show "case shard_install_page d pid page (pw_shard w, pw_os w) of (r, ss) \<Rightarrow>
        (pool_step b d t)\<^sup>*\<^sup>* ?I (returned t r (pw_handles w) ss w)"
      using install_alone [OF asked(2), of t pid page d] free by (simp add: st split: prod.split)
    show "case shard_flush_page d pid (pw_shard w, pw_os w) of (r, ss) \<Rightarrow>
        (pool_step b d t)\<^sup>*\<^sup>* ?L (returned t r (pw_handles w) ss w)"
      using flush_alone [OF asked(3), of t pid d] free by (simp add: st split: prod.split)
  qed
qed

theorem pool_steps_make_operations_witness:
  "\<exists>d w r ss. pool_runs True d 1 w \<and> shard_flush_page d (PageId 1) (pw_shard w, pw_os w) = (r, ss)
     \<and> (pool_step True d 0)\<^sup>*\<^sup>* (go 0 (Flush_Wait (PageId 1)) w) (returned 0 r (pw_handles w) ss w)"
proof -
  fix s d
  let ?w = "example_world s [] (\<lambda>_. User (Inr ()))"
  have r: "pool_runs True d 1 ?w" by (rule example_cached)
  obtain q ss where q: "shard_flush_page d (PageId 1) (pw_shard ?w, pw_os ?w) = (q, ss)" by (metis surj_pair)
  from pool_steps_make_operations [OF r, of 0 "Inr ()" "PageId 1"] r q show ?thesis
    by (intro exI [of _ d] exI [of _ ?w] exI [of _ q] exI [of _ ss]) (simp add: crowd_def)
qed

text \<open>
  C23: Every call returns. If threads use the pool the way transactions and checkpoints do (shared guards
  only, none held while installing or flushing, and, where waiting writers keep readers out, one
  commit or checkpoint at a time and no second guard on a frame), then from every state of every run
  there is a schedule after which all calls have returned and all guards, handles and locks are given back.
\<close>
theorem pool_calls_return:
  assumes "pool_runs b d n w" and "polite b w"
  shows "\<exists>v. (any_step b d)\<^sup>*\<^sup>* w v \<and> (\<forall>t. \<exists>r. pw_point v t = User r) \<and> pw_handles v = [] \<and> pw_state v = None"
  by (rule all_can_return [OF pool_runs_ok [OF assms(1)] assms(2)])

theorem pool_calls_return_witness:
  "\<exists>d w v. pool_runs True d 1 w \<and> pw_handles w = [(1, example_handle, []), (0, example_handle, [Shared])]
     \<and> pw_point w 1 = Flush_Frame example_handle \<and> (any_step True d)\<^sup>*\<^sup>* w v \<and> pw_handles v = []"
proof -
  fix s d
  let ?w = "example_world s [(1, example_handle, []), (0, example_handle, [Shared])] ((\<lambda>_. User (Inr ()))(1 := Flush_Frame example_handle))"
  have r: "pool_runs True d 1 ?w" by (rule example_flush [OF example_reading]) simp_all
  have "polite True ?w" by (auto simp: polite_def split: if_splits)
  from pool_calls_return [OF r this] obtain v where "(any_step True d)\<^sup>*\<^sup>* ?w v" "pw_handles v = []" by blast
  with r show ?thesis by (intro exI [of _ d] exI [of _ ?w] exI [of _ v]) simp
qed

text \<open>
  C25: A thread that waits for its own guard waits forever, whatever the others do. It does when it
  flushes a page it has a guard on, as a checkpoint called from the closure of \<^verbatim>\<open>read_page\<close> does; and, where
  waiting writers keep readers out, when it asks for a second guard on a page, as a \<^verbatim>\<open>read_page\<close>
  of the same page inside the closure does, while another thread waits to flush or install the page.
\<close>
theorem waits_for_itself_forever:
  assumes "pool_runs b d n w" and "waits_for_itself b w t" and "(pool_move b d)\<^sup>*\<^sup>* w v"
  shows "pw_point v t = pw_point w t \<and> (\<forall>r. pw_point v t \<noteq> User r)"
proof -
  from assms(3) have "waits_for_itself b v t \<and> pw_point v t = pw_point w t"
  proof (induction rule: rtranclp_induct)
    case (step u v)
    then show ?case using self_wait_move [of b u t d v] by simp
  qed (use assms(2) in simp)
  then show ?thesis by (auto simp: waits_for_itself_def)
qed

theorem waits_for_itself_forever_witness:
  "\<exists>d w. pool_runs False d 1 w \<and> pw_handles w = [(0, example_handle, []), (0, example_handle, [Shared])]
     \<and> (\<forall>v. (pool_move False d)\<^sup>*\<^sup>* w v \<longrightarrow> pw_point v 0 = Flush_Frame example_handle)"
proof -
  fix s d
  let ?w = "example_world s [(0, example_handle, []), (0, example_handle, [Shared])] ((\<lambda>_. User (Inr ()))(0 := Flush_Frame example_handle))"
  have r: "pool_runs False d 1 ?w" by (rule example_flush [OF example_reading]) simp_all
  have "waits_for_itself False ?w 0" by (auto simp: waits_for_itself_def)
  from waits_for_itself_forever [OF r this] r show ?thesis by (intro exI [of _ d] exI [of _ ?w]) simp
qed

end
