(* ===== verification/Spec2Isabelle.thy ===== *)
theory Spec2Isabelle
  imports Limits Shard_Progress
begin

text \<open>
  oxenDB is an embedded, transactional page store: a data file of 4096-byte checksummed pages, a
  write-ahead log next to it, a buffer pool in front, and transactions over whole pages. These
  theories model the crate \<^verbatim>\<open>src/crates/oxendb/src\<close> and prove that it keeps its promises
  through faults, killed processes and power losses.

  \<^bold>\<open>The parts and their theories.\<close> Every definition has the name of the function it
  translates where Isabelle allows it (\<open>disk_\<close>, \<open>wal_\<close>, \<open>shard_\<close>,
  \<open>pool_\<close>, \<open>read_txn_\<close> and the like keep methods of the same name apart).

  \<^item> \<open>Prelude\<close>: bytes, slices, little-endian integers, Rust's \<^verbatim>\<open>Result\<close> and \<^verbatim>\<open>?\<close> as programs
    that return an error or a value and a new state (\<open>prog\<close>, \<open>and_then\<close>, \<open>for_each\<close>), and \<^verbatim>\<open>BTreeMap\<close> as
    an ordered association list (\<open>bt_insert\<close>).
  \<^item> \<open>Checksum\<close>: \<^verbatim>\<open>storage/checksum/mod.rs\<close> and \<^verbatim>\<open>hw.rs\<close>. The table-driven, slicing-by-8 and
    hardware updates all compute the bit-serial CRC32C; a change of up to four bytes in a row is always
    detected.
  \<^item> \<open>Error\<close>: \<^verbatim>\<open>error.rs\<close>. \<open>Page\<close>, \<open>File_Header\<close>: \<^verbatim>\<open>storage/page.rs\<close> and \<^verbatim>\<open>storage/file_header.rs\<close>,
    with round trips, exact acceptance conditions and the place where page offsets wrap around.
  \<^item> \<open>Os\<close>: what the engine uses of \<^verbatim>\<open>std::fs\<close> and \<^verbatim>\<open>std::path\<close>. A file is its durable bytes and the
    operations accepted since; every call consumes an entry of a script that says whether it
    succeeds, fails, or is where the machine stops. \<open>crash_os\<close> relates a system to everything a power loss
    may leave of it: each pending write may be there, missing, or there in some of its 512-byte
    sectors, and a name that was not synced may be gone. After a failed fsync a later one that succeeds
    promises nothing.
  \<^item> \<open>Disk\<close>, \<open>Data_Crash\<close>: \<^verbatim>\<open>storage/disk.rs\<close>, and which pages of the data file keep their contents
    whatever becomes of pending writes. The locale \<open>page_store\<close> states what reading and writing pages
    promise and is interpreted on the disk manager.
  \<^item> \<open>Wal_Record\<close>, \<open>Wal_Log\<close>, \<open>Wal_Crash\<close>: \<^verbatim>\<open>storage/wal/record.rs\<close> and \<^verbatim>\<open>log.rs\<close>. Opening reads
    the longest run of consecutively numbered records; flushing is durable, an interrupted flush
    leaves a prefix, an interrupted reset leaves all records or none. The locale \<open>redo_log\<close> is the
    contract of a log that a commit relies on.
  \<^item> \<open>Recovery\<close>: \<^verbatim>\<open>storage/recovery.rs\<close>. Replay writes the latest committed image of every page, can be
    interrupted and repeated, and refuses invalid images before it writes.
  \<^item> \<open>Buffer_Pool\<close>, \<open>Page_Cache\<close>: \<^verbatim>\<open>storage/buffer_pool.rs\<close>: shards, frames, pins, clock eviction,
    write-back. Handles stay on their pages whatever else happens, the clock finds a victim in two
    turns, and the pool is a cache: reading gives the current contents, installing changes one page,
    failing changes nothing (the locales \<open>page_cache\<close> and \<open>live_page_cache\<close>).
  \<^item> \<open>Shard_Locks\<close>, \<open>Shard_Progress\<close>: several threads on one shard of the pool. The record \<open>pool_world\<close> has
    the shard, the owner of its mutex, every handle with the guards taken through it, and the point each
    thread has reached; \<open>pool_step\<close> and \<open>pool_ask\<close> interleave the operations at the places where the code waits for
    the mutex or for the lock of a frame. Whether a waiting writer keeps new readers out is a parameter, since
    the standard library leaves it open. The invariant is \<open>pool_ok\<close>.
  \<^item> \<open>Database\<close>, \<open>Txn\<close>: \<^verbatim>\<open>db/mod.rs\<close> and \<^verbatim>\<open>db/txn.rs\<close>: opening, creating, checkpoints, poisoning, read and
    write transactions, commit.
  \<^item> \<open>Db_State\<close>, \<open>Db_Commit\<close>, \<open>Db_Open\<close>, \<open>Db_Txn\<close>: the contents of a database (\<open>adb\<close>: the page count and
    the pages), the function \<open>view\<close> that reads them off a handle and a system, and the invariant
    \<open>db_inv\<close> that ties handle, pool, log and data file together: the log has an image of every page that
    the data file may not have. One lemma per operation, for every script of faults: the invariant
    stays, or the handle is poisoned and what is on the disk still determines the contents
    (\<open>recoverable\<close>). The locale \<open>readable\<close> says what reading relies on; it is interpreted on \<open>db_inv\<close>, on
    the state between logging and publishing a commit (\<open>txn_logged\<close>) and on a shared handle (\<open>cache_ok\<close>).
  \<^item> \<open>Crash_Safety\<close>: the step relation \<open>engine\<close> runs the operations, kills and power losses in any order and
    keeps the set of contents that the specification allows; the main theorems are about it.
  \<^item> \<open>Threads\<close>, \<open>Isolation\<close>, \<open>Concurrent_Crash\<close>: several threads on one handle. The record \<open>world\<close> has
    the handle, the system, the two locks of \<^verbatim>\<open>Database\<close> and the point each thread has reached; the relation
    \<open>step\<close> interleaves read transactions, write transactions and checkpoints at the places where the code takes or
    gives back a lock. Its fields \<open>wd_committed\<close> and \<open>wd_broken\<close> only record what has happened.
  \<^item> \<open>Limits\<close>: what happens outside the hypotheses, as theorems on concrete runs.

  \<^bold>\<open>What the main theorems show.\<close> After any history, losing power and opening again
  succeeds and finds the contents of the acknowledged commits; a commit that returned an error is there
  as a whole or not at all. Killing the process instead loses nothing either. While a handle is usable
  its contents are the specified ones, every page is valid, reads return them, and a write transaction
  sees its own changes and nobody else does. Without faults commits and checkpoints succeed. Everything
  that fails after a commit began to write poisons the handle.

  With several threads: a read transaction sees one committed state from beginning to end; write
  transactions run one after another and none undoes another's commit; losing power in the
  middle of any step of any thread leaves the committed contents, with or without the one commit
  in flight; and the locks cannot deadlock. The steps of a commit without interruption are the function
  \<open>commit\<close> of the single-threaded theorems.

  Inside the pool: a thread with the mutex of a shard never waits for another thread, as the source
  argues; a guard protects its page and a handle its frame; the pieces of an operation make the function of
  \<open>Buffer_Pool\<close>; and every call returns if threads use the pool as transactions and checkpoints do (\<open>polite\<close>). A
  thread that flushes a page it has a guard on, as a checkpoint inside the closure of \<^verbatim>\<open>read_page\<close>
  does, waits forever.

  \<^bold>\<open>Hypotheses.\<close> \<open>tears_found\<close>: a record of the log that reached the disk without some of its
  sectors does not happen to have a matching checksum; no 32-bit checksum can promise this.
  \<open>whole_headers\<close>: a write of the 24 bytes of the log header fails with none or all of them written (it
  lies in one sector). \<open>commit_fits\<close>: page ids below 2^52, and transaction ids and record numbers below
  2^64. A history reopens either from synced files, with any faults, or from files as a killed
  process left them, on a system without faults and with no failed fsync before; \<open>Limits\<close> shows
  that the engine does lose atomicity when both kinds of failure come together.

  \<^bold>\<open>Bounds.\<close> Integers are words of their width and wrap around as in a release build. Loops are structural
  recursion, or bounded as in the source (the clock sweep), or have a termination proof
  (\<open>read_records\<close>, \<open>ilog2\<close>); no definition uses fuel of its own.

  \<^bold>\<open>Not modelled.\<close> The threads of \<open>Threads\<close> call the pool in one step; its locks are the subject of \<open>Shard_Locks\<close>, for
  one shard at a time, since no operation holds locks of two, and with fewer than 2^32 handles and
  requests at once, as a pin count is a \<^verbatim>\<open>u32\<close>. A thread runs one transaction or checkpoint at a time,
  as \<^verbatim>\<open>db/txn.rs\<close> demands. Durability with several threads is shown up to and including the first failure; after
  it \<open>Limits\<close> shows that a waiting checkpoint can do harm. In histories of a single thread, reads by a
  transaction that was begun before the handle was poisoned are left out. Sizes of \<^verbatim>\<open>usize\<close> and memory
  exhaustion; \<^verbatim>\<open>Debug\<close> output; the crate's module files, which only declare and re-export; tests and
  benchmarks.
\<close>

end
